(* ===== verification/Mutek_Prelude.thy ===== *)
theory Mutek_Prelude
  imports Main "HOL-Library.Word"
begin

text \<open>
  Prelude of the MutekH development: the machine types of the modelled configuration,
  the error codes of \<^verbatim>\<open>hexo/error.h\<close>, the named theorem collections of the library and the
  generic facts on words and lists that the component theories share.

  The configuration is the 32-bit one of \<^verbatim>\<open>cpu/common/include/cpu/hexo/types_cpu32.h\<close>:
  pointers, \<^verbatim>\<open>size_t\<close>, \<^verbatim>\<open>reg_t\<close> and every \<^verbatim>\<open>uint_fast8_t\<close>, \<^verbatim>\<open>uint_fast16_t\<close>,
  \<^verbatim>\<open>uint_fast32_t\<close> are 32 bits wide, so all of them are the type \<open>u32\<close>.
\<close>

unbundle bit_operations_syntax

section \<open>Machine types\<close>

type_synonym u8 = "8 word"
type_synonym u16 = "16 word"
type_synonym u32 = "32 word"
type_synonym u64 = "64 word"

text \<open>A pointer (\<^verbatim>\<open>uintptr_t\<close>) of the 32-bit configuration, and a block of bytes.\<close>

type_synonym addr = u32
type_synonym bytes = "u8 list"

text \<open>The byte store that pointer-based code reads and writes.\<close>

type_synonym mem = "addr \<Rightarrow> u8"

section \<open>Error codes\<close>

text \<open>
  \<^verbatim>\<open>error_t\<close> is a signed integer: 0 for success, the negated code of \<^verbatim>\<open>hexo/error.h\<close> for most
  failures (some functions return the positive code, and the models keep the sign).
\<close>

type_synonym error_t = int

definition ENOENT :: error_t where "ENOENT = 2"
definition EBUSY :: error_t where "EBUSY = 3"
definition ENOMEM :: error_t where "ENOMEM = 4"
definition EINVAL :: error_t where "EINVAL = 5"
definition EDEADLK :: error_t where "EDEADLK = 6"
definition EPERM :: error_t where "EPERM = 7"
definition ENOTSUP :: error_t where "ENOTSUP = 8"
definition EAGAIN :: error_t where "EAGAIN = 9"

text \<open>The result of a signed 32 bit computation; C leaves one that does not fit undefined.\<close>

definition c_int :: "int \<Rightarrow> int option" where
  "c_int x = (if - (2 ^ 31) \<le> x \<and> x < 2 ^ 31 then Some x else None)"

section \<open>Collections\<close>

named_theorems errno_defs \<open>the values of the error codes\<close>
named_theorems unat_conv \<open>word operations read through unat\<close>

lemmas errno_values [errno_defs] =
  ENOENT_def EBUSY_def ENOMEM_def EINVAL_def EDEADLK_def EPERM_def ENOTSUP_def EAGAIN_def

section \<open>Words\<close>

lemma unat_sub_le [unat_conv]: "b \<le> a \<Longrightarrow> unat (a - b) = unat a - unat (b :: 'a::len word)"
  by (simp add: unat_sub)

lemma unat_add_small [unat_conv]:
  "unat a + unat b < 2 ^ LENGTH('a) \<Longrightarrow> unat (a + b) = unat a + unat (b :: 'a::len word)"
  by (simp add: unat_add_lem [THEN iffD1])

lemma unat_lt2p: "unat (x :: 'a::len word) < 2 ^ LENGTH('a)"
  by simp

lemma u32_unat_bound: "unat (x :: u32) < 4294967296"
  using unat_lt2p [of x] by simp

lemma u32_of_nat_inverse: "n < 4294967296 \<Longrightarrow> unat (of_nat n :: u32) = n"
  by (simp add: unat_of_nat)

lemma unat_push_drop_bit:
  "unat (push_bit k (drop_bit k y)) = unat (y :: 'a::len word) div 2 ^ k * 2 ^ k"
proof -
  have "unat (push_bit k (drop_bit k y)) = push_bit k (drop_bit k (unat y))"
    by (rule bit_eqI) (auto simp: bit_simps dest: bit_imp_le_length)
  then show ?thesis
    by (simp add: push_bit_eq_mult drop_bit_eq_div)
qed

lemma unat_exp: "k < LENGTH('a) \<Longrightarrow> unat (2 ^ k :: 'a::len word) = 2 ^ k"
  by (rule bit_eqI) (auto simp: bit_simps)

lemma unat_pred: "x \<noteq> 0 \<Longrightarrow> unat (x - 1) = unat (x :: 'a :: len word) - 1"
  by (subst unat_sub_le) (auto simp: word_le_nat_alt Suc_le_eq unat_gt_0)

lemma unat_minus_one_eq: "unat (- 1 :: 'a::len word) = 2 ^ LENGTH('a) - 1"
proof -
  have "unat (- 1 :: 'a word) = mask LENGTH('a)"
    by (rule bit_eqI) (auto simp: bit_simps)
  then show ?thesis by (simp add: mask_eq_exp_minus_1)
qed

lemma or_mask_eq: "y OR mask k = push_bit k (drop_bit k y) + mask k" for y :: "'a::len word"
proof -
  have "(y AND mask k) + (y OR mask k) = y + mask k"
    by (rule word_plus_and_or)
  then have "take_bit k y + (y OR mask k) = push_bit k (drop_bit k y) + take_bit k y + mask k"
    by (simp add: take_bit_eq_mask bits_ident [unfolded take_bit_eq_mask])
  then show ?thesis
    by (simp add: algebra_simps)
qed

lemma and_not_mask_eq: "y AND NOT (mask k) = push_bit k (drop_bit k y)" for y :: "'a::len word"
  by (rule bit_eqI) (auto simp: bit_simps)

section \<open>Lists\<close>

lemma distinct_middle:
  "distinct (xs @ a # ys) \<Longrightarrow> a \<notin> set xs \<and> a \<notin> set ys"
  by auto

lemma split_list_unique:
  assumes "xs @ a # ys = xs' @ a # ys'" and "distinct (xs @ a # ys)"
  shows "xs = xs' \<and> ys = ys'"
  using assms
proof (induction xs arbitrary: xs')
  case Nil
  then show ?case by (cases xs') auto
next
  case (Cons x xs)
  then show ?case by (cases xs') auto
qed

lemma unat_ucast_mod: "unat (ucast (w :: 'a::len word) :: 'b::len word) = unat w mod 2 ^ LENGTH('b)"
  by (simp add: unsigned_ucast_eq take_bit_eq_mod)

lemma unat_drop_bit_div: "unat (drop_bit n w) = unat (w :: 'a::len word) div 2 ^ n"
  by (simp only: unat_drop_bit_eq) (simp only: drop_bit_eq_div)

text \<open>Bounded quantifiers over a literal bound, for the evaluation of samples.\<close>

lemma All_less_numeral:
  "(\<forall>i < numeral k. P i) \<longleftrightarrow> P (pred_numeral k) \<and> (\<forall>i < pred_numeral k. P i)"
  by (simp add: numeral_eq_Suc All_less_Suc)

lemma last_notin_butlast: "distinct xs \<Longrightarrow> xs \<noteq> [] \<Longrightarrow> last xs \<notin> set (butlast xs)"
  by (induction xs) (auto dest: in_set_butlastD)

text \<open>With this congruence \<open>simp\<close> evaluates a computation in the option monad from left to right.\<close>

lemma bind_weak_cong: "x = y \<Longrightarrow> Option.bind x f = Option.bind y f"
  by simp

lemma c_int_Some: "c_int x = Some y \<longleftrightarrow> y = x \<and> - (2 ^ 31) \<le> x \<and> x < 2 ^ 31"
  by (auto simp: c_int_def)

end
