(* ===== verification/Endian.thy ===== *)
theory Endian
  imports Mutek_Prelude
begin

text \<open>
  \<^verbatim>\<open>hexo/include/hexo/endian.h\<close>: byte swapping, non-aligned loads and stores by bytes, the
  alignment macros and the bit extraction macros.  The lemmas show that the swaps are
  involutions, that the stores and loads are inverse, and what the alignment macros compute on
  machine words, wrap-around included.
\<close>

section \<open>Byte swapping\<close>

definition endian_swap16 :: "u16 \<Rightarrow> u16" where
  "endian_swap16 x = drop_bit 8 x OR push_bit 8 x"

definition endian_swap32 :: "u32 \<Rightarrow> u32" where
  "endian_swap32 x =
     (drop_bit 24 x AND 0x000000ff) OR (drop_bit 8 x AND 0x0000ff00) OR
     (push_bit 8 x AND 0x00ff0000) OR (push_bit 24 x AND 0xff000000)"

definition endian_swap64 :: "u64 \<Rightarrow> u64" where
  "endian_swap64 x =
     push_bit 32 (ucast (endian_swap32 (ucast x))) OR
     ucast (endian_swap32 (ucast (drop_bit 32 x)))"

section \<open>Non aligned access by bytes\<close>

text \<open>
  \<^verbatim>\<open>__ENDIAN_NAL_L\<close> reads one byte and shifts it left; \<^verbatim>\<open>__ENDIAN_NAS_R\<close> stores one byte of the
  value shifted right.  The loads take the bytes at the address as a function of the index.
\<close>

definition NAL_L :: "mem \<Rightarrow> addr \<Rightarrow> addr \<Rightarrow> nat \<Rightarrow> 'a::len word" where
  "NAL_L m a i s = push_bit s (ucast (m (a + i)))"

definition NAS_R :: "mem \<Rightarrow> addr \<Rightarrow> addr \<Rightarrow> 'a::len word \<Rightarrow> nat \<Rightarrow> mem" where
  "NAS_R m a i v s = m(a + i := ucast (drop_bit s v))"

definition endian_le16_na_load :: "mem \<Rightarrow> addr \<Rightarrow> u16" where
  "endian_le16_na_load m a = NAL_L m a 0 0 OR NAL_L m a 1 8"

definition endian_le32_na_load :: "mem \<Rightarrow> addr \<Rightarrow> u32" where
  "endian_le32_na_load m a =
     NAL_L m a 0 0 OR NAL_L m a 1 8 OR NAL_L m a 2 16 OR NAL_L m a 3 24"

definition endian_be16_na_load :: "mem \<Rightarrow> addr \<Rightarrow> u16" where
  "endian_be16_na_load m a = NAL_L m a 0 8 OR NAL_L m a 1 0"

definition endian_be32_na_load :: "mem \<Rightarrow> addr \<Rightarrow> u32" where
  "endian_be32_na_load m a =
     NAL_L m a 0 24 OR NAL_L m a 1 16 OR NAL_L m a 2 8 OR NAL_L m a 3 0"

definition endian_le16_na_store :: "mem \<Rightarrow> addr \<Rightarrow> u16 \<Rightarrow> mem" where
  "endian_le16_na_store m a v = NAS_R (NAS_R m a 0 v 0) a 1 v 8"

definition endian_le32_na_store :: "mem \<Rightarrow> addr \<Rightarrow> u32 \<Rightarrow> mem" where
  "endian_le32_na_store m a v =
     NAS_R (NAS_R (NAS_R (NAS_R m a 0 v 0) a 1 v 8) a 2 v 16) a 3 v 24"

definition endian_be16_na_store :: "mem \<Rightarrow> addr \<Rightarrow> u16 \<Rightarrow> mem" where
  "endian_be16_na_store m a v = NAS_R (NAS_R m a 0 v 8) a 1 v 0"

definition endian_be32_na_store :: "mem \<Rightarrow> addr \<Rightarrow> u32 \<Rightarrow> mem" where
  "endian_be32_na_store m a v =
     NAS_R (NAS_R (NAS_R (NAS_R m a 0 v 24) a 1 v 16) a 2 v 8) a 3 v 0"

section \<open>Alignment and bit extraction macros\<close>

definition ALIGN_ISPOWTWO :: "'a::len word \<Rightarrow> bool" where
  "ALIGN_ISPOWTWO x \<longleftrightarrow> x AND (x - 1) = 0"

definition IS_ALIGNED :: "'a::len word \<Rightarrow> 'a word \<Rightarrow> bool" where
  "IS_ALIGNED x b \<longleftrightarrow> x AND (b - 1) = 0"

definition ALIGN_VALUE_UP :: "'a::len word \<Rightarrow> 'a word \<Rightarrow> 'a word" where
  "ALIGN_VALUE_UP x b = (if b = 1 then x else ((x - 1) OR (b - 1)) + 1)"

definition ALIGN_VALUE_LOW :: "'a::len word \<Rightarrow> 'a word \<Rightarrow> 'a word" where
  "ALIGN_VALUE_LOW x b = (if b = 1 then x else x AND NOT (b - 1))"

definition BIT_EXTRACT :: "u32 \<Rightarrow> nat \<Rightarrow> u32" where
  "BIT_EXTRACT v index = v AND push_bit index 1"

definition BITS_EXTRACT_FC :: "u32 \<Rightarrow> nat \<Rightarrow> nat \<Rightarrow> u32" where
  "BITS_EXTRACT_FC v first count = drop_bit first v AND (push_bit count 1 - 1)"

definition BITS_EXTRACT_FL :: "u32 \<Rightarrow> nat \<Rightarrow> nat \<Rightarrow> u32" where
  "BITS_EXTRACT_FL v first lst = BITS_EXTRACT_FC v first (lst - first + 1)"

section \<open>Lemmas\<close>

subsection \<open>Swaps\<close>

lemma bit_numeral_masks:
  "(0x000000ff :: u32) = mask 8"
  "(0x0000ff00 :: u32) = push_bit 8 (mask 8)"
  "(0x00ff0000 :: u32) = push_bit 16 (mask 8)"
  "(0xff000000 :: u32) = push_bit 24 (mask 8)"
  by (simp_all add: mask_eq_exp_minus_1 push_bit_eq_mult)

lemma bit_endian_swap16:
  "bit (endian_swap16 x) n \<longleftrightarrow> n < 16 \<and> bit x (if n < 8 then n + 8 else n - 8)"
  by (auto simp: endian_swap16_def bit_simps add.commute dest: bit_imp_le_length)

lemma bit_endian_swap32:
  "bit (endian_swap32 x) n \<longleftrightarrow>
     n < 32 \<and> bit x (if n < 8 then n + 24 else if n < 16 then n + 8
                     else if n < 24 then n - 8 else n - 24)"
  unfolding endian_swap32_def bit_numeral_masks
  by (auto simp: bit_simps add.commute dest: bit_imp_le_length)

lemma endian_swap16_involution: "endian_swap16 (endian_swap16 x) = x"
  by (rule bit_eqI) (auto simp: bit_endian_swap16 dest: bit_imp_le_length)

lemma endian_swap32_involution: "endian_swap32 (endian_swap32 x) = x"
  by (rule bit_eqI) (auto simp: bit_endian_swap32 dest: bit_imp_le_length)

lemma bit_endian_swap64:
  "bit (endian_swap64 x) n \<longleftrightarrow> n < 64 \<and> bit x (8 * (7 - n div 8) + n mod 8)"
proof (cases "n < 64")
  case True
  then have "n div 8 < 8"
    by (simp add: div_less_iff_less_mult)
  then consider "n div 8 = 0" | "n div 8 = 1" | "n div 8 = 2" | "n div 8 = 3"
    | "n div 8 = 4" | "n div 8 = 5" | "n div 8 = 6" | "n div 8 = 7"
    by linarith
  moreover obtain k where k: "k < 8" "n = 8 * (n div 8) + k" "n mod 8 = k"
    by (metis mod_less_divisor mult_div_mod_eq zero_less_numeral)
  ultimately show ?thesis
    by cases (auto simp: endian_swap64_def bit_simps bit_endian_swap32 add.commute)
qed (auto dest: bit_imp_le_length)

subsection \<open>Alignment\<close>

lemma mask_as_exp: "(2 ^ k - 1 :: 'a::len word) = mask k"
  by (simp add: mask_eq_exp_minus_1)

lemma ALIGN_VALUE_UP_exp:
  "ALIGN_VALUE_UP x (2 ^ k) = push_bit k (drop_bit k (x - 1)) + 2 ^ k" for x :: "'a::len word"
proof (cases "(2 ^ k :: 'a word) = 1")
  case True
  then have "take_bit k (x - 1) = 0"
    by (simp add: take_bit_eq_mod)
  then have "push_bit k (drop_bit k (x - 1)) = x - 1"
    using bits_ident [of k "x - 1"] by simp
  with True show ?thesis
    by (simp add: ALIGN_VALUE_UP_def)
next
  case False
  then show ?thesis
    by (simp add: ALIGN_VALUE_UP_def mask_as_exp or_mask_eq) (simp add: mask_eq_exp_minus_1)
qed

lemma ALIGN_VALUE_LOW_exp:
  "ALIGN_VALUE_LOW x (2 ^ k) = push_bit k (drop_bit k x)" for x :: "'a::len word"
proof (cases "(2 ^ k :: 'a word) = 1")
  case True
  then have "take_bit k x = 0"
    by (simp add: take_bit_eq_mod)
  then show ?thesis
    using True bits_ident [of k x] by (simp add: ALIGN_VALUE_LOW_def)
next
  case False
  then show ?thesis
    by (simp add: ALIGN_VALUE_LOW_def mask_as_exp and_not_mask_eq)
qed

lemma unat_ALIGN_VALUE_LOW:
  "unat (ALIGN_VALUE_LOW x (2 ^ k)) = unat x div 2 ^ k * 2 ^ k"
  by (simp add: ALIGN_VALUE_LOW_exp unat_push_drop_bit)

lemma ceil_pred_div:
  assumes "0 < x" "0 < b"
  shows "(x - 1) div b * b + b = (x + b - 1) div b * (b::nat)"
proof -
  obtain y where y: "x = Suc y"
    using assms by (cases x) auto
  have "(y + b) div b = y div b + 1"
    using assms by (simp add: div_add_self2)
  then show ?thesis
    by (simp add: y)
qed

lemma unat_ALIGN_VALUE_UP:
  fixes x :: "'a::len word"
  assumes "k < LENGTH('a)"
  shows "unat (ALIGN_VALUE_UP x (2 ^ k)) = ((unat x + 2 ^ k - 1) div 2 ^ k * 2 ^ k) mod 2 ^ LENGTH('a)"
proof -
  have u2: "unat (2 ^ k :: 'a word) = 2 ^ k"
    using assms by (simp add: unat_exp)
  have up: "unat (ALIGN_VALUE_UP x (2 ^ k))
      = (unat (x - 1) div 2 ^ k * 2 ^ k + 2 ^ k) mod 2 ^ LENGTH('a)"
    by (simp add: ALIGN_VALUE_UP_exp unat_word_ariths unat_push_drop_bit u2)
  show ?thesis
  proof (cases "x = 0")
    case True
    have "(2::nat) ^ k dvd 2 ^ LENGTH('a)"
      using assms by (simp add: le_imp_power_dvd)
    then obtain q where q: "(2::nat) ^ LENGTH('a) = 2 ^ k * q" ..
    then have "0 < q" by (cases q) auto
    have "unat (x - 1) = 2 ^ LENGTH('a) - 1"
      using True by (simp add: unat_minus_one_eq)
    moreover have "(2 ^ k * q - 1) div 2 ^ k = q - 1"
    proof -
      from \<open>0 < q\<close> obtain p where p: "q = Suc p" by (cases q) auto
      have "2 ^ k * q - 1 = 2 ^ k * p + (2 ^ k - 1)"
        by (simp add: p)
      moreover have "(2 ^ k * p + (2 ^ k - 1)) div 2 ^ k = p + (2 ^ k - 1) div (2 ^ k :: nat)"
        by (rule div_mult_self4) simp
      ultimately show ?thesis by (simp add: p)
    qed
    ultimately have "unat (ALIGN_VALUE_UP x (2 ^ k)) = ((q - 1) * 2 ^ k + 2 ^ k) mod (2 ^ k * q)"
      using up q by simp
    also have "(q - 1) * 2 ^ k + 2 ^ k = 2 ^ k * q"
      using \<open>0 < q\<close> by (cases q) (simp_all add: algebra_simps)
    finally show ?thesis
      using True by simp
  next
    case False
    then have "unat (x - 1) = unat x - 1"
      by (simp add: unat_minus_one)
    moreover from False have "0 < unat x"
      by (simp add: unat_gt_0)
    ultimately show ?thesis
      using up ceil_pred_div [of "unat x" "2 ^ k"] by simp
  qed
qed

lemma ALIGN_VALUE_UP_props:
  fixes x :: "'a::len word"
  assumes k: "k < LENGTH('a)" and fit: "unat x + 2 ^ k \<le> 2 ^ LENGTH('a)"
  shows "2 ^ k dvd unat (ALIGN_VALUE_UP x (2 ^ k))"
    and "unat x \<le> unat (ALIGN_VALUE_UP x (2 ^ k))"
    and "unat (ALIGN_VALUE_UP x (2 ^ k)) < unat x + 2 ^ k"
proof -
  define b :: nat where "b = 2 ^ k"
  have b0: "0 < b" by (simp add: b_def)
  have fitb: "unat x + b \<le> 2 ^ LENGTH('a)"
    unfolding b_def by (rule fit)
  define y where "y = unat x + b - 1"
  have y: "y div b * b + y mod b = y" "y mod b < b"
    using b0 by simp_all
  have "y < 2 ^ LENGTH('a)"
    unfolding y_def using fitb b0 by linarith
  then have small: "y div b * b < 2 ^ LENGTH('a)"
    using y(1) by linarith
  have r: "unat (ALIGN_VALUE_UP x (2 ^ k)) = y div b * b"
    using unat_ALIGN_VALUE_UP [OF k, of x] mod_less [OF small] unfolding y_def b_def by metis
  show "2 ^ k dvd unat (ALIGN_VALUE_UP x (2 ^ k))"
    unfolding r b_def by simp
  show "unat (ALIGN_VALUE_UP x (2 ^ k)) < unat x + 2 ^ k"
    unfolding r b_def [symmetric] using y b0 unfolding y_def by linarith
  show "unat x \<le> unat (ALIGN_VALUE_UP x (2 ^ k))"
    unfolding r using y b0 unfolding y_def by linarith
qed

section \<open>Properties\<close>

text \<open>
  The three byte swaps reverse the order of the bytes: each is its own inverse, and bit \<open>n\<close> of the
  64-bit swap is bit \<open>n mod 8\<close> of the byte at the mirrored position.
\<close>

theorem endian_swap_involution:
  "endian_swap16 (endian_swap16 x) = x \<and> endian_swap32 (endian_swap32 y) = y
   \<and> endian_swap64 (endian_swap64 z) = z
   \<and> (bit (endian_swap64 z) n \<longleftrightarrow> n < 64 \<and> bit z (8 * (7 - n div 8) + n mod 8))"
proof -
  have "endian_swap64 (endian_swap64 z) = z"
  proof (rule bit_eqI)
    fix n :: nat
    have "8 * (7 - (7 - n div 8)) + n mod 8 = n" if "n < 64"
    proof -
      have "n div 8 \<le> 7"
        using that by simp
      then show ?thesis
        by simp
    qed
    then show "bit (endian_swap64 (endian_swap64 z)) n \<longleftrightarrow> bit z n"
      by (cases "n < 64") (auto simp: bit_endian_swap64 dest: bit_imp_le_length)
  qed
  then show ?thesis
    by (simp add: endian_swap16_involution endian_swap32_involution bit_endian_swap64)
qed

text \<open>
  A value stored by bytes is loaded back unchanged at the same address, in both byte orders and both
  widths, at every address, the ones where the range wraps included; a value stored in one order and
  loaded in the other is byte-swapped.
\<close>

theorem endian_na_roundtrip:
  "endian_le16_na_load (endian_le16_na_store m a v) a = v
   \<and> endian_be16_na_load (endian_be16_na_store m a v) a = v
   \<and> endian_le32_na_load (endian_le32_na_store m a w) a = w
   \<and> endian_be32_na_load (endian_be32_na_store m a w) a = w
   \<and> endian_be16_na_load (endian_le16_na_store m a v) a = endian_swap16 v
   \<and> endian_be32_na_load (endian_le32_na_store m a w) a = endian_swap32 w"
proof -
  have ne: "a + 1 \<noteq> a" "a + 2 \<noteq> a" "a + 3 \<noteq> a" "a + 1 \<noteq> a + 2" "a + 1 \<noteq> a + 3" "a + 2 \<noteq> a + 3"
    by simp_all
  note d = NAL_L_def NAS_R_def
  have 1: "endian_le16_na_load (endian_le16_na_store m a v) a = v"
    by (rule bit_eqI) (auto simp: endian_le16_na_load_def endian_le16_na_store_def d bit_simps)
  have 2: "endian_be16_na_load (endian_be16_na_store m a v) a = v"
    by (rule bit_eqI) (auto simp: endian_be16_na_load_def endian_be16_na_store_def d bit_simps)
  have 5: "endian_be16_na_load (endian_le16_na_store m a v) a = endian_swap16 v"
    by (rule bit_eqI) (auto simp: endian_be16_na_load_def endian_le16_na_store_def d bit_simps
        bit_endian_swap16 add.commute)
  define le be where "le = endian_le32_na_store m a w" and "be = endian_be32_na_store m a w"
  have le: "le a = ucast w" "le (a + 1) = ucast (drop_bit 8 w)" "le (a + 2) = ucast (drop_bit 16 w)"
    "le (a + 3) = ucast (drop_bit 24 w)"
    using ne by (simp_all add: le_def endian_le32_na_store_def NAS_R_def)
  have be: "be a = ucast (drop_bit 24 w)" "be (a + 1) = ucast (drop_bit 16 w)"
    "be (a + 2) = ucast (drop_bit 8 w)" "be (a + 3) = ucast w"
    using ne by (simp_all add: be_def endian_be32_na_store_def NAS_R_def)
  have split: "bit w n \<longleftrightarrow> n < 8 \<and> bit w n \<or> (8 \<le> n \<and> n < 16) \<and> bit w n
      \<or> (16 \<le> n \<and> n < 24) \<and> bit w n \<or> (24 \<le> n \<and> n < 32) \<and> bit w n" for n
    using bit_imp_le_length [of w n] by auto
  have 3: "endian_le32_na_load le a = w"
    by (rule bit_eqI, subst split)
      (auto simp: endian_le32_na_load_def NAL_L_def le bit_simps)
  have 4: "endian_be32_na_load be a = w"
    by (rule bit_eqI, subst split)
      (auto simp: endian_be32_na_load_def NAL_L_def be bit_simps)
  have 6: "endian_be32_na_load le a = endian_swap32 w"
    by (rule bit_eqI) (auto simp: endian_be32_na_load_def NAL_L_def le bit_simps
        bit_endian_swap32 add.commute [where 'a = nat])
  show ?thesis
    using 1 2 3 4 5 6 unfolding le_def be_def by blast
qed

text \<open>
  \<^verbatim>\<open>ALIGN_VALUE_UP\<close> on a power of two gives the smallest multiple that is not below the value, when
  that multiple fits in the word; \<^verbatim>\<open>ALIGN_VALUE_LOW\<close> gives the largest multiple not above it, always.
\<close>

theorem ALIGN_VALUE_bounds:
  fixes x :: u32
  assumes "k < 32" "unat x + 2 ^ k \<le> 2 ^ 32"
  shows "2 ^ k dvd unat (ALIGN_VALUE_UP x (2 ^ k)) \<and> unat x \<le> unat (ALIGN_VALUE_UP x (2 ^ k))
     \<and> unat (ALIGN_VALUE_UP x (2 ^ k)) < unat x + 2 ^ k
     \<and> 2 ^ k dvd unat (ALIGN_VALUE_LOW x (2 ^ k)) \<and> unat (ALIGN_VALUE_LOW x (2 ^ k)) \<le> unat x
     \<and> unat x < unat (ALIGN_VALUE_LOW x (2 ^ k)) + 2 ^ k"
proof -
  have "unat x < unat x div 2 ^ k * 2 ^ k + 2 ^ k"
    using div_mult_mod_eq [of "unat x" "2 ^ k"] mod_less_divisor [of "2 ^ k" "unat x"]
    by (metis add_strict_left_mono zero_less_numeral zero_less_power)
  then show ?thesis
    using ALIGN_VALUE_UP_props [of k x] assms by (simp add: unat_ALIGN_VALUE_LOW)
qed

theorem ALIGN_VALUE_bounds_witness:
  "ALIGN_VALUE_UP (0x1234 :: u32) (2 ^ 12) = 0x2000 \<and> ALIGN_VALUE_LOW (0x1234 :: u32) (2 ^ 12) = 0x1000
   \<and> 2 ^ 12 dvd unat (ALIGN_VALUE_UP (0x1234 :: u32) (2 ^ 12))"
proof -
  have "2 ^ 12 dvd unat (ALIGN_VALUE_UP (0x1234 :: u32) (2 ^ 12))"
    using ALIGN_VALUE_bounds [of 12 "0x1234"] by simp
  then show ?thesis
    by (simp add: ALIGN_VALUE_UP_def ALIGN_VALUE_LOW_def)
qed

end
