(* ===== verification/Gpct_Clist.thy ===== *)
theory Gpct_Clist
  imports Mutek_Prelude "HOL-Library.Monad_Syntax"
begin

text \<open>
  The circular doubly linked list of the container templates
  (\<^verbatim>\<open>gpct/gpct/include/gpct/cont_clist.t\<close> and \<^verbatim>\<open>_cont_lists.t\<close>), at the level of its pointers: a
  store of \<^verbatim>\<open>next\<close> and \<^verbatim>\<open>prev\<close> fields, the root's own entry \<^verbatim>\<open>ht\<close> as the node \<open>Ht\<close> and the entry
  embedded in an item as the node \<open>It i\<close>.  NULL is \<open>None\<close>; an operation that dereferences NULL
  yields \<open>None\<close>.  The locks of the container are those of the users and are not part of the
  store.  The lemmas relate each operation to the list of items the store represents.
\<close>

section \<open>Store and operations\<close>

datatype 'i node = Ht | It 'i

record 'i clist_store =
  nx :: "'i node \<Rightarrow> 'i node option"
  pv :: "'i node \<Rightarrow> 'i node option"

definition set_nx :: "'i clist_store \<Rightarrow> 'i node \<Rightarrow> 'i node option \<Rightarrow> 'i clist_store" where
  "set_nx s n v = s\<lparr>nx := (nx s)(n := v)\<rparr>"

definition set_pv :: "'i clist_store \<Rightarrow> 'i node \<Rightarrow> 'i node option \<Rightarrow> 'i clist_store" where
  "set_pv s n v = s\<lparr>pv := (pv s)(n := v)\<rparr>"

text \<open>\<^verbatim>\<open>GPCT_CONT_CLIST_EMPTY\<close>, called by the init and clear functions.\<close>

definition clist_empty :: "'i clist_store \<Rightarrow> 'i clist_store" where
  "clist_empty s = set_nx (set_pv s Ht (Some Ht)) Ht (Some Ht)"

definition clist_isempty :: "'i clist_store \<Rightarrow> bool" where
  "clist_isempty s \<longleftrightarrow> nx s Ht = Some Ht"

text \<open>
  The item a pointer leads to: \<^verbatim>\<open>GPCT_CONT_CLIST_ISEND\<close> is the comparison with the root's
  entry, for which the accessors return NULL (\<open>Some None\<close>).
\<close>

definition clist_item :: "'i node option \<Rightarrow> 'i option option" where
  "clist_item p = (case p of None \<Rightarrow> None | Some Ht \<Rightarrow> Some None | Some (It j) \<Rightarrow> Some (Some j))"

definition clist_next :: "'i clist_store \<Rightarrow> 'i \<Rightarrow> 'i option option" where
  "clist_next s i = clist_item (nx s (It i))"

definition clist_prev :: "'i clist_store \<Rightarrow> 'i \<Rightarrow> 'i option option" where
  "clist_prev s i = clist_item (pv s (It i))"

definition clist_head :: "'i clist_store \<Rightarrow> 'i option option" where
  "clist_head s = clist_item (nx s Ht)"

definition clist_insert_pre :: "'i clist_store \<Rightarrow> 'i \<Rightarrow> 'i \<Rightarrow> 'i clist_store option" where
  "clist_insert_pre s index item = do {
     let s = set_nx s (It item) (Some (It index));
     let s = set_pv s (It item) (pv s (It index));
     p \<leftarrow> pv s (It index);
     let s = set_nx s p (Some (It item));
     Some (set_pv s (It index) (Some (It item)))
   }"

definition clist_insert_post :: "'i clist_store \<Rightarrow> 'i \<Rightarrow> 'i \<Rightarrow> 'i clist_store option" where
  "clist_insert_post s index item = do {
     let s = set_pv s (It item) (Some (It index));
     let s = set_nx s (It item) (nx s (It index));
     n \<leftarrow> nx s (It index);
     let s = set_pv s n (Some (It item));
     Some (set_nx s (It index) (Some (It item)))
   }"

definition clist_remove :: "'i clist_store \<Rightarrow> 'i \<Rightarrow> 'i clist_store option" where
  "clist_remove s index = do {
     p \<leftarrow> pv s (It index);
     let s = set_nx s p (nx s (It index));
     n \<leftarrow> nx s (It index);
     Some (set_pv s n (pv s (It index)))
   }"

definition clist_push :: "'i clist_store \<Rightarrow> 'i \<Rightarrow> 'i clist_store option" where
  "clist_push s item = do {
     let s = set_pv s (It item) (Some Ht);
     h \<leftarrow> nx s Ht;
     let s = set_pv s h (Some (It item));
     let s = set_nx s (It item) (nx s Ht);
     Some (set_nx s Ht (Some (It item)))
   }"

definition clist_pushback :: "'i clist_store \<Rightarrow> 'i \<Rightarrow> 'i clist_store option" where
  "clist_pushback s item = do {
     let s = set_nx s (It item) (Some Ht);
     t \<leftarrow> pv s Ht;
     let s = set_nx s t (Some (It item));
     let s = set_pv s (It item) (pv s Ht);
     Some (set_pv s Ht (Some (It item)))
   }"

definition clist_pop :: "'i clist_store \<Rightarrow> ('i clist_store \<times> 'i option) option" where
  "clist_pop s = do {
     h \<leftarrow> clist_head s;
     case h of None \<Rightarrow> Some (s, None)
     | Some i \<Rightarrow> do { s' \<leftarrow> clist_remove s i; Some (s', Some i) }
   }"

text \<open>
  Containers declared with orphan checking: a removal clears the \<^verbatim>\<open>next\<close> field of the entry, and removals and
  insertions at an entry whose \<^verbatim>\<open>next\<close> field is NULL are refused.
\<close>

definition orphan_set :: "'i clist_store \<Rightarrow> 'i \<Rightarrow> 'i clist_store" where
  "orphan_set s i = set_nx s (It i) None"

definition orphan_chk :: "'i clist_store \<Rightarrow> 'i \<Rightarrow> bool" where
  "orphan_chk s i \<longleftrightarrow> nx s (It i) \<noteq> None"

definition clist_remove_chk :: "'i clist_store \<Rightarrow> 'i \<Rightarrow> (int \<times> 'i clist_store) option" where
  "clist_remove_chk s index =
     (if orphan_chk s index then do { s \<leftarrow> clist_remove s index; Some (0, orphan_set s index) }
      else Some (-1, s))"

definition clist_insert_pre_chk :: "'i clist_store \<Rightarrow> 'i \<Rightarrow> 'i \<Rightarrow> (nat \<times> 'i clist_store) option" where
  "clist_insert_pre_chk s index item =
     (if orphan_chk s index then do { s \<leftarrow> clist_insert_pre s index item; Some (1, s) }
      else Some (0, s))"

definition clist_pop_chk :: "'i clist_store \<Rightarrow> ('i clist_store \<times> 'i option) option" where
  "clist_pop_chk s = do {
     h \<leftarrow> clist_head s;
     case h of None \<Rightarrow> Some (s, None)
     | Some i \<Rightarrow> do { s' \<leftarrow> clist_remove s i; Some (orphan_set s' i, Some i) }
   }"

section \<open>The list a store represents\<close>

fun linked :: "'i clist_store \<Rightarrow> 'i node list \<Rightarrow> bool" where
  "linked s (a # b # r) \<longleftrightarrow> nx s a = Some b \<and> pv s b = Some a \<and> linked s (b # r)"
| "linked s r \<longleftrightarrow> True"

definition clist_rep :: "'i clist_store \<Rightarrow> 'i list \<Rightarrow> bool" where
  "clist_rep s xs \<longleftrightarrow> distinct xs \<and> linked s (Ht # map It xs @ [Ht])"

text \<open>The node before and the node after a position of the ring.\<close>

definition ring_last :: "'i list \<Rightarrow> 'i node" where
  "ring_last xs = (if xs = [] then Ht else It (last xs))"

definition ring_hd :: "'i list \<Rightarrow> 'i node" where
  "ring_hd ys = (case ys of [] \<Rightarrow> Ht | y # _ \<Rightarrow> It y)"

text \<open>What every insertion does to the two neighbours, and what the removal does.\<close>

definition ins_between :: "'i clist_store \<Rightarrow> 'i node \<Rightarrow> 'i node \<Rightarrow> 'i \<Rightarrow> 'i clist_store" where
  "ins_between s p q item =
     s\<lparr>nx := (nx s)(It item := Some q, p := Some (It item)),
       pv := (pv s)(It item := Some p, q := Some (It item))\<rparr>"

definition del_between :: "'i clist_store \<Rightarrow> 'i node \<Rightarrow> 'i node \<Rightarrow> 'i clist_store" where
  "del_between s p q = s\<lparr>nx := (nx s)(p := Some q), pv := (pv s)(q := Some p)\<rparr>"

section \<open>Lemmas on linked nodes\<close>

lemma linked_append:
  "linked s (xs @ a # ys) \<longleftrightarrow> linked s (xs @ [a]) \<and> linked s (a # ys)"
proof (induction xs)
  case Nil
  then show ?case by simp
next
  case (Cons x xs)
  then show ?case by (cases xs) auto
qed

lemma linked_frame:
  assumes "linked s ns"
    and "\<And>n. n \<in> set (butlast ns) \<Longrightarrow> nx s' n = nx s n"
    and "\<And>n. n \<in> set (tl ns) \<Longrightarrow> pv s' n = pv s n"
  shows "linked s' ns"
  using assms
proof (induction ns)
  case Nil
  then show ?case by simp
next
  case (Cons a ns)
  show ?case
  proof (cases ns)
    case Nil
    then show ?thesis by simp
  next
    case (Cons b r)
    have "linked s' ns"
      using Cons.prems Cons by (intro Cons.IH) (auto split: if_splits)
    with Cons.prems Cons show ?thesis by simp
  qed
qed

text \<open>The ring cut at a position: the node before it, the node after it.\<close>

lemma ring_cut:
  obtains A B where "Ht # map It xs = A @ [ring_last xs]" "map It ys @ [Ht] = ring_hd ys # B"
    "set A = set (butlast (Ht # map It xs))" "set B \<subseteq> insert Ht (It ` set (tl ys))"
proof -
  have "Ht # map It xs = butlast (Ht # map It xs) @ [ring_last xs]"
    by (cases xs rule: rev_cases) (auto simp: ring_last_def)
  moreover have "\<exists>B. map It ys @ [Ht] = ring_hd ys # B \<and> set B \<subseteq> insert Ht (It ` set (tl ys))"
    by (cases ys) (auto simp: ring_hd_def)
  ultimately show ?thesis using that by blast
qed

lemma rep_cut:
  "clist_rep s (xs @ ys) \<longleftrightarrow> distinct (xs @ ys) \<and> linked s (Ht # map It xs)
     \<and> nx s (ring_last xs) = Some (ring_hd ys) \<and> pv s (ring_hd ys) = Some (ring_last xs)
     \<and> linked s (map It ys @ [Ht])"
proof -
  obtain A B where A: "Ht # map It xs = A @ [ring_last xs]" and B: "map It ys @ [Ht] = ring_hd ys # B"
    by (rule ring_cut)
  have "linked s (Ht # map It (xs @ ys) @ [Ht]) = linked s ((A @ [ring_last xs]) @ ring_hd ys # B)"
    using A B by (metis append.assoc append_Cons map_append)
  also have "\<dots> = (linked s (A @ [ring_last xs]) \<and> linked s (ring_last xs # ring_hd ys # B))"
    using linked_append [of s A "ring_last xs" "ring_hd ys # B"] by simp
  finally show ?thesis
    by (auto simp: clist_rep_def A B)
qed

lemma ring_last_notin: "distinct (xs @ ys) \<Longrightarrow> x \<in> set ys \<Longrightarrow> It x \<noteq> ring_last xs"
  by (cases xs rule: rev_cases) (auto simp: ring_last_def)

lemma rep_ins_between:
  assumes rep: "clist_rep s (xs @ ys)" and new: "item \<notin> set (xs @ ys)"
  shows "clist_rep (ins_between s (ring_last xs) (ring_hd ys) item) (xs @ item # ys)"
    (is "clist_rep ?s' _")
proof -
  from rep have d: "distinct (xs @ ys)" and l1: "linked s (Ht # map It xs)"
    and l2: "linked s (map It ys @ [Ht])"
    by (simp_all add: rep_cut)
  have L1: "linked ?s' (Ht # map It xs)"
  proof (rule linked_frame [OF l1])
    fix n assume "n \<in> set (butlast (Ht # map It xs))"
    then show "nx ?s' n = nx s n"
      using new d by (cases xs rule: rev_cases) (auto simp: ins_between_def ring_last_def)
  next
    fix n assume "n \<in> set (tl (Ht # map It xs))"
    then show "pv ?s' n = pv s n"
      using new d by (auto simp: ins_between_def ring_hd_def split: list.splits)
  qed
  have L2: "linked ?s' (map It ys @ [Ht])"
  proof (rule linked_frame [OF l2])
    fix n assume "n \<in> set (butlast (map It ys @ [Ht]))"
    then show "nx ?s' n = nx s n"
      using new by (auto simp: ins_between_def dest: ring_last_notin [OF d])
  next
    fix n assume "n \<in> set (tl (map It ys @ [Ht]))"
    then show "pv ?s' n = pv s n"
      using new d by (cases ys) (auto simp: ins_between_def ring_hd_def)
  qed
  have q: "ring_hd ys \<noteq> It item" and p: "ring_last xs \<noteq> It item"
    using new by (auto simp: ring_hd_def ring_last_def split: list.splits if_splits)
  have "linked ?s' (It item # map It ys @ [Ht])"
    using L2 q p by (cases ys) (auto simp: ins_between_def ring_hd_def)
  moreover have "ring_hd (item # ys) = It item"
    by (simp add: ring_hd_def)
  ultimately show ?thesis
    using d new L1 p q by (simp add: rep_cut) (auto simp: ins_between_def)
qed

lemma rep_del_between:
  assumes rep: "clist_rep s (xs @ item # ys)"
  shows "clist_rep (del_between s (ring_last xs) (ring_hd ys)) (xs @ ys)" (is "clist_rep ?s' _")
proof -
  from rep have d: "distinct (xs @ item # ys)" and l1: "linked s (Ht # map It xs)"
    and l2: "linked s (It item # map It ys @ [Ht])"
    by (simp_all add: rep_cut)
  then have l3: "linked s (map It ys @ [Ht])"
    by (cases ys) auto
  have L1: "linked ?s' (Ht # map It xs)"
  proof (rule linked_frame [OF l1])
    fix n assume "n \<in> set (butlast (Ht # map It xs))"
    then show "nx ?s' n = nx s n"
      using d by (cases xs rule: rev_cases) (auto simp: del_between_def ring_last_def)
  next
    fix n assume "n \<in> set (tl (Ht # map It xs))"
    then show "pv ?s' n = pv s n"
      using d by (auto simp: del_between_def ring_hd_def split: list.splits)
  qed
  have L2: "linked ?s' (map It ys @ [Ht])"
  proof (rule linked_frame [OF l3])
    fix n assume "n \<in> set (butlast (map It ys @ [Ht]))"
    then show "nx ?s' n = nx s n"
      using d by (auto simp: del_between_def dest: ring_last_notin [of xs ys, rotated])
  next
    fix n assume "n \<in> set (tl (map It ys @ [Ht]))"
    then show "pv ?s' n = pv s n"
      using d by (cases ys) (auto simp: del_between_def ring_hd_def)
  qed
  show ?thesis
    using d L1 L2 by (auto simp: rep_cut del_between_def)
qed

text \<open>The neighbours of an item of the list, read from the store.\<close>

lemma rep_nx:
  assumes "clist_rep s (xs @ i # ys)"
  shows "nx s (It i) = Some (ring_hd ys)"
proof -
  have "clist_rep s ((xs @ [i]) @ ys)" using assms by simp
  then show ?thesis unfolding rep_cut by (simp add: ring_last_def)
qed

lemma rep_pv: "clist_rep s (xs @ i # ys) \<Longrightarrow> pv s (It i) = Some (ring_last xs)"
  by (simp add: rep_cut ring_hd_def)

lemma rep_nx_Ht: "clist_rep s ys \<Longrightarrow> nx s Ht = Some (ring_hd ys)"
  using rep_cut [of s "[]" ys] by (simp add: ring_last_def)

lemma rep_pv_Ht: "clist_rep s xs \<Longrightarrow> pv s Ht = Some (ring_last xs)"
  using rep_cut [of s xs "[]"] by (simp add: ring_hd_def)

lemmas clist_defs =
  clist_insert_pre_def clist_insert_post_def clist_remove_def clist_push_def clist_pushback_def
  set_nx_def set_pv_def

section \<open>Each operation as an operation on lists\<close>

lemma clist_rep_distinct: "clist_rep s xs \<Longrightarrow> distinct xs"
  by (simp add: clist_rep_def)

lemma clist_rep_empty: "clist_rep (clist_empty s) []"
  by (simp add: clist_rep_def clist_empty_def set_nx_def set_pv_def)

lemma clist_isempty_rep: "clist_rep s xs \<Longrightarrow> clist_isempty s \<longleftrightarrow> xs = []"
  by (auto simp: clist_isempty_def rep_nx_Ht ring_hd_def split: list.splits)

lemma clist_next_rep:
  "clist_rep s (xs @ i # ys) \<Longrightarrow> clist_next s i = Some (case ys of [] \<Rightarrow> None | y # _ \<Rightarrow> Some y)"
  by (simp add: clist_next_def rep_nx clist_item_def ring_hd_def split: list.splits)

lemma clist_prev_rep:
  "clist_rep s (xs @ i # ys) \<Longrightarrow> clist_prev s i = Some (if xs = [] then None else Some (last xs))"
  by (simp add: clist_prev_def rep_pv clist_item_def ring_last_def)

lemma clist_head_rep:
  "clist_rep s xs \<Longrightarrow> clist_head s = Some (case xs of [] \<Rightarrow> None | x # _ \<Rightarrow> Some x)"
  by (simp add: clist_head_def rep_nx_Ht clist_item_def ring_hd_def split: list.splits)

lemma clist_push_rep:
  assumes "clist_rep s xs" "item \<notin> set xs"
  shows "\<exists>s'. clist_push s item = Some s' \<and> clist_rep s' (item # xs) \<and> s' = ins_between s Ht (ring_hd xs) item"
proof -
  have "clist_push s item = Some (ins_between s Ht (ring_hd xs) item)"
    using rep_nx_Ht [OF assms(1)] by (simp add: clist_defs ins_between_def)
  moreover have "clist_rep (ins_between s Ht (ring_hd xs) item) (item # xs)"
    using rep_ins_between [of s "[]" xs item] assms by (simp add: ring_last_def)
  ultimately show ?thesis by blast
qed

lemma clist_pushback_rep:
  assumes "clist_rep s xs" "item \<notin> set xs"
  shows "\<exists>s'. clist_pushback s item = Some s' \<and> clist_rep s' (xs @ [item]) \<and> s' = ins_between s (ring_last xs) Ht item"
proof -
  have "clist_pushback s item = Some (ins_between s (ring_last xs) Ht item)"
    using rep_pv_Ht [OF assms(1)] by (simp add: clist_defs ins_between_def fun_upd_twist)
  moreover have "clist_rep (ins_between s (ring_last xs) Ht item) (xs @ [item])"
    using rep_ins_between [of s xs "[]" item] assms by (simp add: ring_hd_def)
  ultimately show ?thesis by blast
qed

lemma clist_insert_post_rep:
  assumes "clist_rep s (xs @ i # ys)" "item \<notin> set (xs @ i # ys)"
  shows "\<exists>s'. clist_insert_post s i item = Some s' \<and> clist_rep s' (xs @ i # item # ys)
           \<and> s' = ins_between s (It i) (ring_hd ys) item"
proof -
  have "clist_insert_post s i item = Some (ins_between s (It i) (ring_hd ys) item)"
    using rep_nx [OF assms(1)] assms(2) by (simp add: clist_defs ins_between_def)
  moreover have "clist_rep (ins_between s (It i) (ring_hd ys) item) (xs @ i # item # ys)"
    using rep_ins_between [of s "xs @ [i]" ys item] assms by (simp add: ring_last_def)
  ultimately show ?thesis by blast
qed

lemma clist_insert_pre_rep:
  assumes "clist_rep s (xs @ i # ys)" "item \<notin> set (xs @ i # ys)"
  shows "\<exists>s'. clist_insert_pre s i item = Some s' \<and> clist_rep s' (xs @ item # i # ys)
           \<and> s' = ins_between s (ring_last xs) (It i) item"
proof -
  have "clist_insert_pre s i item = Some (ins_between s (ring_last xs) (It i) item)"
    using rep_pv [OF assms(1)] assms(2) by (auto simp: clist_defs ins_between_def)
  moreover have "clist_rep (ins_between s (ring_last xs) (It i) item) (xs @ item # i # ys)"
    using rep_ins_between [of s xs "i # ys" item] assms by (simp add: ring_hd_def)
  ultimately show ?thesis by blast
qed

lemma clist_remove_rep:
  assumes "clist_rep s (xs @ i # ys)"
  shows "\<exists>s'. clist_remove s i = Some s' \<and> clist_rep s' (xs @ ys)
           \<and> s' = del_between s (ring_last xs) (ring_hd ys)"
proof -
  have "ring_last xs \<noteq> It i" "ring_hd ys \<noteq> It i"
    using clist_rep_distinct [OF assms] last_in_set [of xs]
    by (auto simp: ring_last_def ring_hd_def split: list.splits)
  then have "clist_remove s i = Some (del_between s (ring_last xs) (ring_hd ys))"
    using rep_nx [OF assms] rep_pv [OF assms] by (simp add: clist_defs del_between_def)
  with rep_del_between [OF assms] show ?thesis by blast
qed

lemma clist_rep_orphan_set: "clist_rep s xs \<Longrightarrow> i \<notin> set xs \<Longrightarrow> clist_rep (orphan_set s i) xs"
  unfolding clist_rep_def orphan_set_def set_nx_def by (auto intro!: linked_frame [of s] dest: in_set_butlastD)

lemma orphan_chk_rep: "clist_rep s (xs @ i # ys) \<Longrightarrow> orphan_chk s i"
  by (simp add: orphan_chk_def rep_nx)

lemma orphan_other:
  shows "j \<notin> set (xs @ ys) \<Longrightarrow> j \<noteq> i \<Longrightarrow> orphan_chk (ins_between s (ring_last xs) (ring_hd ys) i) j = orphan_chk s j"
    and "j \<notin> set (xs @ ys) \<Longrightarrow> orphan_chk (del_between s (ring_last xs) (ring_hd ys)) j = orphan_chk s j"
    and "orphan_chk (orphan_set s i) j = (j \<noteq> i \<and> orphan_chk s j)"
  by (auto simp: orphan_chk_def ins_between_def del_between_def orphan_set_def set_nx_def ring_last_def ring_hd_def
      split: list.splits)

lemma clist_remove_chk_rep:
  assumes "clist_rep s (xs @ i # ys)"
  shows "\<exists>s'. clist_remove_chk s i = Some (0, s') \<and> clist_rep s' (xs @ ys)
    \<and> (\<forall>j. j \<notin> set (xs @ ys) \<longrightarrow> orphan_chk s' j = (j \<noteq> i \<and> orphan_chk s j))"
  using clist_remove_rep [OF assms] orphan_chk_rep [OF assms] clist_rep_distinct [OF assms]
    clist_rep_orphan_set [of _ "xs @ ys" i]
  by (auto simp: clist_remove_chk_def orphan_other)

lemma clist_pop_chk_rep:
  assumes "clist_rep s (i # ys)"
  shows "\<exists>s'. clist_pop_chk s = Some (s', Some i) \<and> clist_rep s' ys
    \<and> (\<forall>j. j \<notin> set ys \<longrightarrow> orphan_chk s' j = (j \<noteq> i \<and> orphan_chk s j))"
  using clist_remove_rep [of s "[]" i ys] assms clist_rep_distinct [OF assms] clist_head_rep [OF assms]
    clist_rep_orphan_set [of _ ys i] orphan_other(2) [of _ "[]" ys s]
  by (auto simp: clist_pop_chk_def orphan_other(3))

lemma clist_pop_rep:
  assumes "clist_rep s xs"
  shows "\<exists>s'. clist_pop s = Some (s', case xs of [] \<Rightarrow> None | x # _ \<Rightarrow> Some x) \<and> clist_rep s' (tl xs)"
proof (cases xs)
  case Nil
  with assms show ?thesis by (simp add: clist_pop_def clist_head_rep [OF assms])
next
  case (Cons x ys)
  with clist_remove_rep [of s "[]" x ys] assms show ?thesis
    by (auto simp: clist_pop_def clist_head_rep [OF assms])
qed

end
