(* ===== verification/Gpct_Dlist.thy ===== *)
theory Gpct_Dlist
  imports Gpct_Clist
begin

text \<open>
  The NULL terminated doubly linked list of the container templates
  (\<^verbatim>\<open>gpct/gpct/include/gpct/cont_dlist.t\<close>), which the scheduler queues use.  The entries live in the
  items, so all the lists of one kind of item share one store of \<^verbatim>\<open>next\<close> and \<^verbatim>\<open>prev\<close> fields; a list is
  a root with its \<^verbatim>\<open>head\<close> and \<^verbatim>\<open>tail\<close>.  The interface that the users of a queue rely on is the
  locale \<open>item_queue\<close>, interpreted here for this list and for the circular one.
\<close>

section \<open>Store and operations\<close>

record 'i dstore =
  dnx :: "'i \<Rightarrow> 'i option"
  dpv :: "'i \<Rightarrow> 'i option"

record 'i droot =
  head :: "'i option"
  tail :: "'i option"

type_synonym 'i dlist = "'i droot \<times> 'i dstore"

definition put_dnx :: "'i dstore \<Rightarrow> 'i \<Rightarrow> 'i option \<Rightarrow> 'i dstore" where
  "put_dnx s i v = s\<lparr>dnx := (dnx s)(i := v)\<rparr>"

definition put_dpv :: "'i dstore \<Rightarrow> 'i \<Rightarrow> 'i option \<Rightarrow> 'i dstore" where
  "put_dpv s i v = s\<lparr>dpv := (dpv s)(i := v)\<rparr>"

text \<open>The conditional targets \<^verbatim>\<open>*(prev ? &prev->next : &root->head)\<close> and its mirror.\<close>

definition put_next_or_head :: "'i dlist \<Rightarrow> 'i option \<Rightarrow> 'i option \<Rightarrow> 'i dlist" where
  "put_next_or_head q p v = (case q of (r, s) \<Rightarrow>
     (case p of None \<Rightarrow> (r\<lparr>head := v\<rparr>, s) | Some i \<Rightarrow> (r, put_dnx s i v)))"

definition put_prev_or_tail :: "'i dlist \<Rightarrow> 'i option \<Rightarrow> 'i option \<Rightarrow> 'i dlist" where
  "put_prev_or_tail q n v = (case q of (r, s) \<Rightarrow>
     (case n of None \<Rightarrow> (r\<lparr>tail := v\<rparr>, s) | Some i \<Rightarrow> (r, put_dpv s i v)))"

definition dlist_init :: "'i dstore \<Rightarrow> 'i dlist" where
  "dlist_init s = (\<lparr>head = None, tail = None\<rparr>, s)"

definition dlist_isempty :: "'i dlist \<Rightarrow> bool" where
  "dlist_isempty q \<longleftrightarrow> head (fst q) = None"

definition dlist_remove :: "'i dlist \<Rightarrow> 'i \<Rightarrow> 'i dlist" where
  "dlist_remove q entry =
     (let nxt = dnx (snd q) entry; prv = dpv (snd q) entry;
          q = put_next_or_head q prv nxt
      in put_prev_or_tail q nxt prv)"

definition dlist_push :: "'i dlist \<Rightarrow> 'i \<Rightarrow> 'i dlist" where
  "dlist_push q item =
     (let hd0 = head (fst q);
          q = (fst q, put_dnx (put_dpv (snd q) item None) item hd0);
          q = put_prev_or_tail q hd0 (Some item)
      in ((fst q)\<lparr>head := Some item\<rparr>, snd q))"

definition dlist_pushback :: "'i dlist \<Rightarrow> 'i \<Rightarrow> 'i dlist" where
  "dlist_pushback q item =
     (let tl0 = tail (fst q);
          q = (fst q, put_dpv (put_dnx (snd q) item None) item tl0);
          q = put_next_or_head q tl0 (Some item)
      in ((fst q)\<lparr>tail := Some item\<rparr>, snd q))"

definition dlist_pop :: "'i dlist \<Rightarrow> 'i dlist \<times> 'i option" where
  "dlist_pop q = (case head (fst q) of None \<Rightarrow> (q, None) | Some i \<Rightarrow> (dlist_remove q i, Some i))"

section \<open>The list a root represents\<close>

fun opt_hd :: "'i list \<Rightarrow> 'i option" where
  "opt_hd [] = None"
| "opt_hd (x # _) = Some x"

definition opt_last :: "'i list \<Rightarrow> 'i option" where
  "opt_last xs = (if xs = [] then None else Some (last xs))"

text \<open>\<open>dchain s p xs n\<close>: the items \<open>xs\<close> are chained, with \<open>p\<close> before the first and \<open>n\<close> after the last.\<close>

fun dchain :: "'i dstore \<Rightarrow> 'i option \<Rightarrow> 'i list \<Rightarrow> 'i option \<Rightarrow> bool" where
  "dchain s p [] n \<longleftrightarrow> True"
| "dchain s p (x # xs) n \<longleftrightarrow>
     dpv s x = p \<and> dnx s x = (case xs of [] \<Rightarrow> n | y # _ \<Rightarrow> Some y) \<and> dchain s (Some x) xs n"

definition dlist_rep :: "'i dlist \<Rightarrow> 'i list \<Rightarrow> bool" where
  "dlist_rep q xs \<longleftrightarrow> distinct xs \<and> head (fst q) = opt_hd xs \<and> tail (fst q) = opt_last xs
     \<and> dchain (snd q) None xs None"

section \<open>Lemmas\<close>

lemmas dlist_defs = put_dnx_def put_dpv_def put_next_or_head_def put_prev_or_tail_def

lemma opt_last_simps [simp]:
  "opt_last [] = None" "opt_last (xs @ [x]) = Some x" "opt_last [x] = Some x"
  "opt_last (x # y # ys) = opt_last (y # ys)"
  by (simp_all add: opt_last_def)

lemma opt_hd_append: "opt_hd (xs @ ys) = (if xs = [] then opt_hd ys else opt_hd xs)"
  by (cases xs) auto

lemma dchain_append:
  "dchain s p (xs @ ys) n \<longleftrightarrow>
     dchain s p xs (if ys = [] then n else opt_hd ys)
     \<and> dchain s (if xs = [] then p else opt_last xs) ys n"
proof (induction xs arbitrary: p)
  case Nil
  then show ?case by simp
next
  case (Cons x xs)
  then show ?case
    by (cases xs; cases ys) (auto simp: opt_last_def)
qed

lemma dchain_frame:
  "(\<And>i. i \<in> set xs \<Longrightarrow> dnx s' i = dnx s i \<and> dpv s' i = dpv s i) \<Longrightarrow> dchain s' p xs n = dchain s p xs n"
  by (induction xs arbitrary: p) auto

lemma dlist_rep_distinct: "dlist_rep q xs \<Longrightarrow> distinct xs"
  by (simp add: dlist_rep_def)

lemma dlist_init_rep: "dlist_rep (dlist_init s) []"
  by (simp add: dlist_rep_def dlist_init_def)

lemma dlist_isempty_rep: "dlist_rep q xs \<Longrightarrow> dlist_isempty q \<longleftrightarrow> xs = []"
  by (cases xs) (auto simp: dlist_rep_def dlist_isempty_def)

text \<open>An operation writes only the entries of its item and of its list's items.\<close>

lemma dlist_pushback_frame:
  "tail (fst q) \<noteq> Some i \<Longrightarrow> i \<noteq> item \<Longrightarrow>
     dnx (snd (dlist_pushback q item)) i = dnx (snd q) i \<and> dpv (snd (dlist_pushback q item)) i = dpv (snd q) i"
  by (auto simp: dlist_pushback_def dlist_defs Let_def split: prod.splits option.splits)

lemma dlist_remove_frame:
  assumes "dnx (snd q) item \<noteq> Some i" "dpv (snd q) item \<noteq> Some i"
  shows "dnx (snd (dlist_remove q item)) i = dnx (snd q) i \<and> dpv (snd (dlist_remove q item)) i = dpv (snd q) i"
  using assms by (auto simp: dlist_remove_def dlist_defs Let_def split: prod.splits option.splits)

lemma dlist_pushback_rep:
  assumes rep: "dlist_rep q xs" and new: "item \<notin> set xs"
  shows "dlist_rep (dlist_pushback q item) (xs @ [item])"
proof (cases xs rule: rev_cases)
  case Nil
  with rep show ?thesis
    by (cases q) (auto simp: dlist_rep_def dlist_pushback_def dlist_defs)
next
  case (snoc ys y)
  obtain r s where q: "q = (r, s)" by (cases q)
  let ?s' = "(put_dpv (put_dnx s item None) item (Some y))\<lparr>dnx := (dnx s)(item := None, y := Some item)\<rparr>"
  have eq: "dlist_pushback (r, s) item = (r\<lparr>tail := Some item\<rparr>, ?s')"
    using rep snoc new by (auto simp: q dlist_rep_def dlist_pushback_def dlist_defs Let_def)
  have fr: "dchain ?s' None ys (Some y) = dchain s None ys (Some y)"
    using rep snoc new by (intro dchain_frame) (auto simp: dlist_rep_def put_dpv_def put_dnx_def)
  have "dchain ?s' None (ys @ [y, item]) None"
    using rep snoc new fr by (auto simp: q dlist_rep_def dchain_append put_dpv_def put_dnx_def)
  then show ?thesis
    using rep snoc new unfolding q eq
    by (auto simp: dlist_rep_def opt_hd_append) (simp add: opt_last_def)
qed

lemma dlist_remove_rep:
  assumes rep: "dlist_rep q (xs @ i # ys)"
  shows "dlist_rep (dlist_remove q i) (xs @ ys)"
proof -
  obtain r s where q: "q = (r, s)" by (cases q)
  from rep have d: "distinct (xs @ i # ys)" and c: "dchain s None xs (Some i)"
    and i: "dpv s i = opt_last xs" "dnx s i = opt_hd ys" and c2: "dchain s (Some i) ys None"
    by (auto simp: q dlist_rep_def dchain_append opt_last_def split: list.splits)
  define s1 where "s1 = (case opt_last xs of None \<Rightarrow> s | Some p \<Rightarrow> put_dnx s p (opt_hd ys))"
  define s2 where "s2 = (case opt_hd ys of None \<Rightarrow> s1 | Some n \<Rightarrow> put_dpv s1 n (opt_last xs))"
  have st: "snd (dlist_remove q i) = s2"
    using i by (auto simp: q dlist_remove_def dlist_defs s1_def s2_def Let_def split: option.splits)
  have hd: "head (fst (dlist_remove q i)) = opt_hd (xs @ ys)"
    using i rep by (cases xs rule: rev_cases)
      (auto simp: q dlist_rep_def dlist_remove_def dlist_defs Let_def opt_hd_append split: option.splits)
  have tl: "tail (fst (dlist_remove q i)) = opt_last (xs @ ys)"
    using i rep by (cases ys; cases xs rule: rev_cases)
      (auto simp: q dlist_rep_def dlist_remove_def dlist_defs Let_def opt_last_def split: option.splits)
  have "dchain s2 None xs (opt_hd ys)"
  proof (cases xs rule: rev_cases)
    case Nil
    then show ?thesis by simp
  next
    case (snoc zs z)
    have z: "dnx s2 z = opt_hd ys" "dpv s2 z = opt_last zs"
      using d c snoc
      by (cases ys; auto simp: s1_def s2_def put_dnx_def put_dpv_def dchain_append)+
    have "dchain s2 None zs (Some z) = dchain s None zs (Some z)"
      using d snoc by (intro dchain_frame)
        (cases ys; auto simp: s1_def s2_def put_dnx_def put_dpv_def)
    with z c snoc show ?thesis
      by (cases zs rule: rev_cases) (auto simp: dchain_append)
  qed
  moreover have "dchain s2 (opt_last xs) ys None"
  proof (cases ys)
    case Nil
    then show ?thesis by simp
  next
    case (Cons y zs)
    have "dpv s2 y = opt_last xs" "dnx s2 y = dnx s y"
      using d Cons by (cases xs rule: rev_cases; auto simp: s1_def s2_def put_dnx_def put_dpv_def)+
    moreover have "dchain s2 (Some y) zs None = dchain s (Some y) zs None"
      using d Cons by (intro dchain_frame)
        (cases xs rule: rev_cases; auto simp: s1_def s2_def put_dnx_def put_dpv_def)
    ultimately show ?thesis
      using c2 Cons by simp
  qed
  ultimately have "dchain s2 None (xs @ ys) None"
    by (cases ys; cases xs rule: rev_cases) (auto simp: dchain_append)
  with hd tl st d show ?thesis
    by (simp add: dlist_rep_def)
qed

lemma dlist_pop_rep:
  assumes "dlist_rep q xs"
  shows "snd (dlist_pop q) = opt_hd xs \<and> dlist_rep (fst (dlist_pop q)) (tl xs)"
proof (cases xs)
  case Nil
  with assms show ?thesis by (simp add: dlist_rep_def dlist_pop_def)
next
  case (Cons x ys)
  have "dlist_rep (dlist_remove q x) ys"
    using dlist_remove_rep [of q "[]" x ys] assms Cons by simp
  with assms Cons show ?thesis by (simp add: dlist_rep_def dlist_pop_def)
qed

section \<open>The queue interface\<close>

text \<open>
  What the users of a queue rely on: \<open>rep\<close> is the list of items it holds, an item is pushed
  only while it is in no position of the list, and pop takes the oldest one.
\<close>

locale item_queue =
  fixes rep :: "'q \<Rightarrow> 'i list \<Rightarrow> bool"
    and pushback :: "'q \<Rightarrow> 'i \<Rightarrow> 'q option"
    and pop :: "'q \<Rightarrow> ('q \<times> 'i option) option"
    and isempty :: "'q \<Rightarrow> bool"
  assumes queue_distinct: "rep q xs \<Longrightarrow> distinct xs"
    and queue_pushback: "rep q xs \<Longrightarrow> i \<notin> set xs \<Longrightarrow> \<exists>q'. pushback q i = Some q' \<and> rep q' (xs @ [i])"
    and queue_pop: "rep q xs \<Longrightarrow> \<exists>q'. pop q = Some (q', opt_hd xs) \<and> rep q' (tl xs)"
    and queue_isempty: "rep q xs \<Longrightarrow> isempty q \<longleftrightarrow> xs = []"

text \<open>Pushing a sequence of items, and popping until the queue is empty (at most \<open>n\<close> times).\<close>

fun push_all :: "('q \<Rightarrow> 'i \<Rightarrow> 'q option) \<Rightarrow> 'q \<Rightarrow> 'i list \<Rightarrow> 'q option" where
  "push_all pb q [] = Some q"
| "push_all pb q (i # is) = (case pb q i of None \<Rightarrow> None | Some q' \<Rightarrow> push_all pb q' is)"

fun pop_all :: "('q \<Rightarrow> ('q \<times> 'i option) option) \<Rightarrow> nat \<Rightarrow> 'q \<Rightarrow> 'i list option" where
  "pop_all pp 0 q = Some []"
| "pop_all pp (Suc n) q = (case pp q of None \<Rightarrow> None
     | Some (q', None) \<Rightarrow> Some []
     | Some (q', Some i) \<Rightarrow> map_option ((#) i) (pop_all pp n q'))"

context item_queue
begin

lemma push_all_rep:
  "rep q xs \<Longrightarrow> distinct (xs @ is) \<Longrightarrow> \<exists>q'. push_all pushback q is = Some q' \<and> rep q' (xs @ is)"
proof (induction "is" arbitrary: q xs)
  case Nil
  then show ?case by simp
next
  case (Cons i "is")
  obtain q1 where q1: "pushback q i = Some q1" "rep q1 (xs @ [i])"
    using queue_pushback [OF Cons.prems(1)] Cons.prems(2) by auto
  obtain q' where "push_all pushback q1 is = Some q'" "rep q' ((xs @ [i]) @ is)"
    using Cons.IH [OF q1(2)] Cons.prems(2) by auto
  with q1 show ?case by simp
qed

lemma pop_all_rep: "rep q xs \<Longrightarrow> length xs \<le> n \<Longrightarrow> pop_all pop n q = Some xs"
proof (induction n arbitrary: q xs)
  case 0
  then show ?case by simp
next
  case (Suc n)
  obtain q' where q': "pop q = Some (q', opt_hd xs)" "rep q' (tl xs)"
    using queue_pop [OF Suc.prems(1)] by blast
  have "pop_all pop n q' = Some (tl xs)"
    using Suc.IH [OF q'(2)] Suc.prems(2) by simp
  with q' show ?case by (cases xs) auto
qed

lemma fifo:
  assumes "rep q []" "distinct is" "length is \<le> n"
  shows "Option.bind (push_all pushback q is) (pop_all pop n) = Some is"
proof -
  obtain q' where "push_all pushback q is = Some q'" "rep q' is"
    using push_all_rep [OF assms(1)] assms(2) by auto
  with pop_all_rep [of q' "is" n] assms(3) show ?thesis by simp
qed

end

interpretation dq: item_queue dlist_rep
  "\<lambda>q i. Some (dlist_pushback q i)" "\<lambda>q. Some (dlist_pop q)" dlist_isempty
proof unfold_locales
  fix q :: "'a dlist" and xs
  assume rep: "dlist_rep q xs"
  show "distinct xs" by (rule dlist_rep_distinct [OF rep])
  show "dlist_isempty q \<longleftrightarrow> xs = []" by (rule dlist_isempty_rep [OF rep])
  show "\<exists>q'. Some (dlist_pop q) = Some (q', opt_hd xs) \<and> dlist_rep q' (tl xs)"
    using dlist_pop_rep [OF rep] by (metis prod.collapse)
  show "\<exists>q'. Some (dlist_pushback q i) = Some q' \<and> dlist_rep q' (xs @ [i])" if "i \<notin> set xs" for i
    using dlist_pushback_rep [OF rep that] by blast
qed

interpretation cq: item_queue clist_rep clist_pushback clist_pop clist_isempty
proof unfold_locales
  fix q :: "'a clist_store" and xs
  assume rep: "clist_rep q xs"
  show "distinct xs" by (rule clist_rep_distinct [OF rep])
  show "clist_isempty q \<longleftrightarrow> xs = []" by (rule clist_isempty_rep [OF rep])
  show "\<exists>q'. clist_pop q = Some (q', opt_hd xs) \<and> clist_rep q' (tl xs)"
    using clist_pop_rep [OF rep] by (cases xs) auto
  show "\<exists>q'. clist_pushback q i = Some q' \<and> clist_rep q' (xs @ [i])" if "i \<notin> set xs" for i
    using clist_pushback_rep [OF rep that] by blast
qed

section \<open>Properties\<close>

text \<open>
  C32: both intrusive lists of the kernel are first-in first-out: distinct items pushed back one by one
  onto an empty list, whatever the link fields hold before, come out of the pops in the order they
  went in, without any dereference of a null pointer.
\<close>

theorem gpct_fifo:
  assumes "distinct is" "length is \<le> n"
  shows "Option.bind (push_all (\<lambda>q i. Some (dlist_pushback q i)) (dlist_init d) is)
       (pop_all (\<lambda>q. Some (dlist_pop q)) n) = Some is
     \<and> Option.bind (push_all clist_pushback (clist_empty c) is) (pop_all clist_pop n) = Some is"
  using dq.fifo [OF dlist_init_rep assms] cq.fifo [OF clist_rep_empty assms] by simp

theorem gpct_fifo_witness:
  "Option.bind (push_all clist_pushback (clist_empty \<lparr>nx = \<lambda>_. None, pv = \<lambda>_. None\<rparr>) [3, 1, 2 :: nat])
     (pop_all clist_pop 5) = Some [3, 1, 2]"
  using gpct_fifo [of "[3, 1, 2 :: nat]" 5 _ "\<lparr>nx = \<lambda>_. None, pv = \<lambda>_. None\<rparr>"] by simp

end
