(* ===== verification/Page_Alloc.thy ===== *)
theory Page_Alloc
  imports Endian "HOL-Library.Monad_Syntax"
begin

text \<open>
  \<^verbatim>\<open>mutek/page_alloc.c\<close> and \<^verbatim>\<open>mutek/include/mutek/page_alloc.h\<close>: the physical page allocator.  A region
  holds a table with one word per page: the top bit marks a free page, the other bits hold the
  index of the next free page or the reference count.  An access outside the table, a failed
  assertion and a lock that is taken while it is already held give \<open>None\<close>.
\<close>

section \<open>State\<close>

text \<open>\<^verbatim>\<open>MMU_PAGESIZE\<close>: the page size that the architectures configure.\<close>

definition MMU_PAGESIZE :: u32 where "MMU_PAGESIZE = 2 ^ 12"

definition VMEM_PPAGE_ISFREE :: "u32 \<Rightarrow> bool" where
  "VMEM_PPAGE_ISFREE x \<longleftrightarrow> x AND 0x80000000 \<noteq> 0"

definition VMEM_PPAGE_VALUE :: "u32 \<Rightarrow> u32" where
  "VMEM_PPAGE_VALUE x = x AND 0x7fffffff"

definition VMEM_PPAGE_SET :: "u32 \<Rightarrow> u32 \<Rightarrow> u32" where
  "VMEM_PPAGE_SET isfree v = push_bit 31 isfree OR v"

record vmem_page_region_s =
  paddr :: u32
  size :: u32
  count :: u32
  free_count :: u32
  free_head :: u32
  table :: "u32 list"
  lock :: bool

section \<open>Operations\<close>

definition lock_spin :: "vmem_page_region_s \<Rightarrow> vmem_page_region_s option" where
  "lock_spin r = (if lock r then None else Some (r\<lparr>lock := True\<rparr>))"

definition lock_release :: "vmem_page_region_s \<Rightarrow> vmem_page_region_s" where
  "lock_release r = r\<lparr>lock := False\<rparr>"

definition table_get :: "vmem_page_region_s \<Rightarrow> u32 \<Rightarrow> u32 option" where
  "table_get r i = (if unat i < length (table r) then Some (table r ! unat i) else None)"

definition table_set :: "vmem_page_region_s \<Rightarrow> u32 \<Rightarrow> u32 \<Rightarrow> vmem_page_region_s option" where
  "table_set r i v = (if unat i < length (table r)
     then Some (r\<lparr>table := (table r)[unat i := v]\<rparr>) else None)"

text \<open>
  \<open>lock_ok\<close> and \<open>alloc_ok\<close> say whether \<^verbatim>\<open>lock_init\<close> and \<^verbatim>\<open>mem_alloc\<close> succeed; the error result carries no
  region.
\<close>

definition ppage_region_init ::
    "bool \<Rightarrow> bool \<Rightarrow> u32 \<Rightarrow> u32 \<Rightarrow> (error_t \<times> vmem_page_region_s option) option" where
  "ppage_region_init lock_ok alloc_ok pa pa_end =
     (let pa = ALIGN_VALUE_UP pa MMU_PAGESIZE;
          pa_end = ALIGN_VALUE_LOW pa_end MMU_PAGESIZE
      in if \<not> pa_end > pa then None
         else if \<not> lock_ok then Some (- ENOMEM, None)
         else
           let sz = pa_end - pa; n = sz div MMU_PAGESIZE
           in if \<not> alloc_ok then Some (- ENOMEM, None)
              else
                let t = map (\<lambda>i. VMEM_PPAGE_SET 1 (of_nat i + 1)) [0..<unat n];
                    t = t[unat (n - 1) := VMEM_PPAGE_SET 1 0]
                in Some (0, Some \<lparr>paddr = pa, size = sz, count = n, free_count = n, free_head = 0,
                                   table = t, lock = False\<rparr>))"

definition ppage_alloc :: "vmem_page_region_s \<Rightarrow> (error_t \<times> u32 option \<times> vmem_page_region_s) option" where
  "ppage_alloc r = do {
     r \<leftarrow> lock_spin r;
     if free_count r > 0 then do {
       t \<leftarrow> table_get r (free_head r);
       let pa = paddr r + free_head r * MMU_PAGESIZE;
       let i = free_head r;
       let r = r\<lparr>free_head := VMEM_PPAGE_VALUE t\<rparr>;
       r \<leftarrow> table_set r i (VMEM_PPAGE_SET 0 1);
       let r = r\<lparr>free_count := free_count r - 1\<rparr>;
       Some (0, Some pa, lock_release r)
     }
     else Some (- ENOMEM, None, lock_release r)
   }"

text \<open>The pointer \<^verbatim>\<open>n\<close> of the unlinking loops: \<^verbatim>\<open>&r->free_head\<close> or \<^verbatim>\<open>&r->table[i]\<close>.\<close>

datatype link_ptr = FreeHead | Entry u32

definition link_load :: "vmem_page_region_s \<Rightarrow> link_ptr \<Rightarrow> u32 option" where
  "link_load r n = (case n of FreeHead \<Rightarrow> Some (free_head r) | Entry i \<Rightarrow> table_get r i)"

definition link_store :: "vmem_page_region_s \<Rightarrow> link_ptr \<Rightarrow> u32 \<Rightarrow> vmem_page_region_s option" where
  "link_store r n v = (case n of FreeHead \<Rightarrow> Some (r\<lparr>free_head := v\<rparr>) | Entry i \<Rightarrow> table_set r i v)"

text \<open>
  The loop that removes the pages \<open>[first, first + sz)\<close> from the free list, shared by
  \<^verbatim>\<open>ppage_contiguous_alloc\<close> and \<^verbatim>\<open>ppage_reserve\<close>.
\<close>

partial_function (option) unlink_loop ::
    "vmem_page_region_s \<Rightarrow> link_ptr \<Rightarrow> u32 \<Rightarrow> u32 \<Rightarrow> u32 \<Rightarrow> vmem_page_region_s option" where
  "unlink_loop r n first sz c =
     (if c < sz then do {
        v \<leftarrow> link_load r n;
        let i = VMEM_PPAGE_VALUE v;
        if i \<ge> first \<and> i < first + sz then do {
          t \<leftarrow> table_get r i;
          r \<leftarrow> link_store r n (VMEM_PPAGE_VALUE t);
          r \<leftarrow> table_set r i (VMEM_PPAGE_SET 0 1);
          unlink_loop r n first sz (c + 1)
        }
        else unlink_loop r (Entry i) first sz c
      }
      else Some r)"

text \<open>
  The search loop of \<^verbatim>\<open>ppage_contiguous_alloc\<close>: \<open>Some (Some first)\<close> when a run of free pages is found,
  \<open>Some None\<close> at the \<^verbatim>\<open>goto err\<close>.
\<close>

partial_function (option) search_loop ::
    "vmem_page_region_s \<Rightarrow> u32 \<Rightarrow> u32 \<Rightarrow> u32 \<Rightarrow> u32 option option" where
  "search_loop r sz first i =
     (if i < first + sz then do {
        t \<leftarrow> table_get r i;
        if \<not> VMEM_PPAGE_ISFREE t then
          (if i + sz > count r then Some None
           else search_loop r sz (i + 1) (i + 1))
        else search_loop r sz first (i + 1)
      }
      else Some (Some first))"

definition ppage_contiguous_alloc ::
    "vmem_page_region_s \<Rightarrow> u32 \<Rightarrow> (error_t \<times> u32 option \<times> vmem_page_region_s) option" where
  "ppage_contiguous_alloc r sz =
     (if sz > free_count r then Some (- ENOMEM, None, r)
      else do {
        r \<leftarrow> lock_spin r;
        found \<leftarrow> search_loop r sz 0 0;
        case found of
          None \<Rightarrow> Some (- ENOMEM, None, r)
        | Some first \<Rightarrow> do {
            r \<leftarrow> unlink_loop r FreeHead first sz 0;
            let r = lock_release (r\<lparr>free_count := free_count r - sz\<rparr>);
            Some (0, Some (paddr r + first * MMU_PAGESIZE), r)
          }
      })"

definition ppage_inrange :: "vmem_page_region_s \<Rightarrow> u32 \<Rightarrow> bool" where
  "ppage_inrange r pa \<longleftrightarrow> pa \<ge> paddr r \<and> pa < paddr r + size r"

text \<open>The check loop of \<^verbatim>\<open>ppage_reserve\<close>: whether every page of the range is free.\<close>

partial_function (option) reserve_check :: "vmem_page_region_s \<Rightarrow> u32 \<Rightarrow> u32 \<Rightarrow> bool option" where
  "reserve_check r i lim =
     (if i < lim then do {
        t \<leftarrow> table_get r i;
        if \<not> VMEM_PPAGE_ISFREE t then Some False else reserve_check r (i + 1) lim
      }
      else Some True)"

definition ppage_reserve ::
    "vmem_page_region_s \<Rightarrow> u32 \<Rightarrow> u32 \<Rightarrow> (error_t \<times> vmem_page_region_s) option" where
  "ppage_reserve r pa pa_end =
     (let pa = ALIGN_VALUE_UP pa MMU_PAGESIZE;
          pa_end = ALIGN_VALUE_LOW pa_end MMU_PAGESIZE
      in if \<not> pa_end > pa then None
         else do {
           let sz = (pa_end - pa) div MMU_PAGESIZE;
           r \<leftarrow> lock_spin r;
           let p = (pa - paddr r) div MMU_PAGESIZE;
           ok \<leftarrow> reserve_check r p (p + sz);
           if ok then do {
             r \<leftarrow> unlink_loop r FreeHead p sz 0;
             Some (0, lock_release (r\<lparr>free_count := free_count r - sz\<rparr>))
           }
           else Some (- ENOMEM, lock_release r)
         })"

definition ppage_refnew :: "vmem_page_region_s \<Rightarrow> u32 \<Rightarrow> (u32 \<times> vmem_page_region_s) option" where
  "ppage_refnew r pa =
     (if \<not> ppage_inrange r pa then None
      else do {
        let p = (pa - paddr r) div MMU_PAGESIZE;
        r \<leftarrow> lock_spin r;
        t \<leftarrow> table_get r p;
        if VMEM_PPAGE_ISFREE t then None
        else do {
          r \<leftarrow> table_set r p (t + 1);
          Some (pa, lock_release r)
        }
      })"

definition ppage_refdrop :: "vmem_page_region_s \<Rightarrow> u32 \<Rightarrow> vmem_page_region_s option" where
  "ppage_refdrop r pa =
     (if \<not> ppage_inrange r pa then None
      else do {
        let p = (pa - paddr r) div MMU_PAGESIZE;
        r \<leftarrow> lock_spin r;
        t \<leftarrow> table_get r p;
        if VMEM_PPAGE_ISFREE t \<or> \<not> t > 0 then None
        else do {
          r \<leftarrow> table_set r p (t - 1);
          if t - 1 = 0 then do {
            r \<leftarrow> table_set r p (VMEM_PPAGE_SET 1 (free_head r));
            Some (lock_release (r\<lparr>free_head := p, free_count := free_count r + 1\<rparr>))
          }
          else Some (lock_release r)
        }
      })"

section \<open>Invariant and abstraction\<close>

text \<open>\<open>free_chain t h is\<close>: following the next indices of the table from \<open>h\<close> visits the pages \<open>is\<close>.\<close>

fun free_chain :: "u32 list \<Rightarrow> u32 \<Rightarrow> nat list \<Rightarrow> bool" where
  "free_chain t h [] \<longleftrightarrow> True"
| "free_chain t h (i # is) \<longleftrightarrow> unat h = i \<and> i < length t \<and> free_chain t (VMEM_PPAGE_VALUE (t ! i)) is"

definition chain_inv :: "vmem_page_region_s \<Rightarrow> nat list \<Rightarrow> bool" where
  "chain_inv r fl \<longleftrightarrow> length (table r) = unat (count r) \<and> unat (size r) = unat (count r) * 4096
     \<and> unat (paddr r) + unat (size r) < 2 ^ 32 \<and> 4096 dvd unat (paddr r)
     \<and> distinct fl \<and> length fl = unat (free_count r) \<and> free_chain (table r) (free_head r) fl"

definition flag_inv :: "vmem_page_region_s \<Rightarrow> nat list \<Rightarrow> bool" where
  "flag_inv r fl \<longleftrightarrow> (\<forall>i < length (table r). (VMEM_PPAGE_ISFREE (table r ! i) \<longleftrightarrow> i \<in> set fl)
     \<and> (i \<notin> set fl \<longrightarrow> 0 < table r ! i))"

definition page_inv :: "vmem_page_region_s \<Rightarrow> nat list \<Rightarrow> bool" where
  "page_inv r fl \<longleftrightarrow> chain_inv r fl \<and> flag_inv r fl \<and> \<not> lock r"

text \<open>The abstract state: how many references each page has, 0 for a free page.\<close>

definition page_refs :: "vmem_page_region_s \<Rightarrow> nat \<Rightarrow> nat" where
  "page_refs r i = (if VMEM_PPAGE_ISFREE (table r ! i) then 0 else unat (table r ! i))"

text \<open>The address of a page, and the pages of a range.\<close>

definition page_addr :: "vmem_page_region_s \<Rightarrow> nat \<Rightarrow> u32" where
  "page_addr r i = paddr r + of_nat i * MMU_PAGESIZE"

section \<open>Lemmas\<close>

subsection \<open>Table words\<close>

lemma ISFREE_bit: "VMEM_PPAGE_ISFREE x \<longleftrightarrow> bit x 31"
  using and_exp_eq_0_iff_not_bit [of x 31] by (simp add: VMEM_PPAGE_ISFREE_def)

lemma VALUE_take_bit: "VMEM_PPAGE_VALUE x = take_bit 31 x"
  by (simp add: VMEM_PPAGE_VALUE_def take_bit_eq_mask mask_eq_exp_minus_1)

lemma bit31_iff: "bit (x :: u32) 31 \<longleftrightarrow> 2 ^ 31 \<le> unat x"
proof -
  have "bit x 31 \<longleftrightarrow> bit (unat x) 31"
    by transfer (simp add: bit_simps bit_nat_iff)
  also have "\<dots> \<longleftrightarrow> odd (unat x div 2 ^ 31)"
    by (simp add: bit_iff_odd)
  also have "\<dots> \<longleftrightarrow> 2 ^ 31 \<le> unat x"
  proof (cases "unat x < 2 ^ 31")
    case False
    then have "unat x div 2 ^ 31 = 1"
      using u32_unat_bound [of x] by (intro div_nat_eqI) simp_all
    with False show ?thesis
      by simp
  qed simp
  finally show ?thesis .
qed

lemma not_free_less: "\<not> VMEM_PPAGE_ISFREE x \<longleftrightarrow> unat x < 2 ^ 31"
  by (simp add: ISFREE_bit bit31_iff not_le)

lemma SET_1 [simp]: "VMEM_PPAGE_ISFREE (VMEM_PPAGE_SET 1 v)"
  by (simp add: ISFREE_bit VMEM_PPAGE_SET_def bit_simps)

lemma SET_0 [simp]: "VMEM_PPAGE_SET 0 v = v"
  by (simp add: VMEM_PPAGE_SET_def)

lemma VALUE_SET_1: "unat v < 2 ^ 31 \<Longrightarrow> VMEM_PPAGE_VALUE (VMEM_PPAGE_SET 1 v) = v"
proof -
  assume v: "unat v < 2 ^ 31"
  have "\<not> bit v n" if "\<not> n < 31" for n
    using that v bit31_iff [of v] bit_imp_le_length [of v n] by (cases "n = 31") auto
  then show ?thesis
    by (auto simp: VALUE_take_bit VMEM_PPAGE_SET_def bit_eq_iff bit_simps)
qed

lemma VALUE_small: "unat v < 2 ^ 31 \<Longrightarrow> VMEM_PPAGE_VALUE v = v"
proof -
  assume v: "unat v < 2 ^ 31"
  have "\<not> bit v n" if "\<not> n < 31" for n
    using that v bit31_iff [of v] bit_imp_le_length [of v n] by (cases "n = 31") auto
  then show ?thesis
    by (auto simp: VALUE_take_bit bit_eq_iff bit_simps)
qed

lemma VALUE_VALUE [simp]: "VMEM_PPAGE_VALUE (VMEM_PPAGE_VALUE x) = VMEM_PPAGE_VALUE x"
  by (simp add: VALUE_take_bit)

lemma ISFREE_one [simp]: "\<not> VMEM_PPAGE_ISFREE 1"
  by (simp add: not_free_less)

subsection \<open>Chains\<close>

lemma free_chain_upd: "i \<notin> set is \<Longrightarrow> free_chain (t[i := v]) h is = free_chain t h is"
  by (induction "is" arbitrary: h) auto

lemma free_chain_bound: "free_chain t h is \<Longrightarrow> i \<in> set is \<Longrightarrow> i < length t"
  by (induction "is" arbitrary: h) auto

lemma free_chain_append:
  "free_chain t h (xs @ ys) \<longleftrightarrow> free_chain t h xs
     \<and> free_chain t (if xs = [] then h else VMEM_PPAGE_VALUE (t ! last xs)) ys"
  by (induction xs arbitrary: h) auto

lemma chain_inv_count: "chain_inv r fl \<Longrightarrow> unat (count r) < 2 ^ 20"
  by (auto simp: chain_inv_def)

lemma chain_inv_bound: "chain_inv r fl \<Longrightarrow> i \<in> set fl \<Longrightarrow> i < length (table r)"
  unfolding chain_inv_def by (blast intro: free_chain_bound)

lemma chain_inv_length: "chain_inv r fl \<Longrightarrow> length fl \<le> length (table r)"
proof -
  assume a: "chain_inv r fl"
  then have "card (set fl) \<le> card {..<length (table r)}"
    by (intro card_mono) (auto dest: chain_inv_bound)
  with a show ?thesis
    by (simp add: chain_inv_def distinct_card)
qed

lemma chain_free_count: "chain_inv r fl \<Longrightarrow> free_count r > 0 \<longleftrightarrow> fl \<noteq> []"
  by (cases fl) (auto simp: chain_inv_def word_gt_0 unat_eq_zero simp flip: unat_gt_0)

text \<open>The page index the code computes from an address.\<close>

lemma unat_PAGESIZE [simp]: "unat MMU_PAGESIZE = 4096"
  by (simp add: MMU_PAGESIZE_def)

lemma unat_of_nat_page:
  assumes "chain_inv r fl" "i \<le> length (table r)"
  shows "unat (of_nat i :: u32) = i" "unat (of_nat i * MMU_PAGESIZE) = i * 4096"
    "unat (page_addr r i) = unat (paddr r) + i * 4096"
proof -
  have i: "i * 4096 \<le> unat (size r)" "unat (paddr r) + unat (size r) < 4294967296"
    using assms by (auto simp: chain_inv_def)
  then show 1: "unat (of_nat i :: u32) = i"
    by (simp add: unat_of_nat)
  then show 2: "unat (of_nat i * MMU_PAGESIZE) = i * 4096"
    using i by (simp add: unat_word_ariths)
  show "unat (page_addr r i) = unat (paddr r) + i * 4096"
    unfolding page_addr_def using i 2 by (subst unat_add_small) simp_all
qed

lemma page_index:
  assumes "chain_inv r fl" "i < length (table r)"
  shows "ppage_inrange r (page_addr r i)" "unat ((page_addr r i - paddr r) div MMU_PAGESIZE) = i"
proof -
  note u = unat_of_nat_page [OF assms(1) less_imp_le [OF assms(2)]]
  have i: "i * 4096 + 4096 \<le> unat (size r)" "unat (paddr r) + unat (size r) < 4294967296"
    using assms by (auto simp: chain_inv_def)
  show "ppage_inrange r (page_addr r i)"
    using u(3) i by (simp add: ppage_inrange_def word_le_nat_alt word_less_nat_alt unat_add_small)
  have "unat (page_addr r i - paddr r) = i * 4096"
    using u(2) by (simp add: page_addr_def)
  then show "unat ((page_addr r i - paddr r) div MMU_PAGESIZE) = i"
    by (simp add: unat_div)
qed

subsection \<open>Operations on the invariant\<close>

lemma page_inv_alloc:
  assumes inv: "page_inv r (i # fl)"
  shows "\<exists>r'. ppage_alloc r = Some (0, Some (page_addr r i), r') \<and> page_inv r' fl
     \<and> page_refs r' = (page_refs r)(i := 1)"
proof -
  have ch: "chain_inv r (i # fl)" and fl: "flag_inv r (i # fl)" and nl: "\<not> lock r"
    using inv by (auto simp: page_inv_def)
  have h: "unat (free_head r) = i" and i: "i < length (table r)" and pos: "free_count r > 0"
    using ch chain_free_count [OF ch] by (auto simp: chain_inv_def)
  have hi: "free_head r = of_nat i"
    using h by auto
  have fc: "unat (free_count r - 1) = unat (free_count r) - 1"
    using pos by (simp add: unat_pred word_gt_0)
  let ?r = "r\<lparr>free_head := VMEM_PPAGE_VALUE (table r ! i), table := (table r)[i := 1],
              free_count := free_count r - 1, lock := False\<rparr>"
  have "ppage_alloc r = Some (0, Some (page_addr r i), ?r)"
    using nl pos h i
    by (simp add: ppage_alloc_def lock_spin_def table_get_def table_set_def lock_release_def
        page_addr_def hi)
  moreover have "page_inv ?r fl"
    using ch fl i fc
    by (auto simp: page_inv_def chain_inv_def flag_inv_def free_chain_upd nth_list_update)
  moreover have "page_refs ?r = (page_refs r)(i := 1)"
    using i by (auto simp: page_refs_def fun_eq_iff)
  ultimately show ?thesis
    by blast
qed

lemma page_inv_alloc_fail: "page_inv r [] \<Longrightarrow> ppage_alloc r = Some (- ENOMEM, None, r)"
  using chain_free_count [of r "[]"]
  by (auto simp: ppage_alloc_def lock_spin_def lock_release_def page_inv_def)

lemma page_inv_refnew:
  assumes inv: "page_inv r fl" and i: "i < length (table r)" "i \<notin> set fl"
    and small: "page_refs r i < 2 ^ 31 - 1"
  shows "\<exists>r'. ppage_refnew r (page_addr r i) = Some (page_addr r i, r') \<and> page_inv r' fl
     \<and> page_refs r' = (page_refs r)(i := page_refs r i + 1)"
proof -
  have ch: "chain_inv r fl" and fl: "flag_inv r fl" and nl: "\<not> lock r"
    using inv by (auto simp: page_inv_def)
  have nf: "\<not> VMEM_PPAGE_ISFREE (table r ! i)"
    using fl i by (auto simp: flag_inv_def)
  have u: "unat (table r ! i + 1) = unat (table r ! i) + 1"
    using small nf by (subst unat_add_small) (auto simp: page_refs_def)
  have nf': "\<not> VMEM_PPAGE_ISFREE (table r ! i + 1)"
    using small nf by (simp add: not_free_less u page_refs_def)
  have pos: "0 < table r ! i + 1"
    using u by (simp add: word_less_nat_alt)
  let ?r = "r\<lparr>table := (table r)[i := table r ! i + 1], lock := False\<rparr>"
  have "ppage_refnew r (page_addr r i) = Some (page_addr r i, ?r)"
    using page_index [OF ch i(1)] nf nl i
    by (simp add: ppage_refnew_def lock_spin_def table_get_def table_set_def lock_release_def Let_def)
  moreover have "page_inv ?r fl"
    using ch fl i nf' pos
    by (auto simp: page_inv_def chain_inv_def flag_inv_def free_chain_upd nth_list_update)
  moreover have "page_refs ?r = (page_refs r)(i := page_refs r i + 1)"
    using i nf nf' u by (auto simp: page_refs_def fun_eq_iff)
  ultimately show ?thesis
    by blast
qed

lemma page_inv_refdrop:
  assumes inv: "page_inv r fl" and i: "i < length (table r)" "i \<notin> set fl"
  shows "\<exists>r'. ppage_refdrop r (page_addr r i) = Some r'
     \<and> page_inv r' (if page_refs r i = 1 then i # fl else fl)
     \<and> page_refs r' = (page_refs r)(i := page_refs r i - 1)"
proof -
  have ch: "chain_inv r fl" and fl: "flag_inv r fl" and nl: "\<not> lock r"
    using inv by (auto simp: page_inv_def)
  have nf: "\<not> VMEM_PPAGE_ISFREE (table r ! i)" and pos: "0 < table r ! i"
    using fl i by (auto simp: flag_inv_def)
  note pi = page_index [OF ch i(1)]
  have u: "unat (table r ! i - 1) = unat (table r ! i) - 1"
    using pos by (simp add: unat_pred word_gt_0)
  note d = ppage_refdrop_def lock_spin_def table_get_def table_set_def lock_release_def Let_def
  show ?thesis
  proof (cases "table r ! i = 1")
    case True
    let ?p = "(page_addr r i - paddr r) div MMU_PAGESIZE"
    let ?r = "r\<lparr>table := (table r)[i := VMEM_PPAGE_SET 1 (free_head r)], lock := False,
                free_head := ?p, free_count := free_count r + 1\<rparr>"
    have fc: "unat (free_count r + 1) = unat (free_count r) + 1"
      using chain_inv_length [OF ch] ch chain_inv_count [OF ch]
      by (subst unat_add_small) (auto simp: chain_inv_def)
    have hd: "free_chain (table r) (VMEM_PPAGE_VALUE (VMEM_PPAGE_SET 1 (free_head r))) fl"
    proof (cases fl)
      case (Cons j js)
      then have "unat (free_head r) < 2 ^ 31"
        using ch chain_inv_count [OF ch] by (auto simp: chain_inv_def)
      then show ?thesis
        using ch by (simp add: VALUE_SET_1 chain_inv_def)
    qed simp
    have "ppage_refdrop r (page_addr r i) = Some ?r"
      using pi nf pos nl i True by (simp add: d)
    moreover have "page_inv ?r (i # fl)"
    proof -
      have "chain_inv ?r (i # fl)"
        using ch i hd fc pi(2) by (simp add: chain_inv_def free_chain_upd)
      moreover have "flag_inv ?r (i # fl)"
        using fl i by (auto simp: flag_inv_def nth_list_update)
      ultimately show ?thesis
        by (simp add: page_inv_def)
    qed
    moreover have "page_refs ?r = (page_refs r)(i := page_refs r i - 1)"
      using i True by (auto simp: page_refs_def fun_eq_iff)
    ultimately show ?thesis
      using True by (auto simp: page_refs_def)
  next
    case False
    then have nz: "table r ! i - 1 \<noteq> 0"
      by simp
    then have pos': "0 < table r ! i - 1"
      by (simp add: word_gt_0)
    have nf': "\<not> VMEM_PPAGE_ISFREE (table r ! i - 1)"
      using nf by (simp add: not_free_less u)
    let ?r = "r\<lparr>table := (table r)[i := table r ! i - 1], lock := False\<rparr>"
    have "ppage_refdrop r (page_addr r i) = Some ?r"
      using pi nf pos nl i nz by (simp add: d)
    moreover have "page_inv ?r fl"
      using ch fl i nf' pos'
      by (auto simp: page_inv_def chain_inv_def flag_inv_def free_chain_upd nth_list_update)
    moreover have "page_refs ?r = (page_refs r)(i := page_refs r i - 1)"
      using i nf nf' u by (auto simp: page_refs_def fun_eq_iff)
    moreover have "page_refs r i \<noteq> 1"
      using False nf u nz unat_eq_zero [of "table r ! i - 1"] by (simp add: page_refs_def)
    ultimately show ?thesis
      by auto
  qed
qed

subsection \<open>The unlinking loop\<close>

lemma free_chain_upd_last:
  assumes "distinct xs" "xs \<noteq> []"
  shows "free_chain (t[last xs := v]) h xs = free_chain t h xs"
proof (cases xs rule: rev_cases)
  case (snoc ys y)
  then have y: "y \<notin> set ys" "ys \<noteq> [] \<longrightarrow> last ys \<noteq> y"
    using assms last_in_set by fastforce+
  show ?thesis
    unfolding snoc using y by (cases "ys = []") (simp_all add: free_chain_append free_chain_upd)
qed (use assms in simp)

definition in_range :: "u32 \<Rightarrow> u32 \<Rightarrow> nat \<Rightarrow> bool" where
  "in_range first sz j \<longleftrightarrow> unat first \<le> j \<and> j < unat first + unat sz"

lemma unlink_loop_correct:
  assumes "unat first + unat sz \<le> length (table r)" "length (table r) < 2 ^ 20"
    and "distinct (pre @ rest)" "free_chain (table r) (free_head r) (pre @ rest)"
    and "\<forall>j \<in> set pre. \<not> in_range first sz j"
    and "length (filter (in_range first sz) rest) = unat sz - unat c" "c \<le> sz"
    and "n = (if pre = [] then FreeHead else Entry (of_nat (last pre)))"
  shows "\<exists>h t. unlink_loop r n first sz c = Some (r\<lparr>free_head := h, table := t\<rparr>)
     \<and> length t = length (table r)
     \<and> free_chain t h (pre @ filter (\<lambda>j. \<not> in_range first sz j) rest)
     \<and> (\<forall>j. j \<notin> set (pre @ rest) \<longrightarrow> t ! j = table r ! j)
     \<and> (\<forall>j \<in> set rest. in_range first sz j \<longrightarrow> t ! j = 1)"
  using assms
proof (induction rest arbitrary: r pre c n)
  case Nil
  then have "c = sz"
    by (simp add: word_le_nat_alt word_unat_eq_iff)
  then have "unlink_loop r n first sz c = Some (r\<lparr>free_head := free_head r, table := table r\<rparr>)"
    by (subst unlink_loop.simps) simp
  then show ?case
    using Nil by fastforce
next
  case (Cons i rest)
  show ?case
  proof (cases "c < sz")
    case False
    then have "filter (in_range first sz) (i # rest) = []"
      using Cons.prems(6,7) by (simp add: word_less_nat_alt del: filter.simps)
    then have "filter (\<lambda>j. \<not> in_range first sz j) (i # rest) = i # rest"
      "\<forall>j \<in> set (i # rest). \<not> in_range first sz j"
      by (simp_all add: filter_empty_conv filter_id_conv del: filter.simps)
    moreover have "unlink_loop r n first sz c = Some (r\<lparr>free_head := free_head r, table := table r\<rparr>)"
      using False by (subst unlink_loop.simps) simp
    ultimately show ?thesis
      using Cons.prems(4)
      by (intro exI [of _ "free_head r"] exI [of _ "table r"]) (simp del: filter.simps)
  next
    case c: True
    have i: "i < length (table r)"
      using Cons.prems(4) by (auto dest: free_chain_bound)
    then have ui: "unat (of_nat i :: u32) = i"
      using Cons.prems(2) by (simp add: unat_of_nat)
    have lst: "pre \<noteq> [] \<Longrightarrow> last pre < length (table r)"
      using Cons.prems(4) last_in_set [of pre] by (auto intro: free_chain_bound)
    then have ul: "pre \<noteq> [] \<Longrightarrow> unat (of_nat (last pre) :: u32) = last pre"
      using Cons.prems(2) by (simp add: unat_of_nat)
    obtain v where v: "link_load r n = Some v" "VMEM_PPAGE_VALUE v = of_nat i"
    proof (cases pre)
      case Nil
      then show ?thesis
        using Cons.prems(2,4,8) that [of "free_head r"] i
        by (auto simp: link_load_def VALUE_small word_unat_eq_iff)
    next
      case (Cons a list)
      then show ?thesis
        using Cons.prems(4,8) that [of "table r ! last pre"] lst ul
        by (auto simp: link_load_def table_get_def free_chain_append word_unat_eq_iff)
    qed
    have sum: "unat (first + sz) = unat first + unat sz"
      using Cons.prems(1,2) by (intro unat_add_small) simp
    have rng: "of_nat i \<ge> first \<and> of_nat i < first + sz \<longleftrightarrow> in_range first sz i"
      by (simp add: word_le_nat_alt word_less_nat_alt ui sum in_range_def)
    show ?thesis
    proof (cases "in_range first sz i")
      case False
      have "unlink_loop r n first sz c = unlink_loop r (Entry (of_nat i)) first sz c"
        using c v rng False by (subst unlink_loop.simps) auto
      moreover have "\<exists>h t. unlink_loop r (Entry (of_nat i)) first sz c = Some (r\<lparr>free_head := h, table := t\<rparr>)
         \<and> length t = length (table r)
         \<and> free_chain t h ((pre @ [i]) @ filter (\<lambda>j. \<not> in_range first sz j) rest)
         \<and> (\<forall>j. j \<notin> set ((pre @ [i]) @ rest) \<longrightarrow> t ! j = table r ! j)
         \<and> (\<forall>j \<in> set rest. in_range first sz j \<longrightarrow> t ! j = 1)"
        using Cons.prems False by (intro Cons.IH) simp_all
      ultimately show ?thesis
        using False by simp
    next
      case True
      have lp: "last pre \<notin> set rest \<and> last pre \<noteq> i" if "pre \<noteq> []"
      proof -
        have "\<forall>j \<in> set pre. j \<notin> set rest \<and> j \<noteq> i"
          using Cons.prems(3) by auto
        with last_in_set [OF that] show ?thesis
          by blast
      qed
      let ?w = "VMEM_PPAGE_VALUE (table r ! i)"
      let ?h = "if pre = [] then ?w else free_head r"
      let ?t = "(if pre = [] then table r else (table r)[last pre := ?w])[i := 1]"
      let ?r = "r\<lparr>free_head := ?h, table := ?t\<rparr>"
      have step: "unlink_loop r n first sz c = unlink_loop ?r n first sz (c + 1)"
        using c v rng True i ui Cons.prems(8) lst ul
        by (subst unlink_loop.simps)
          (auto simp: table_get_def table_set_def link_store_def)
      moreover have "free_chain ?t ?h (pre @ rest)"
        using Cons.prems(3,4) lst i lp
        by (cases "pre = []") (auto simp: free_chain_append free_chain_upd free_chain_upd_last)
      moreover have "unat (c + 1) = unat c + 1"
        using c u32_unat_bound [of sz] by (subst unat_add_small) (simp_all add: word_less_nat_alt)
      ultimately have "\<exists>h t. unlink_loop ?r n first sz (c + 1) = Some (?r\<lparr>free_head := h, table := t\<rparr>)
         \<and> length t = length (table ?r)
         \<and> free_chain t h (pre @ filter (\<lambda>j. \<not> in_range first sz j) rest)
         \<and> (\<forall>j. j \<notin> set (pre @ rest) \<longrightarrow> t ! j = table ?r ! j)
         \<and> (\<forall>j \<in> set rest. in_range first sz j \<longrightarrow> t ! j = 1)"
        using Cons.prems True c
        by (intro Cons.IH) (simp_all add: word_less_nat_alt word_le_nat_alt)
      then obtain h t where "unlink_loop ?r n first sz (c + 1) = Some (?r\<lparr>free_head := h, table := t\<rparr>)"
        and "length t = length (table ?r)"
        and "free_chain t h (pre @ filter (\<lambda>j. \<not> in_range first sz j) rest)"
        and same: "\<forall>j. j \<notin> set (pre @ rest) \<longrightarrow> t ! j = table ?r ! j"
        and "\<forall>j \<in> set rest. in_range first sz j \<longrightarrow> t ! j = 1"
        by blast
      moreover have "t ! i = 1"
        using same Cons.prems(3) i by simp
      moreover have "\<forall>j. j \<notin> set (pre @ i # rest) \<longrightarrow> t ! j = table r ! j"
      proof (intro allI impI)
        fix j assume j: "j \<notin> set (pre @ i # rest)"
        then have "pre \<noteq> [] \<longrightarrow> j \<noteq> last pre"
          using last_in_set by fastforce
        with j show "t ! j = table r ! j"
          using same by (cases "pre = []") simp_all
      qed
      ultimately show ?thesis
        using True step by (intro exI [of _ h] exI [of _ t]) simp
    qed
  qed
qed

subsection \<open>The search loops\<close>

lemma u32_Suc: "unat i < n \<Longrightarrow> n < 2 ^ 20 \<Longrightarrow> unat (i + 1 :: u32) = unat i + 1"
  by (subst unat_add_small) simp_all

lemma reserve_check_correct:
  assumes "length (table r) < 2 ^ 20" "unat lim \<le> length (table r)"
  shows "reserve_check r i lim
    = Some (\<forall>j. unat i \<le> j \<and> j < unat lim \<longrightarrow> VMEM_PPAGE_ISFREE (table r ! j))"
proof (induction "unat lim - unat i" arbitrary: i)
  case 0
  then show ?case
    by (subst reserve_check.simps) (auto simp: word_less_nat_alt)
next
  case (Suc n)
  then have i: "unat i < unat lim" "unat i < length (table r)"
    using assms by linarith+
  then have u: "unat (i + 1) = unat i + 1"
    using assms by (intro u32_Suc)
  then have IH: "reserve_check r (i + 1) lim
    = Some (\<forall>j. unat i + 1 \<le> j \<and> j < unat lim \<longrightarrow> VMEM_PPAGE_ISFREE (table r ! j))"
    using Suc.hyps(1) [of "i + 1"] Suc.hyps(2) by simp
  have "reserve_check r i lim = (if \<not> VMEM_PPAGE_ISFREE (table r ! unat i) then Some False
     else reserve_check r (i + 1) lim)"
    using i by (subst reserve_check.simps) (simp add: table_get_def word_less_nat_alt)
  also have "\<dots> = Some (\<forall>j. unat i \<le> j \<and> j < unat lim \<longrightarrow> VMEM_PPAGE_ISFREE (table r ! j))"
  proof -
    have "unat i \<le> j \<longleftrightarrow> j = unat i \<or> unat i + 1 \<le> j" for j
      by auto
    then show ?thesis
      unfolding IH using i(1) by auto
  qed
  finally show ?case .
qed

definition free_run :: "vmem_page_region_s \<Rightarrow> u32 \<Rightarrow> nat \<Rightarrow> bool" where
  "free_run r sz f \<longleftrightarrow> f + unat sz \<le> length (table r)
     \<and> (\<forall>j. f \<le> j \<and> j < f + unat sz \<longrightarrow> VMEM_PPAGE_ISFREE (table r ! j))"

lemma search_loop_correct:
  assumes tab: "length (table r) < 2 ^ 20" "length (table r) = unat (count r)"
    and run: "free_run r sz f" and least: "\<forall>g < f. \<not> free_run r sz g"
    and "unat first \<le> f" "unat first \<le> unat i" "unat i \<le> unat first + unat sz"
    and "\<forall>j. unat first \<le> j \<and> j < unat i \<longrightarrow> VMEM_PPAGE_ISFREE (table r ! j)"
  shows "search_loop r sz first i = Some (Some (of_nat f))"
  using assms(5-)
proof (induction "length (table r) - unat i" arbitrary: first i rule: less_induct)
  case less
  note prems = less.prems
  have fs: "f + unat sz \<le> length (table r)"
    using run by (simp add: free_run_def)
  have u: "unat (first + sz) = unat first + unat sz"
    using prems(1) fs tab by (intro unat_add_small) simp
  show ?case
  proof (cases "i < first + sz")
    case False
    then have "free_run r sz (unat first)"
      using prems u fs by (auto simp: free_run_def word_less_nat_alt)
    then have "f = unat first"
      using least prems(1) by (metis le_neq_implies_less)
    then show ?thesis
      using False by (subst search_loop.simps) simp
  next
    case True
    then have i: "unat i < unat first + unat sz" "unat i < length (table r)"
      using u prems(1) fs by (auto simp: word_less_nat_alt)
    have ui: "unat (i + 1) = unat i + 1"
      using i(2) tab(1) by (rule u32_Suc)
    note step = search_loop.simps [of r sz first i]
    show ?thesis
    proof (cases "VMEM_PPAGE_ISFREE (table r ! unat i)")
      case free: True
      then have "search_loop r sz first (i + 1) = Some (Some (of_nat f))"
        using prems i ui by (intro less.hyps) (auto simp: le_less less_Suc_eq)
      then show ?thesis
        using True free i(2) by (simp add: step table_get_def)
    next
      case used: False
      have "\<not> (f \<le> unat i \<and> unat i < f + unat sz)"
        using used run by (auto simp: free_run_def)
      then have fi: "unat i < f"
        using i(1) prems(1) by linarith
      then have "unat (i + sz) = unat i + unat sz"
        using fs tab by (intro unat_add_small) simp
      then have "\<not> i + sz > count r"
        using fi fs tab(2) by (simp add: word_less_nat_alt)
      moreover have "search_loop r sz (i + 1) (i + 1) = Some (Some (of_nat f))"
        using fi ui i(2) by (intro less.hyps) auto
      ultimately show ?thesis
        using True used i(2) by (simp add: step table_get_def)
    qed
  qed
qed

lemma search_loop_sound:
  assumes tab: "length (table r) < 2 ^ 20" and sz: "unat sz < 2 ^ 20"
    and "unat first \<le> unat i" "unat i \<le> unat first + unat sz" "unat i \<le> length (table r)"
    and "\<forall>j. unat first \<le> j \<and> j < unat i \<longrightarrow> VMEM_PPAGE_ISFREE (table r ! j)"
    and "search_loop r sz first i = Some (Some g)"
  shows "free_run r sz (unat g)"
  using assms(3-)
proof (induction "length (table r) - unat i" arbitrary: first i rule: less_induct)
  case less
  note prems = less.prems
  note step = search_loop.simps [of r sz first i]
  have u: "unat (first + sz) = unat first + unat sz"
    using prems(1,3) tab sz by (intro unat_add_small) simp
  show ?case
  proof (cases "i < first + sz")
    case False
    then have "g = first" "unat first + unat sz = unat i"
      using prems(2,5) u by (auto simp: step word_less_nat_alt)
    then show ?thesis
      using prems by (simp add: free_run_def)
  next
    case True
    then have i: "unat i < length (table r)" "unat i < unat first + unat sz"
      using prems(5) u by (auto simp: step table_get_def word_less_nat_alt split: if_splits)
    have ui: "unat (i + 1) = unat i + 1"
      using i(1) tab by (rule u32_Suc)
    show ?thesis
    proof (cases "VMEM_PPAGE_ISFREE (table r ! unat i)")
      case free: True
      then have "search_loop r sz first (i + 1) = Some (Some g)"
        using prems(5) True i by (simp add: step table_get_def)
      then show ?thesis
        using prems i ui free by (intro less.hyps [of "i + 1" first]) (auto simp: le_less less_Suc_eq)
    next
      case used: False
      then have "search_loop r sz (i + 1) (i + 1) = Some (Some g)"
        using prems(5) True i by (simp add: step table_get_def split: if_splits)
      then show ?thesis
        using i ui by (intro less.hyps [of "i + 1" "i + 1"]) auto
    qed
  qed
qed

subsection \<open>Removing a range of pages\<close>

text \<open>
  What the unlinking loop, called on the whole free list with the lock held, does to the region: the chain
  invariant holds for the pages that are left.
\<close>

lemma unlink_range_chain:
  assumes ch: "chain_inv r fl" and bound: "unat first + unat sz \<le> length (table r)"
    and sub: "\<And>j. in_range first sz j \<Longrightarrow> j \<in> set fl"
  shows "\<exists>h t. unlink_loop (r\<lparr>lock := True\<rparr>) FreeHead first sz 0
       = Some (r\<lparr>lock := True, free_head := h, table := t\<rparr>)
     \<and> chain_inv (r\<lparr>lock := False, free_head := h, table := t, free_count := free_count r - sz\<rparr>)
         (filter (\<lambda>j. \<not> in_range first sz j) fl)
     \<and> (\<forall>j. in_range first sz j \<longrightarrow> t ! j = 1)
     \<and> (\<forall>j. j \<notin> set fl \<longrightarrow> t ! j = table r ! j) \<and> sz \<le> free_count r"
proof -
  let ?P = "in_range first sz"
  have "set (filter ?P fl) = {unat first ..< unat first + unat sz}"
    using sub by (auto simp: in_range_def)
  moreover have "distinct (filter ?P fl)"
    using ch by (simp add: chain_inv_def)
  ultimately have len: "length (filter ?P fl) = unat sz"
    by (metis card_atLeastLessThan diff_add_inverse distinct_card)
  obtain h t where u: "unlink_loop (r\<lparr>lock := True\<rparr>) FreeHead first sz 0
       = Some (r\<lparr>lock := True, free_head := h, table := t\<rparr>)"
    and t: "length t = length (table r)" "free_chain t h (filter (\<lambda>j. \<not> ?P j) fl)"
    and same: "\<forall>j. j \<notin> set fl \<longrightarrow> t ! j = table r ! j"
    and one: "\<forall>j \<in> set fl. ?P j \<longrightarrow> t ! j = 1"
    using unlink_loop_correct [of first sz "r\<lparr>lock := True\<rparr>" "[]" fl 0 FreeHead]
      bound ch chain_inv_count [OF ch] len by (auto simp: chain_inv_def)
  have fc: "length fl = unat (free_count r)"
    using ch by (simp add: chain_inv_def)
  then have le: "sz \<le> free_count r"
    using len length_filter_le [of ?P fl] by (simp add: word_le_nat_alt)
  then have "length (filter (\<lambda>j. \<not> ?P j) fl) = unat (free_count r - sz)"
    using sum_length_filter_compl [of ?P fl] len fc le by (simp add: unat_sub_le)
  then show ?thesis
    using u t same one sub ch le
    by (intro exI [of _ h] exI [of _ t]) (auto simp: chain_inv_def)
qed

lemma page_inv_parts: "page_inv r fl \<Longrightarrow> chain_inv r fl" "page_inv r fl \<Longrightarrow> \<not> lock r"
  by (simp_all add: page_inv_def)

lemma unlink_range:
  assumes "page_inv r fl" "free_run r sz (unat first)"
  shows "\<exists>h t. unlink_loop (r\<lparr>lock := True\<rparr>) FreeHead first sz 0
       = Some (r\<lparr>lock := True, free_head := h, table := t\<rparr>)
     \<and> chain_inv (r\<lparr>lock := False, free_head := h, table := t, free_count := free_count r - sz\<rparr>)
         (filter (\<lambda>j. \<not> in_range first sz j) fl)
     \<and> (\<forall>j. in_range first sz j \<longrightarrow> t ! j = 1)
     \<and> (\<forall>j. j \<notin> set fl \<longrightarrow> t ! j = table r ! j) \<and> sz \<le> free_count r"
  using assms by (intro unlink_range_chain) (auto simp: page_inv_def flag_inv_def free_run_def in_range_def)

lemma ALIGN_VALUE_page:
  assumes "4096 dvd unat x"
  shows "ALIGN_VALUE_UP x MMU_PAGESIZE = x" "ALIGN_VALUE_LOW x MMU_PAGESIZE = x"
proof -
  obtain k where k: "unat x = 4096 * k"
    using assms by (auto elim: dvdE)
  have "(4096 * k + 4095) div 4096 = k"
    by simp
  then have "unat (ALIGN_VALUE_UP x (2 ^ 12)) = unat x"
    using unat_ALIGN_VALUE_UP [of 12 x] u32_unat_bound [of x] k by (simp add: mult.commute)
  then show "ALIGN_VALUE_UP x MMU_PAGESIZE = x"
    by (simp add: MMU_PAGESIZE_def word_unat_eq_iff)
  have "unat (ALIGN_VALUE_LOW x (2 ^ 12)) = unat x"
    using unat_ALIGN_VALUE_LOW [of x 12] k by simp
  then show "ALIGN_VALUE_LOW x MMU_PAGESIZE = x"
    by (simp add: MMU_PAGESIZE_def word_unat_eq_iff)
qed

lemma ppage_reserve_pages:
  assumes ch: "chain_inv r fl" and nl: "\<not> lock r" and p: "unat p + unat n \<le> length (table r)" "0 < n"
  shows "ppage_reserve r (page_addr r (unat p)) (page_addr r (unat p + unat n))
    = (if free_run r n (unat p)
       then do { r \<leftarrow> unlink_loop (r\<lparr>lock := True\<rparr>) FreeHead p n 0;
                 Some (0, lock_release (r\<lparr>free_count := free_count r - n\<rparr>)) }
       else Some (- ENOMEM, r))"
proof -
  let ?a = "page_addr r (unat p)" and ?b = "page_addr r (unat p + unat n)"
  have a: "unat ?a = unat (paddr r) + unat p * 4096"
    and b: "unat ?b = unat (paddr r) + (unat p + unat n) * 4096"
    using unat_of_nat_page(3) [OF ch] p by simp_all
  have "4096 dvd unat ?a" "4096 dvd unat ?b"
    unfolding a b using ch by (auto simp: chain_inv_def)
  then have al: "ALIGN_VALUE_UP ?a MMU_PAGESIZE = ?a" "ALIGN_VALUE_LOW ?b MMU_PAGESIZE = ?b"
    by (simp_all add: ALIGN_VALUE_page)
  have lt: "?a < ?b"
    using p a b by (simp add: word_less_nat_alt)
  have "unat ((?b - ?a) div MMU_PAGESIZE) = unat n"
    using lt a b by (simp add: unat_div unat_sub_le less_imp_le)
  then have sz: "(?b - ?a) div MMU_PAGESIZE = n"
    by (simp add: word_unat_eq_iff)
  have "unat ((?a - paddr r) div MMU_PAGESIZE) = unat p"
    using a by (simp add: unat_div unat_sub_le word_le_nat_alt)
  then have pp: "(?a - paddr r) div MMU_PAGESIZE = p"
    by (simp add: word_unat_eq_iff)
  have u: "unat (p + n) = unat p + unat n"
    using p chain_inv_count [OF ch] ch by (intro unat_add_small) (simp add: chain_inv_def)
  have "reserve_check (r\<lparr>lock := True\<rparr>) p (p + n) = Some (free_run r n (unat p))"
    using reserve_check_correct [of "r\<lparr>lock := True\<rparr>" "p + n" p] p ch chain_inv_count [OF ch]
    by (simp add: u free_run_def chain_inv_def)
  then show ?thesis
    using nl lt by (simp add: ppage_reserve_def al sz pp lock_spin_def lock_release_def)
qed

lemma free_chain_init:
  assumes n: "n < 2 ^ 20"
    and t: "length t = n" "\<forall>i. i + 1 < n \<longrightarrow> VMEM_PPAGE_VALUE (t ! i) = of_nat (i + 1)"
    and k: "k \<le> n"
  shows "free_chain t (of_nat k) [k..<n]"
  using k
proof (induction "n - k" arbitrary: k)
  case (Suc d)
  then have k: "k < n"
    by simp
  moreover have "unat (of_nat k :: u32) = k"
    using n k by (simp add: unat_of_nat)
  moreover have "free_chain t (VMEM_PPAGE_VALUE (t ! k)) [Suc k..<n]"
    using Suc.hyps(1) [of "Suc k"] Suc.hyps(2) t(2) k by (cases "k + 1 < n") auto
  ultimately show ?case
    using t(1) by (simp add: upt_rec [of k])
qed simp

section \<open>Properties\<close>

text \<open>
  \<^verbatim>\<open>ppage_region_init\<close> on a range that holds a whole page, when the lock and the table can be
  allocated, returns 0 and a region that spans the page-aligned part of the range, satisfies the
  invariant and has every page free.
\<close>

theorem ppage_region_init_inv:
  assumes "ALIGN_VALUE_UP pa MMU_PAGESIZE < ALIGN_VALUE_LOW pa_end MMU_PAGESIZE"
  shows "\<exists>r. ppage_region_init True True pa pa_end = Some (0, Some r)
     \<and> page_inv r [0..<unat (count r)]
     \<and> paddr r = ALIGN_VALUE_UP pa MMU_PAGESIZE \<and> paddr r + size r = ALIGN_VALUE_LOW pa_end MMU_PAGESIZE"
proof -
  let ?a = "ALIGN_VALUE_UP pa MMU_PAGESIZE" and ?b = "ALIGN_VALUE_LOW pa_end MMU_PAGESIZE"
  have dv: "4096 dvd unat ?a" "4096 dvd unat ?b"
    using unat_ALIGN_VALUE_UP [of 12 pa] unat_ALIGN_VALUE_LOW [of pa_end 12]
    by (simp_all add: MMU_PAGESIZE_def dvd_mod)
  obtain i j where i: "unat ?a = 4096 * i" and j: "unat ?b = 4096 * j"
    using dv by (auto elim!: dvdE)
  let ?n = "(?b - ?a) div MMU_PAGESIZE"
  have sz: "unat (?b - ?a) = 4096 * (j - i)"
    using assms i j by (simp add: unat_sub_le less_imp_le diff_mult_distrib2)
  then have n: "unat ?n = j - i"
    by (simp add: unat_div)
  have ij: "i < j" "4096 * j < 2 ^ 32"
    using assms i j u32_unat_bound [of ?b] by (simp_all add: word_less_nat_alt)
  have n1: "unat (?n - 1) = j - i - 1"
    using n ij(1) by (subst unat_pred) (auto simp: word_unat_eq_iff)
  let ?t = "(map (\<lambda>i. VMEM_PPAGE_SET 1 (of_nat i + 1)) [0..<unat ?n])[unat (?n - 1) := VMEM_PPAGE_SET 1 0]"
  let ?r = "\<lparr>paddr = ?a, size = ?b - ?a, count = ?n, free_count = ?n, free_head = 0,
             table = ?t, lock = False\<rparr>"
  have "VMEM_PPAGE_VALUE (?t ! k) = of_nat (k + 1)" if "k + 1 < j - i" for k
  proof -
    have "unat (of_nat k + 1 :: u32) = k + 1"
      using that ij(2) by (subst u32_Suc [of _ "k + 1"]) (simp_all add: unat_of_nat)
    then show ?thesis
      using that ij(2) n n1 by (simp add: VALUE_SET_1 add.commute)
  qed
  then have "free_chain ?t (of_nat 0) [0..<j - i]"
    using ij n by (intro free_chain_init) auto
  then have "chain_inv ?r [0..<unat ?n]"
    using n sz i j ij dv by (simp add: chain_inv_def)
  moreover have "flag_inv ?r [0..<unat ?n]"
    using n1 ij by (auto simp: flag_inv_def nth_list_update n)
  ultimately show ?thesis
    using assms by (simp add: ppage_region_init_def Let_def page_inv_def)
qed

theorem ppage_region_init_inv_witness:
  "\<exists>r. ppage_region_init True True 0x1234 0x9000 = Some (0, Some r)
     \<and> page_inv r [0..<unat (count r)] \<and> paddr r = 0x2000 \<and> paddr r + size r = 0x9000"
  using ppage_region_init_inv [of "0x1234" "0x9000"]
  by (simp add: ALIGN_VALUE_UP_def ALIGN_VALUE_LOW_def MMU_PAGESIZE_def)

text \<open>
  C13: on a region in the invariant, \<^verbatim>\<open>ppage_alloc\<close> fails with \<^verbatim>\<open>-ENOMEM\<close> and leaves the region unchanged
  exactly when no page is free; otherwise it returns the address of the first free page, which had no
  reference and now has one, changes no other page's reference count and keeps the invariant.
\<close>

theorem ppage_alloc_correct:
  assumes "page_inv r fl"
  shows "case fl of
      [] \<Rightarrow> ppage_alloc r = Some (- ENOMEM, None, r)
    | i # fl' \<Rightarrow> page_refs r i = 0
        \<and> (\<exists>r'. ppage_alloc r = Some (0, Some (page_addr r i), r') \<and> page_inv r' fl'
             \<and> page_refs r' = (page_refs r)(i := 1))"
proof (cases fl)
  case Nil
  then show ?thesis
    using page_inv_alloc_fail assms by simp
next
  case (Cons i fl')
  then have "VMEM_PPAGE_ISFREE (table r ! i)"
    using assms chain_inv_bound [of r fl i] by (auto simp: page_inv_def flag_inv_def)
  then show ?thesis
    using page_inv_alloc [of r i fl'] assms Cons by (simp add: page_refs_def)
qed

text \<open>A region of three pages: page 0 has two references, pages 2 and 1 are free, in this order.\<close>

definition sample_region :: vmem_page_region_s where
  "sample_region = \<lparr>paddr = 0x4000, size = 0x3000, count = 3, free_count = 2, free_head = 2,
     table = [2, 0x80000000, 0x80000001], lock = False\<rparr>"

lemma sample_region_inv: "page_inv sample_region [2, 1]"
  by (simp add: page_inv_def chain_inv_def flag_inv_def sample_region_def VMEM_PPAGE_ISFREE_def
      VMEM_PPAGE_VALUE_def All_less_Suc)

theorem ppage_alloc_correct_witness:
  "page_refs sample_region 2 = 0
   \<and> (\<exists>r'. ppage_alloc sample_region = Some (0, Some 0x6000, r') \<and> page_inv r' [1]
        \<and> page_refs r' = (page_refs sample_region)(2 := 1))"
  using ppage_alloc_correct [OF sample_region_inv]
  by (simp add: page_addr_def sample_region_def MMU_PAGESIZE_def)

text \<open>
  C14: dropping a reference on an allocated page, \<^verbatim>\<open>ppage_refdrop\<close> returns, decrements the reference count
  of that page only, and keeps the invariant, with the page back at the head of the free list when
  the count reaches 0.
\<close>

theorem ppage_refdrop_correct:
  assumes "page_inv r fl" "i < length (table r)" "i \<notin> set fl"
  shows "0 < page_refs r i \<and> (\<exists>r'. ppage_refdrop r (page_addr r i) = Some r'
     \<and> page_inv r' (if page_refs r i = 1 then i # fl else fl)
     \<and> page_refs r' = (page_refs r)(i := page_refs r i - 1))"
  using page_inv_refdrop [OF assms] assms
  by (auto simp: page_inv_def flag_inv_def page_refs_def word_less_nat_alt)

theorem ppage_refdrop_correct_witness:
  "\<exists>r'. ppage_refdrop sample_region 0x4000 = Some r' \<and> page_inv r' [2, 1]
     \<and> page_refs r' = (page_refs sample_region)(0 := 1)"
  using ppage_refdrop_correct [OF sample_region_inv, of 0]
  by (simp add: page_addr_def page_refs_def sample_region_def VMEM_PPAGE_ISFREE_def)

text \<open>
  \<^verbatim>\<open>ppage_refnew\<close> on an allocated page whose count is below \<open>2 ^ 31 - 1\<close> returns the address, adds one
  reference to that page only and keeps the invariant.
\<close>

theorem ppage_refnew_correct:
  assumes "page_inv r fl" "i < length (table r)" "i \<notin> set fl" "page_refs r i < 2 ^ 31 - 1"
  shows "\<exists>r'. ppage_refnew r (page_addr r i) = Some (page_addr r i, r') \<and> page_inv r' fl
     \<and> page_refs r' = (page_refs r)(i := page_refs r i + 1)"
  by (rule page_inv_refnew [OF assms])

theorem ppage_refnew_correct_witness:
  "\<exists>r'. ppage_refnew sample_region 0x4000 = Some (0x4000, r') \<and> page_inv r' [2, 1]
     \<and> page_refs r' = (page_refs sample_region)(0 := 3)"
  using ppage_refnew_correct [OF sample_region_inv, of 0]
  by (simp add: page_addr_def page_refs_def sample_region_def VMEM_PPAGE_ISFREE_def)

text \<open>
  C36: \<^verbatim>\<open>ppage_reserve\<close> on the pages \<open>[p, p + n)\<close> of a region in the invariant returns 0 exactly when all of
  them are free; then they leave the free list, each with one reference, the free list of the other
  pages stays linked, and the references of the pages that were not free do not change. When one of
  them is in use it returns \<^verbatim>\<open>-ENOMEM\<close> and the region is unchanged.
\<close>

theorem ppage_reserve_correct:
  assumes "page_inv r fl" "unat p + unat n \<le> length (table r)" "0 < n"
  shows "if free_run r n (unat p)
    then \<exists>r'. ppage_reserve r (page_addr r (unat p)) (page_addr r (unat p + unat n)) = Some (0, r')
       \<and> chain_inv r' (filter (\<lambda>j. \<not> in_range p n j) fl) \<and> \<not> lock r'
       \<and> (\<forall>j. in_range p n j \<longrightarrow> page_refs r' j = 1)
       \<and> (\<forall>j. j \<notin> set fl \<longrightarrow> page_refs r' j = page_refs r j)
    else ppage_reserve r (page_addr r (unat p)) (page_addr r (unat p + unat n)) = Some (- ENOMEM, r)"
proof (cases "free_run r n (unat p)")
  case True
  then obtain h t where u: "unlink_loop (r\<lparr>lock := True\<rparr>) FreeHead p n 0
       = Some (r\<lparr>lock := True, free_head := h, table := t\<rparr>)"
    and ch: "chain_inv (r\<lparr>lock := False, free_head := h, table := t, free_count := free_count r - n\<rparr>)
         (filter (\<lambda>j. \<not> in_range p n j) fl)"
    and t: "\<forall>j. in_range p n j \<longrightarrow> t ! j = 1" "\<forall>j. j \<notin> set fl \<longrightarrow> t ! j = table r ! j"
    using unlink_range [OF assms(1) True] by blast
  have "ppage_reserve r (page_addr r (unat p)) (page_addr r (unat p + unat n))
    = Some (0, r\<lparr>lock := False, free_head := h, table := t, free_count := free_count r - n\<rparr>)"
    using ppage_reserve_pages [OF page_inv_parts(1,2) [OF assms(1)] assms(2,3)] True u by (simp add: lock_release_def)
  with True ch t show ?thesis
    by (simp add: page_refs_def)
next
  case False
  then show ?thesis
    using ppage_reserve_pages [OF page_inv_parts(1,2) [OF assms(1)] assms(2,3)] by simp
qed

theorem ppage_reserve_correct_witness:
  "(\<exists>r'. ppage_reserve sample_region 0x5000 0x6000 = Some (0, r') \<and> chain_inv r' [2] \<and> \<not> lock r')
   \<and> ppage_reserve sample_region 0x4000 0x6000 = Some (- ENOMEM, sample_region)"
proof -
  have "free_run sample_region 1 1" "\<not> free_run sample_region 2 0"
    by (auto simp: free_run_def sample_region_def VMEM_PPAGE_ISFREE_def less_Suc_eq
        intro!: exI [of _ 0])
  moreover have "[j\<leftarrow>[2, 1]. \<not> in_range 1 1 j] = [2]"
    by (simp add: in_range_def)
  ultimately show ?thesis
    using ppage_reserve_correct [OF sample_region_inv, of 1 1]
      ppage_reserve_correct [OF sample_region_inv, of 0 2]
    by (simp add: page_addr_def MMU_PAGESIZE_def) (auto simp: sample_region_def)
qed

text \<open>
  C12: whenever the region has a run of \<open>sz\<close> consecutive free pages, \<^verbatim>\<open>ppage_contiguous_alloc\<close> returns 0 and
  the address of the first such run, takes its pages out of the free list with one reference each,
  and releases the lock.
\<close>

theorem ppage_contiguous_alloc_correct:
  assumes inv: "page_inv r fl" and run: "free_run r sz f" and least: "\<forall>g < f. \<not> free_run r sz g"
  shows "\<exists>r'. ppage_contiguous_alloc r sz = Some (0, Some (page_addr r f), r')
     \<and> chain_inv r' (filter (\<lambda>j. \<not> in_range (of_nat f) sz j) fl) \<and> \<not> lock r'
     \<and> (\<forall>j. in_range (of_nat f) sz j \<longrightarrow> page_refs r' j = 1)
     \<and> (\<forall>j. j \<notin> set fl \<longrightarrow> page_refs r' j = page_refs r j)"
proof -
  have ch: "chain_inv r fl" and nl: "\<not> lock r"
    using inv by (auto simp: page_inv_def)
  have f: "unat (of_nat f :: u32) = f"
    using run unat_of_nat_page(1) [OF ch, of f] by (simp add: free_run_def)
  then obtain h t where u: "unlink_loop (r\<lparr>lock := True\<rparr>) FreeHead (of_nat f) sz 0
       = Some (r\<lparr>lock := True, free_head := h, table := t\<rparr>)"
    and ch': "chain_inv (r\<lparr>lock := False, free_head := h, table := t, free_count := free_count r - sz\<rparr>)
         (filter (\<lambda>j. \<not> in_range (of_nat f) sz j) fl)"
    and t: "\<forall>j. in_range (of_nat f) sz j \<longrightarrow> t ! j = 1" "\<forall>j. j \<notin> set fl \<longrightarrow> t ! j = table r ! j"
    and le: "sz \<le> free_count r"
    using unlink_range [OF inv, of sz "of_nat f"] run by auto
  have "search_loop (r\<lparr>lock := True\<rparr>) sz 0 0 = Some (Some (of_nat f))"
    using run least ch chain_inv_count [OF ch]
    by (intro search_loop_correct) (simp_all add: chain_inv_def free_run_def)
  then have "ppage_contiguous_alloc r sz = Some (0, Some (page_addr r f),
     r\<lparr>lock := False, free_head := h, table := t, free_count := free_count r - sz\<rparr>)"
    using u nl le
    by (simp add: ppage_contiguous_alloc_def lock_spin_def lock_release_def page_addr_def not_less [symmetric])
  with ch' t show ?thesis
    by (simp add: page_refs_def)
qed

theorem ppage_contiguous_alloc_correct_witness:
  "\<exists>r'. ppage_contiguous_alloc sample_region 2 = Some (0, Some 0x5000, r') \<and> chain_inv r' [] \<and> \<not> lock r'"
proof -
  have "free_run sample_region 2 1" "\<forall>g < 1. \<not> free_run sample_region 2 g"
    by (auto simp: free_run_def sample_region_def VMEM_PPAGE_ISFREE_def less_Suc_eq)
  then have "\<exists>r'. ppage_contiguous_alloc sample_region 2 = Some (0, Some (page_addr sample_region 1), r')
     \<and> chain_inv r' (filter (\<lambda>j. \<not> in_range (of_nat 1) 2 j) [2, 1]) \<and> \<not> lock r'"
    using ppage_contiguous_alloc_correct [OF sample_region_inv] by blast
  moreover have "[j\<leftarrow>[2, 1]. \<not> in_range 1 2 j] = []"
    by (simp add: in_range_def)
  ultimately show ?thesis
    by (simp add: page_addr_def sample_region_def MMU_PAGESIZE_def)
qed

text \<open>Evaluation of the loops on a literal region.\<close>

lemmas page_eval = lock_spin_def lock_release_def table_get_def table_set_def link_load_def link_store_def
  VMEM_PPAGE_ISFREE_def VMEM_PPAGE_VALUE_def MMU_PAGESIZE_def ALIGN_VALUE_UP_def ALIGN_VALUE_LOW_def
  unlink_loop.simps search_loop.simps reserve_check.simps

text \<open>Four free pages, as \<^verbatim>\<open>ppage_region_init\<close> makes them, and a region whose pages 0 and 2 are free.\<close>

definition region_4 :: vmem_page_region_s where
  "region_4 = \<lparr>paddr = 0x1000, size = 0x4000, count = 4, free_count = 4, free_head = 0,
     table = [0x80000001, 0x80000002, 0x80000003, 0x80000000], lock = False\<rparr>"

definition region_holes :: "u32 \<Rightarrow> u32 list \<Rightarrow> vmem_page_region_s" where
  "region_holes n rest = \<lparr>paddr = 0x1000, size = n * 0x1000, count = n, free_count = 2, free_head = 0,
     table = [0x80000002, 1, 0x80000000] @ rest, lock = False\<rparr>"

text \<open>
  The unlinking loop stores the next index without the free flag (\<^verbatim>\<open>*n = VMEM_PPAGE_VALUE(...)\<close>): after
  the second of four free pages is reserved, the first is still in the free list but its entry no
  longer has the flag, so that it counts as a page with references and a reservation of it fails.
\<close>

theorem ppage_reserve_loses_free_flag:
  "\<exists>r. ppage_reserve region_4 0x2000 0x3000 = Some (0, r) \<and> chain_inv r [0, 2, 3]
     \<and> \<not> VMEM_PPAGE_ISFREE (table r ! 0) \<and> page_refs r 0 = 2
     \<and> ppage_reserve r 0x1000 0x2000 = Some (- ENOMEM, r)"
proof -
  have "ppage_reserve region_4 0x2000 0x3000 = Some (0, region_4\<lparr>free_count := 3,
     table := [2, 1, 0x80000003, 0x80000000]\<rparr>)"
    by (simp add: ppage_reserve_def region_4_def page_eval cong: bind_weak_cong)
  moreover have "ppage_reserve (region_4\<lparr>free_count := 3, table := [2, 1, 0x80000003, 0x80000000]\<rparr>)
       0x1000 0x2000
     = Some (- ENOMEM, region_4\<lparr>free_count := 3, table := [2, 1, 0x80000003, 0x80000000]\<rparr>)"
    by (simp add: ppage_reserve_def region_4_def page_eval cong: bind_weak_cong)
  ultimately show ?thesis
    by (simp add: chain_inv_def page_refs_def region_4_def VMEM_PPAGE_ISFREE_def VMEM_PPAGE_VALUE_def)
qed

text \<open>
  When the free pages are not contiguous, \<^verbatim>\<open>ppage_contiguous_alloc\<close> either returns \<^verbatim>\<open>-ENOMEM\<close> with the
  region's lock still taken, so that the next operation on the region never returns (four pages, the
  last in use), or reads the table past its end (three pages, the last free), although the invariant
  holds before the call.
\<close>

theorem ppage_contiguous_alloc_failure:
  "page_inv (region_holes 4 [1]) [0, 2] \<and> page_inv (region_holes 3 []) [0, 2]
   \<and> (\<exists>r. ppage_contiguous_alloc (region_holes 4 [1]) 2 = Some (- ENOMEM, None, r) \<and> lock r
        \<and> ppage_alloc r = None)
   \<and> ppage_contiguous_alloc (region_holes 3 []) 2 = None"
proof (intro conjI)
  show "page_inv (region_holes 4 [1]) [0, 2]" "page_inv (region_holes 3 []) [0, 2]"
    by (simp_all add: page_inv_def chain_inv_def flag_inv_def region_holes_def VMEM_PPAGE_ISFREE_def
        VMEM_PPAGE_VALUE_def All_less_Suc)
  show "\<exists>r. ppage_contiguous_alloc (region_holes 4 [1]) 2 = Some (- ENOMEM, None, r) \<and> lock r
      \<and> ppage_alloc r = None"
    by (simp add: ppage_contiguous_alloc_def ppage_alloc_def region_holes_def page_eval
        cong: bind_weak_cong)
  show "ppage_contiguous_alloc (region_holes 3 []) 2 = None"
    by (simp add: ppage_contiguous_alloc_def region_holes_def page_eval cong: bind_weak_cong)
qed

section \<open>All operations in sequence\<close>

text \<open>
  The references that the callers have been given on each page.  \<open>got r p sz\<close> are the pages of the range of \<open>sz\<close> pages
  that an allocation has returned with the address \<open>p\<close>, none when it returned no address.
\<close>

type_synonym page_grants = "nat \<Rightarrow> nat"

definition give :: "page_grants \<Rightarrow> (nat \<Rightarrow> bool) \<Rightarrow> page_grants" where
  "give h P = (\<lambda>i. if P i then h i + 1 else h i)"

definition got :: "vmem_page_region_s \<Rightarrow> u32 option \<Rightarrow> u32 \<Rightarrow> nat \<Rightarrow> bool" where
  "got r p sz i \<longleftrightarrow> (case p of None \<Rightarrow> False
     | Some pa \<Rightarrow> unat pa \<le> unat (page_addr r i) \<and> unat (page_addr r i) < unat pa + unat sz * 4096)"

text \<open>
  The states of a region that is initialised and then used by any sequence of calls: single pages and ranges are
  allocated, ranges of the region are reserved, and references are taken and dropped by callers that hold one.
\<close>

inductive page_reach :: "vmem_page_region_s \<Rightarrow> page_grants \<Rightarrow> bool" where
  init: "ALIGN_VALUE_UP pa MMU_PAGESIZE < ALIGN_VALUE_LOW pa_end MMU_PAGESIZE \<Longrightarrow>
    ppage_region_init True True pa pa_end = Some (0, Some r) \<Longrightarrow> page_reach r (\<lambda>_. 0)"
| alloc: "page_reach r h \<Longrightarrow> ppage_alloc r = Some (err, p, r') \<Longrightarrow> page_reach r' (give h (got r p 1))"
| contiguous: "page_reach r h \<Longrightarrow> ppage_contiguous_alloc r sz = Some (err, p, r') \<Longrightarrow>
    page_reach r' (give h (got r p sz))"
| reserve: "page_reach r h \<Longrightarrow> unat p + unat n \<le> length (table r) \<Longrightarrow> 0 < n \<Longrightarrow>
    ppage_reserve r (page_addr r (unat p)) (page_addr r (unat p + unat n)) = Some (err, r') \<Longrightarrow>
    page_reach r' (give h (\<lambda>i. err = 0 \<and> in_range p n i))"
| refnew: "page_reach r h \<Longrightarrow> i < length (table r) \<Longrightarrow> 0 < h i \<Longrightarrow> h i < 2 ^ 31 - 1 \<Longrightarrow>
    ppage_refnew r (page_addr r i) = Some (p, r') \<Longrightarrow> page_reach r' (h(i := h i + 1))"
| refdrop: "page_reach r h \<Longrightarrow> i < length (table r) \<Longrightarrow> 0 < h i \<Longrightarrow>
    ppage_refdrop r (page_addr r i) = Some r' \<Longrightarrow> page_reach r' (h(i := h i - 1))"

text \<open>
  What holds in all of them: the free list is linked, its pages have been given to nobody, and the entry of every other
  page is the number of its references.
\<close>

definition page_held :: "vmem_page_region_s \<Rightarrow> nat list \<Rightarrow> page_grants \<Rightarrow> bool" where
  "page_held r fl h \<longleftrightarrow> chain_inv r fl \<and> (\<forall>i < length (table r).
     if i \<in> set fl then h i = 0 else 0 < h i \<and> h i < 2 ^ 31 \<and> unat (table r ! i) = h i)"

lemma page_held_chain: "page_held r fl h \<Longrightarrow> chain_inv r fl"
  by (simp add: page_held_def)

lemma page_held_in:
  assumes "page_held r fl h" "i < length (table r)" "i \<notin> set fl"
  shows "0 < h i" "h i < 2 ^ 31" "unat (table r ! i) = h i" "\<not> VMEM_PPAGE_ISFREE (table r ! i)"
  using assms by (auto simp: page_held_def not_free_less)

lemma page_held_cong: "page_held r fl h \<Longrightarrow> (\<And>i. i < length (table r) \<Longrightarrow> h i = h' i) \<Longrightarrow> page_held r fl h'"
  unfolding page_held_def by metis

lemma got_iff:
  assumes "chain_inv r fl" "f \<le> length (table r)" "i < length (table r)"
  shows "got r (Some (page_addr r f)) sz i \<longleftrightarrow> f \<le> i \<and> i < f + unat sz"
proof -
  have "unat (page_addr r f) = unat (paddr r) + f * 4096" "unat (page_addr r i) = unat (paddr r) + i * 4096"
    using unat_of_nat_page(3) [OF assms(1)] assms(2,3) by simp_all
  then show ?thesis
    by (auto simp: got_def)
qed

lemma got_None [simp]: "give h (got r None sz) = h"
  by (simp add: give_def got_def)

lemma page_held_alloc:
  assumes held: "page_held r fl h" and a: "ppage_alloc r = Some (err, p, r')"
  shows "\<exists>fl'. page_held r' fl' (give h (got r p 1))"
proof -
  note ch = page_held_chain [OF held]
  have nl: "\<not> lock r"
    using a by (auto simp: ppage_alloc_def lock_spin_def)
  show ?thesis
  proof (cases fl)
    case Nil
    then have "p = None" "r' = r"
      using a nl chain_free_count [OF ch] by (auto simp: ppage_alloc_def lock_spin_def lock_release_def)
    then show ?thesis
      using held by auto
  next
    case (Cons i fl')
    have h: "unat (free_head r) = i" and i: "i < length (table r)" and pos: "free_count r > 0"
      using ch chain_free_count [OF ch] Cons by (auto simp: chain_inv_def)
    have hi: "free_head r = of_nat i"
      using h by auto
    have fc: "unat (free_count r - 1) = unat (free_count r) - 1"
      using pos by (simp add: unat_pred word_gt_0)
    let ?r = "r\<lparr>free_head := VMEM_PPAGE_VALUE (table r ! i), table := (table r)[i := 1],
                free_count := free_count r - 1, lock := False\<rparr>"
    have "ppage_alloc r = Some (0, Some (page_addr r i), ?r)"
      using nl pos h i
      by (simp add: ppage_alloc_def lock_spin_def table_get_def table_set_def lock_release_def page_addr_def hi)
    then have p: "p = Some (page_addr r i)" "r' = ?r"
      using a by simp_all
    have "chain_inv ?r fl'"
      using ch i fc Cons by (auto simp: chain_inv_def free_chain_upd)
    moreover have "i \<notin> set fl'"
      using ch Cons by (simp add: chain_inv_def)
    ultimately have "page_held ?r fl' (h(i := 1))"
      using held i Cons by (auto simp: page_held_def nth_list_update)
    then have "page_held ?r fl' (give h (got r p 1))"
      using held i Cons got_iff [OF ch less_imp_le [OF i], of _ 1] p(1)
      by (elim page_held_cong) (auto simp: give_def page_held_def)
    then show ?thesis
      unfolding p(2) by blast
  qed
qed

lemma page_held_refnew:
  assumes held: "page_held r fl h" and i: "i < length (table r)" "0 < h i" "h i < 2 ^ 31 - 1"
    and a: "ppage_refnew r (page_addr r i) = Some (p, r')"
  shows "page_held r' fl (h(i := h i + 1))"
proof -
  note ch = page_held_chain [OF held]
  have fl: "i \<notin> set fl"
    using held i by (auto simp: page_held_def)
  note t = page_held_in [OF held i(1) fl]
  have u: "unat (table r ! i + 1) = h i + 1"
    using t i by (subst unat_add_small) auto
  have "r' = r\<lparr>table := (table r)[i := table r ! i + 1], lock := False\<rparr>"
    using a page_index [OF ch i(1)] t i
    by (auto simp: ppage_refnew_def lock_spin_def table_get_def table_set_def lock_release_def Let_def split: if_splits)
  moreover have "chain_inv (r\<lparr>table := (table r)[i := table r ! i + 1], lock := False\<rparr>) fl"
    using ch fl by (simp add: chain_inv_def free_chain_upd)
  ultimately show ?thesis
    using held i u fl by (auto simp: page_held_def nth_list_update)
qed

lemma page_held_refdrop:
  assumes held: "page_held r fl h" and i: "i < length (table r)" "0 < h i"
    and a: "ppage_refdrop r (page_addr r i) = Some r'"
  shows "\<exists>fl'. page_held r' fl' (h(i := h i - 1))"
proof -
  note ch = page_held_chain [OF held]
  have fl: "i \<notin> set fl"
    using held i by (auto simp: page_held_def)
  note t = page_held_in [OF held i(1) fl]
  note pi = page_index [OF ch i(1)]
  note d = ppage_refdrop_def lock_spin_def table_get_def table_set_def lock_release_def Let_def
  have nl: "\<not> lock r" and pos: "0 < table r ! i"
    using a t by (auto simp: d word_less_nat_alt split: if_splits)
  have u: "unat (table r ! i - 1) = h i - 1"
    using pos t by (simp add: unat_pred word_gt_0)
  show ?thesis
  proof (cases "h i = 1")
    case True
    let ?r = "r\<lparr>table := (table r)[i := VMEM_PPAGE_SET 1 (free_head r)], lock := False,
                free_head := (page_addr r i - paddr r) div MMU_PAGESIZE, free_count := free_count r + 1\<rparr>"
    have z: "table r ! i = 1"
      using t(3) True by (simp add: word_unat_eq_iff)
    have fc: "unat (free_count r + 1) = unat (free_count r) + 1"
      using chain_inv_length [OF ch] ch chain_inv_count [OF ch] by (subst unat_add_small) (auto simp: chain_inv_def)
    have hd: "free_chain (table r) (VMEM_PPAGE_VALUE (VMEM_PPAGE_SET 1 (free_head r))) fl"
    proof (cases fl)
      case (Cons j js)
      then have "unat (free_head r) < 2 ^ 31"
        using ch chain_inv_count [OF ch] by (auto simp: chain_inv_def)
      then show ?thesis
        using ch by (simp add: VALUE_SET_1 chain_inv_def)
    qed simp
    have "r' = ?r"
      using a pi t(4) pos nl i z by (auto simp: d)
    moreover have "chain_inv ?r (i # fl)"
      using ch i hd fc pi(2) fl by (simp add: chain_inv_def free_chain_upd)
    ultimately have "page_held r' (i # fl) (h(i := h i - 1))"
      using held i True by (auto simp: page_held_def nth_list_update)
    then show ?thesis
      by blast
  next
    case False
    then have "table r ! i - 1 \<noteq> 0"
      using u i(2) by (metis One_nat_def Suc_pred diff_is_0_eq' le_less_Suc_eq unat_0 not_less_eq_eq order_refl zero_less_diff less_one)
    then have "r' = r\<lparr>table := (table r)[i := table r ! i - 1], lock := False\<rparr>"
      using a pi t(4) pos nl i by (simp add: d)
    moreover have "chain_inv (r\<lparr>table := (table r)[i := table r ! i - 1], lock := False\<rparr>) fl"
      using ch fl by (simp add: chain_inv_def free_chain_upd)
    ultimately have "page_held r' fl (h(i := h i - 1))"
      using held i u fl False t by (auto simp: page_held_def nth_list_update)
    then show ?thesis
      by blast
  qed
qed

text \<open>A run of pages that have the free flag is taken out of the free list.\<close>

lemma page_held_unlink:
  assumes held: "page_held r fl h" and run: "free_run r sz (unat first)"
  shows "\<exists>hd t fl'. unlink_loop (r\<lparr>lock := True\<rparr>) FreeHead first sz 0 = Some (r\<lparr>lock := True, free_head := hd, table := t\<rparr>)
     \<and> page_held (r\<lparr>lock := False, free_head := hd, table := t, free_count := free_count r - sz\<rparr>) fl' (give h (in_range first sz))"
proof -
  note ch = page_held_chain [OF held]
  have bound: "unat first + unat sz \<le> length (table r)"
    using run by (simp add: free_run_def)
  have sub: "j \<in> set fl" if "in_range first sz j" for j
    using page_held_in(4) [OF held, of j] run that by (auto simp: free_run_def in_range_def)
  obtain hd t where u: "unlink_loop (r\<lparr>lock := True\<rparr>) FreeHead first sz 0 = Some (r\<lparr>lock := True, free_head := hd, table := t\<rparr>)"
    and ch': "chain_inv (r\<lparr>lock := False, free_head := hd, table := t, free_count := free_count r - sz\<rparr>)
         (filter (\<lambda>j. \<not> in_range first sz j) fl)"
    and t: "\<forall>j. in_range first sz j \<longrightarrow> t ! j = 1" "\<forall>j. j \<notin> set fl \<longrightarrow> t ! j = table r ! j"
    using unlink_range_chain [OF ch bound sub] by blast
  have "length t = length (table r)"
    using ch ch' by (simp add: chain_inv_def)
  then have "page_held (r\<lparr>lock := False, free_head := hd, table := t, free_count := free_count r - sz\<rparr>)
      (filter (\<lambda>j. \<not> in_range first sz j) fl) (give h (in_range first sz))"
    using held ch' t sub by (auto simp: page_held_def give_def)
  with u show ?thesis
    by blast
qed

lemma page_held_lock [simp]: "page_held (r\<lparr>lock := b\<rparr>) fl h = page_held r fl h"
  by (simp add: page_held_def chain_inv_def)

lemma page_held_contiguous:
  assumes held: "page_held r fl h" and a: "ppage_contiguous_alloc r sz = Some (err, p, r')"
  shows "\<exists>fl'. page_held r' fl' (give h (got r p sz))"
proof (cases "sz > free_count r")
  case True
  then show ?thesis
    using a held by (auto simp: ppage_contiguous_alloc_def)
next
  case False
  note ch = page_held_chain [OF held]
  let ?r = "r\<lparr>lock := True\<rparr>"
  have nl: "\<not> lock r"
    using a False by (auto simp: ppage_contiguous_alloc_def lock_spin_def)
  then obtain found where s: "search_loop ?r sz 0 0 = Some found"
    using a False by (cases "search_loop ?r sz 0 0") (auto simp: ppage_contiguous_alloc_def lock_spin_def)
  show ?thesis
  proof (cases found)
    case None
    then have "p = None" "r' = ?r"
      using a False nl s by (simp_all add: ppage_contiguous_alloc_def lock_spin_def)
    then show ?thesis
      using held by auto
  next
    case (Some f)
    have "unat sz < 2 ^ 20"
      using False chain_inv_length [OF ch] chain_inv_count [OF ch] ch
      by (simp add: chain_inv_def word_less_nat_alt)
    then have run: "free_run r sz (unat f)"
      using search_loop_sound [of ?r sz 0 0 f] s Some ch chain_inv_count [OF ch]
      by (simp add: chain_inv_def free_run_def)
    obtain hd t fl' where u: "unlink_loop ?r FreeHead f sz 0 = Some (r\<lparr>lock := True, free_head := hd, table := t\<rparr>)"
      and held': "page_held (r\<lparr>lock := False, free_head := hd, table := t, free_count := free_count r - sz\<rparr>) fl' (give h (in_range f sz))"
      using page_held_unlink [OF held run] by blast
    have p: "p = Some (page_addr r (unat f))"
      "r' = r\<lparr>lock := False, free_head := hd, table := t, free_count := free_count r - sz\<rparr>"
      using a False nl s Some u by (auto simp: ppage_contiguous_alloc_def lock_spin_def lock_release_def page_addr_def)
    have "length t = length (table r)"
      using ch page_held_chain [OF held'] by (simp add: chain_inv_def)
    then have "page_held r' fl' (give h (got r p sz))"
      using held' got_iff [OF ch, of "unat f" _ sz] run unfolding p
      by (elim page_held_cong) (auto simp: give_def in_range_def free_run_def)
    then show ?thesis
      by blast
  qed
qed

lemma page_held_reserve:
  assumes held: "page_held r fl h" and p: "unat p + unat n \<le> length (table r)" "0 < n"
    and a: "ppage_reserve r (page_addr r (unat p)) (page_addr r (unat p + unat n)) = Some (err, r')"
  shows "\<exists>fl'. page_held r' fl' (give h (\<lambda>i. err = 0 \<and> in_range p n i))"
proof -
  have nl: "\<not> lock r"
    using a by (auto simp: ppage_reserve_def lock_spin_def Let_def split: if_splits)
  note e = ppage_reserve_pages [OF page_held_chain [OF held] nl p]
  show ?thesis
  proof (cases "free_run r n (unat p)")
    case True
    obtain hd t fl' where u: "unlink_loop (r\<lparr>lock := True\<rparr>) FreeHead p n 0 = Some (r\<lparr>lock := True, free_head := hd, table := t\<rparr>)"
      and held': "page_held (r\<lparr>lock := False, free_head := hd, table := t, free_count := free_count r - n\<rparr>) fl' (give h (in_range p n))"
      using page_held_unlink [OF held True] by blast
    have "err = 0" "r' = r\<lparr>lock := False, free_head := hd, table := t, free_count := free_count r - n\<rparr>"
      using a e u True by (auto simp: lock_release_def)
    with held' show ?thesis
      by auto
  next
    case False
    then have "err \<noteq> 0" "r' = r"
      using a e by (auto simp: ENOMEM_def)
    then show ?thesis
      using held by (auto simp: give_def)
  qed
qed

lemma page_reach_held: "page_reach r h \<Longrightarrow> \<exists>fl. page_held r fl h"
proof (induction rule: page_reach.induct)
  case (init pa pa_end r)
  then have "page_inv r [0..<unat (count r)]"
    using ppage_region_init_inv [OF init(1)] by auto
  then show ?case
    using chain_inv_def [of r "[0..<unat (count r)]"] by (auto simp: page_held_def page_inv_def)
next
  case alloc
  then show ?case
    using page_held_alloc by blast
next
  case contiguous
  then show ?case
    using page_held_contiguous by blast
next
  case (reserve r h p n err r')
  then show ?case
    using page_held_reserve [OF _ reserve(2,3,4)] by blast
next
  case refnew
  then show ?case
    using page_held_refnew by blast
next
  case refdrop
  then show ?case
    using page_held_refdrop by blast
qed

text \<open>
  C15: in every state that a region reaches from its initialisation by any sequence of allocations of pages and of ranges, reservations of
  ranges, and references taken and dropped by callers that hold one, successful or not: the free list links distinct pages of
  the table, exactly those on which no caller has a reference, \<^verbatim>\<open>free_count\<close> is their number, and the entry of every other page is the
  number of references that callers have on it.  In particular no page is given to a caller while another one has it.
  The lock is not part of the statement, since a failed contiguous allocation keeps it.
\<close>

theorem page_reach_well_formed:
  assumes "page_reach r h"
  shows "\<exists>fl. chain_inv r fl \<and> set fl = {i. i < length (table r) \<and> h i = 0}
    \<and> unat (free_count r) = card {i. i < length (table r) \<and> h i = 0}
    \<and> (\<forall>i < length (table r). 0 < h i \<longrightarrow> \<not> VMEM_PPAGE_ISFREE (table r ! i) \<and> unat (table r ! i) = h i)"
proof -
  obtain fl where fl: "page_held r fl h"
    using page_reach_held [OF assms] by blast
  then have ch: "chain_inv r fl"
    by (rule page_held_chain)
  then have "unat (free_count r) = card (set fl)"
    by (simp add: chain_inv_def distinct_card)
  moreover have mem: "i \<in> set fl \<longleftrightarrow> i < length (table r) \<and> h i = 0" for i
    using page_held_in(1) [OF fl, of i] fl chain_inv_bound [OF ch, of i] unfolding page_held_def by (metis less_irrefl)
  then have "set fl = {i. i < length (table r) \<and> h i = 0}"
    by blast
  moreover have "\<forall>i < length (table r). 0 < h i \<longrightarrow> \<not> VMEM_PPAGE_ISFREE (table r ! i) \<and> unat (table r ! i) = h i"
    using page_held_in(3,4) [OF fl] mem by simp
  ultimately show ?thesis
    using ch by auto
qed

text \<open>Four pages: the second is reserved, the third and the fourth are allocated as a range, and the first is allocated.\<close>

theorem page_reach_well_formed_witness:
  "\<exists>r h. page_reach r h \<and> table r = [1, 1, 1, 1] \<and> free_count r = 0 \<and> (\<forall>i \<in> {0, 1, 2, 3}. h i = 1)"
proof -
  let ?r1 = "region_4\<lparr>free_count := 3, table := [2, 1, 0x80000003, 0x80000000]\<rparr>"
  let ?r2 = "region_4\<lparr>free_count := 1, table := [0, 1, 1, 1]\<rparr>"
  let ?r3 = "region_4\<lparr>free_count := 0, table := [1, 1, 1, 1]\<rparr>"
  have "[0..<4] = [0, 1, 2, 3 :: nat]"
    by (simp add: upt_rec)
  then have "ppage_region_init True True 0x1000 0x5000 = Some (0, Some region_4)"
    by (simp add: ppage_region_init_def region_4_def page_eval VMEM_PPAGE_SET_def)
  then have 0: "page_reach region_4 (\<lambda>_. 0)"
    by (rule page_reach.init [rotated]) (simp add: page_eval)
  have "ppage_reserve region_4 (page_addr region_4 1) (page_addr region_4 2) = Some (0, ?r1)"
    by (simp add: ppage_reserve_def page_addr_def region_4_def page_eval cong: bind_weak_cong)
  then have 1: "page_reach ?r1 (give (\<lambda>_. 0) (in_range 1 1))"
    using page_reach.reserve [OF 0, of 1 1 0 ?r1] by (simp add: region_4_def numeral_2_eq_2)
  have "ppage_contiguous_alloc ?r1 2 = Some (0, Some 0x3000, ?r2)"
    by (simp add: ppage_contiguous_alloc_def region_4_def page_eval cong: bind_weak_cong)
  note 2 = page_reach.contiguous [OF 1 this]
  have "ppage_alloc ?r2 = Some (0, Some 0x1000, ?r3)"
    by (simp add: ppage_alloc_def region_4_def page_eval VMEM_PPAGE_SET_def)
  then obtain h where 3: "page_reach ?r3 h"
    using page_reach.alloc [OF 2] by blast
  have t: "table ?r3 = replicate 4 1" "length (table ?r3) = 4" "unat (free_count ?r3) = 0"
    by (simp_all add: numeral_eq_Suc)
  have "card {i. i < 4 \<and> h i = 0} = 0" "\<forall>i < 4. 0 < h i \<longrightarrow> unat (table ?r3 ! i) = h i"
    using page_reach_well_formed [OF 3] unfolding t(2,3) by auto
  then have "h i = 1" if "i < 4" for i
    using that unfolding t(1) by (auto simp: card_eq_0_iff)
  with 3 show ?thesis
    by (intro exI [of _ ?r3] exI [of _ h]) simp
qed

end
