(* ===== verification/Crc32.thy ===== *)
theory Crc32
  imports Endian
begin

text \<open>
  \<^verbatim>\<open>libcrypto/crc32.c\<close>: the CRC-32 hash in its two builds, the bitwise \<open>crypto_crc32_update_small\<close>
  (\<^verbatim>\<open>CONFIG_LIBCRYPTO_CRC32_SMALL\<close>) and the table driven \<open>crypto_crc32_update\<close>, with \<open>init\<close> and \<open>get\<close>.
  The two updates are shown to compute the same function.
\<close>

section \<open>Operations\<close>

record crypto_crc32_ctx_s =
  crc :: u32

text \<open>One turn of the inner loop of the bitwise version, on \<open>(crc, w)\<close>.\<close>

definition crc_bit :: "u32 \<times> u32 \<Rightarrow> u32 \<times> u32" where
  "crc_bit = (\<lambda>(c, w). (push_bit 1 c XOR (0x04c11db7 AND NOT (drop_bit 31 (w XOR c) - 1)), push_bit 1 w))"

definition crc_byte :: "u32 \<Rightarrow> u8 \<Rightarrow> u32" where
  "crc_byte c b = fst ((crc_bit ^^ 8) (c, push_bit 24 (ucast b)))"

definition crypto_crc32_update_small :: "crypto_crc32_ctx_s \<Rightarrow> bytes \<Rightarrow> crypto_crc32_ctx_s" where
  "crypto_crc32_update_small ctx data = ctx\<lparr>crc := foldl crc_byte (crc ctx) data\<rparr>"

definition crc_be_data :: "u32 list" where
  "crc_be_data = [
     0x00000000, 0x04c11db7, 0x09823b6e, 0x0d4326d9, 0x130476dc, 0x17c56b6b, 0x1a864db2, 0x1e475005,
     0x2608edb8, 0x22c9f00f, 0x2f8ad6d6, 0x2b4bcb61, 0x350c9b64, 0x31cd86d3, 0x3c8ea00a, 0x384fbdbd,
     0x4c11db70, 0x48d0c6c7, 0x4593e01e, 0x4152fda9, 0x5f15adac, 0x5bd4b01b, 0x569796c2, 0x52568b75,
     0x6a1936c8, 0x6ed82b7f, 0x639b0da6, 0x675a1011, 0x791d4014, 0x7ddc5da3, 0x709f7b7a, 0x745e66cd,
     0x9823b6e0, 0x9ce2ab57, 0x91a18d8e, 0x95609039, 0x8b27c03c, 0x8fe6dd8b, 0x82a5fb52, 0x8664e6e5,
     0xbe2b5b58, 0xbaea46ef, 0xb7a96036, 0xb3687d81, 0xad2f2d84, 0xa9ee3033, 0xa4ad16ea, 0xa06c0b5d,
     0xd4326d90, 0xd0f37027, 0xddb056fe, 0xd9714b49, 0xc7361b4c, 0xc3f706fb, 0xceb42022, 0xca753d95,
     0xf23a8028, 0xf6fb9d9f, 0xfbb8bb46, 0xff79a6f1, 0xe13ef6f4, 0xe5ffeb43, 0xe8bccd9a, 0xec7dd02d,
     0x34867077, 0x30476dc0, 0x3d044b19, 0x39c556ae, 0x278206ab, 0x23431b1c, 0x2e003dc5, 0x2ac12072,
     0x128e9dcf, 0x164f8078, 0x1b0ca6a1, 0x1fcdbb16, 0x018aeb13, 0x054bf6a4, 0x0808d07d, 0x0cc9cdca,
     0x7897ab07, 0x7c56b6b0, 0x71159069, 0x75d48dde, 0x6b93dddb, 0x6f52c06c, 0x6211e6b5, 0x66d0fb02,
     0x5e9f46bf, 0x5a5e5b08, 0x571d7dd1, 0x53dc6066, 0x4d9b3063, 0x495a2dd4, 0x44190b0d, 0x40d816ba,
     0xaca5c697, 0xa864db20, 0xa527fdf9, 0xa1e6e04e, 0xbfa1b04b, 0xbb60adfc, 0xb6238b25, 0xb2e29692,
     0x8aad2b2f, 0x8e6c3698, 0x832f1041, 0x87ee0df6, 0x99a95df3, 0x9d684044, 0x902b669d, 0x94ea7b2a,
     0xe0b41de7, 0xe4750050, 0xe9362689, 0xedf73b3e, 0xf3b06b3b, 0xf771768c, 0xfa325055, 0xfef34de2,
     0xc6bcf05f, 0xc27dede8, 0xcf3ecb31, 0xcbffd686, 0xd5b88683, 0xd1799b34, 0xdc3abded, 0xd8fba05a,
     0x690ce0ee, 0x6dcdfd59, 0x608edb80, 0x644fc637, 0x7a089632, 0x7ec98b85, 0x738aad5c, 0x774bb0eb,
     0x4f040d56, 0x4bc510e1, 0x46863638, 0x42472b8f, 0x5c007b8a, 0x58c1663d, 0x558240e4, 0x51435d53,
     0x251d3b9e, 0x21dc2629, 0x2c9f00f0, 0x285e1d47, 0x36194d42, 0x32d850f5, 0x3f9b762c, 0x3b5a6b9b,
     0x0315d626, 0x07d4cb91, 0x0a97ed48, 0x0e56f0ff, 0x1011a0fa, 0x14d0bd4d, 0x19939b94, 0x1d528623,
     0xf12f560e, 0xf5ee4bb9, 0xf8ad6d60, 0xfc6c70d7, 0xe22b20d2, 0xe6ea3d65, 0xeba91bbc, 0xef68060b,
     0xd727bbb6, 0xd3e6a601, 0xdea580d8, 0xda649d6f, 0xc423cd6a, 0xc0e2d0dd, 0xcda1f604, 0xc960ebb3,
     0xbd3e8d7e, 0xb9ff90c9, 0xb4bcb610, 0xb07daba7, 0xae3afba2, 0xaafbe615, 0xa7b8c0cc, 0xa379dd7b,
     0x9b3660c6, 0x9ff77d71, 0x92b45ba8, 0x9675461f, 0x8832161a, 0x8cf30bad, 0x81b02d74, 0x857130c3,
     0x5d8a9099, 0x594b8d2e, 0x5408abf7, 0x50c9b640, 0x4e8ee645, 0x4a4ffbf2, 0x470cdd2b, 0x43cdc09c,
     0x7b827d21, 0x7f436096, 0x7200464f, 0x76c15bf8, 0x68860bfd, 0x6c47164a, 0x61043093, 0x65c52d24,
     0x119b4be9, 0x155a565e, 0x18197087, 0x1cd86d30, 0x029f3d35, 0x065e2082, 0x0b1d065b, 0x0fdc1bec,
     0x3793a651, 0x3352bbe6, 0x3e119d3f, 0x3ad08088, 0x2497d08d, 0x2056cd3a, 0x2d15ebe3, 0x29d4f654,
     0xc5a92679, 0xc1683bce, 0xcc2b1d17, 0xc8ea00a0, 0xd6ad50a5, 0xd26c4d12, 0xdf2f6bcb, 0xdbee767c,
     0xe3a1cbc1, 0xe760d676, 0xea23f0af, 0xeee2ed18, 0xf0a5bd1d, 0xf464a0aa, 0xf9278673, 0xfde69bc4,
     0x89b8fd09, 0x8d79e0be, 0x803ac667, 0x84fbdbd0, 0x9abc8bd5, 0x9e7d9662, 0x933eb0bb, 0x97ffad0c,
     0xafb010b1, 0xab710d06, 0xa6322bdf, 0xa2f33668, 0xbcb4666d, 0xb8757bda, 0xb5365d03, 0xb1f740b4]"

definition crc_table_step :: "u32 \<Rightarrow> u8 \<Rightarrow> u32" where
  "crc_table_step c b = push_bit 8 c XOR crc_be_data ! unat (b XOR ucast (drop_bit 24 c))"

definition crypto_crc32_update :: "crypto_crc32_ctx_s \<Rightarrow> bytes \<Rightarrow> crypto_crc32_ctx_s" where
  "crypto_crc32_update ctx data = ctx\<lparr>crc := foldl crc_table_step (crc ctx) data\<rparr>"

definition crypto_crc32_init :: "crypto_crc32_ctx_s \<Rightarrow> crypto_crc32_ctx_s" where
  "crypto_crc32_init ctx = ctx\<lparr>crc := 0xffffffff\<rparr>"

definition crypto_crc32_get :: "crypto_crc32_ctx_s \<Rightarrow> mem \<Rightarrow> addr \<Rightarrow> mem" where
  "crypto_crc32_get ctx m hash = endian_be32_na_store m hash (NOT (crc ctx))"

section \<open>Lemmas\<close>

text \<open>
  The remainder that is added to the shifted register depends only on the XOR of the register and the
  data, \<open>z\<close>: \<open>crc_acc z k\<close> after \<open>k\<close> bits.
\<close>

primrec crc_acc :: "u32 \<Rightarrow> nat \<Rightarrow> u32" where
  "crc_acc z 0 = 0"
| "crc_acc z (Suc k) = push_bit 1 (crc_acc z k)
     XOR (if bit (push_bit k z XOR crc_acc z k) 31 then 0x04c11db7 else 0)"

definition crc_entry :: "nat \<Rightarrow> u32" where
  "crc_entry b = crc_acc (push_bit 24 (of_nat b)) 8"

lemma msb_mask: "(0x04c11db7 :: u32) AND NOT (drop_bit 31 x - 1) = (if bit x 31 then 0x04c11db7 else 0)"
proof -
  have "drop_bit 31 x = of_bool (bit x 31)"
  proof (rule bit_eqI)
    fix n
    show "bit (drop_bit 31 x) n \<longleftrightarrow> bit (of_bool (bit x 31) :: u32) n"
      by (cases n) (auto simp: bit_simps dest: bit_imp_le_length)
  qed
  then show ?thesis by simp
qed

lemma crc_bit_eq:
  "crc_bit (c, w) = (push_bit 1 c XOR (if bit (w XOR c) 31 then 0x04c11db7 else 0), push_bit 1 w)"
  by (simp only: crc_bit_def prod.case msb_mask)

lemma crc_bits: "(crc_bit ^^ k) (c, w) = (push_bit k c XOR crc_acc (w XOR c) k, push_bit k w)"
proof (induction k)
  case (Suc k)
  have "push_bit k w XOR (push_bit k c XOR crc_acc (w XOR c) k) = push_bit k (w XOR c) XOR crc_acc (w XOR c) k"
    by (simp only: push_bit_xor xor.assoc)
  then have "(crc_bit ^^ Suc k) (c, w)
    = (push_bit 1 (push_bit k c) XOR crc_acc (w XOR c) (Suc k), push_bit 1 (push_bit k w))"
    by (simp only: funpow.simps comp_apply Suc crc_bit_eq crc_acc.simps push_bit_xor xor.assoc)
  then show ?case
    by (simp only: push_bit_push_bit plus_1_eq_Suc)
qed (simp only: funpow.simps id_apply crc_acc.simps push_bit_of_0 push_bit_0_id id_apply xor.right_neutral)

lemma crc_acc_top:
  "k \<le> 8 \<Longrightarrow> crc_acc (push_bit 24 (drop_bit 24 z)) k = crc_acc z k"
proof (induction k)
  case (Suc k)
  then have "bit (push_bit k (push_bit 24 (drop_bit 24 z))) 31 = bit (push_bit k z) 31"
    by (auto simp: bit_simps)
  with Suc show ?case by (simp add: bit_simps)
qed simp

lemma crc_acc_xor: "crc_acc (x XOR y) k = crc_acc x k XOR crc_acc y k"
proof (induction k)
  case (Suc k)
  have "bit (push_bit k (x XOR y) XOR crc_acc (x XOR y) k) 31
    \<longleftrightarrow> bit (push_bit k x XOR crc_acc x k) 31 \<noteq> bit (push_bit k y XOR crc_acc y k) 31"
    by (auto simp: Suc push_bit_xor bit_xor_iff)
  then show ?case
    by (simp only: crc_acc.simps Suc push_bit_xor) (auto simp: ac_simps)
qed simp

lemma crc_entry_double:
  "map crc_entry [0..<2 ^ Suc n] = map crc_entry [0..<2 ^ n] @ map (\<lambda>v. v XOR crc_entry (2 ^ n)) (map crc_entry [0..<2 ^ n])"
proof -
  have "crc_entry (x + 2 ^ n) = crc_entry x XOR crc_entry (2 ^ n)" if "x < 2 ^ n" for x
  proof -
    have "x AND 2 ^ n = 0"
      using that by (simp add: and_exp_eq_0_iff_not_bit bit_iff_odd)
    then have "x + 2 ^ n = x XOR 2 ^ n"
      by (rule disjunctive_add_eq_xor)
    then show ?thesis
      by (simp only: crc_entry_def of_nat_xor_eq push_bit_xor crc_acc_xor)
  qed
  moreover have "[0..<2 ^ Suc n] = [0..<2 ^ n] @ map (\<lambda>i. i + 2 ^ n) [0..<2 ^ n :: nat]"
    by (simp add: map_add_upt mult_2 upt_add_eq_append [of 0 "2 ^ n" "2 ^ n", simplified])
  ultimately show ?thesis
    by (simp add: comp_def cong: map_cong)
qed

lemma crc_acc_8: "crc_acc z 8 = crc_acc z (Suc (Suc (Suc (Suc (Suc (Suc (Suc (Suc 0))))))))"
  by (simp only: eval_nat_numeral BitM.simps One_nat_def numeral_One)

lemma crc_entry_exp:
  "crc_entry 0 = 0" "crc_entry 1 = 0x04c11db7" "crc_entry 2 = 0x09823b6e" "crc_entry 4 = 0x130476dc"
  "crc_entry 8 = 0x2608edb8" "crc_entry 16 = 0x4c11db70" "crc_entry 32 = 0x9823b6e0"
  "crc_entry 64 = 0x34867077" "crc_entry 128 = 0x690ce0ee"
  by (simp_all add: crc_entry_def crc_acc_8)

lemma crc_be_data_entry: "map crc_entry [0..<256] = crc_be_data"
proof -
  define d where "d v xs = xs @ map (\<lambda>u. u XOR v) xs" for v :: u32 and xs
  have d: "map crc_entry [0..<2 ^ Suc n] = d (crc_entry (2 ^ n)) (map crc_entry [0..<2 ^ n])" for n
    unfolding d_def by (rule crc_entry_double)
  have "map crc_entry [0..<256] = d 0x690ce0ee (d 0x34867077 (d 0x9823b6e0 (d 0x4c11db70
      (d 0x2608edb8 (d 0x130476dc (d 0x09823b6e (d 0x04c11db7 [0])))))))"
    using d [of 7] d [of 6] d [of 5] d [of 4] d [of 3] d [of 2] d [of 1] d [of 0]
    by (simp add: crc_entry_exp crc_entry_exp(2) [unfolded One_nat_def])
  then show ?thesis
    by (simp add: d_def crc_be_data_def)
qed
lemma crc_table_step_byte: "crc_table_step c b = crc_byte c b"
proof -
  let ?z = "push_bit 24 (ucast b) XOR c" and ?i = "b XOR ucast (drop_bit 24 c)"
  have idx: "drop_bit 24 ?z = (ucast ?i :: u32)"
    by (rule bit_eqI) (auto simp: bit_simps dest: bit_imp_le_length)
  have "unat ?i < 256"
    using unat_lt2p [of ?i] by simp
  then have "crc_be_data ! unat ?i = crc_entry (unat ?i)"
    by (simp add: crc_be_data_entry [symmetric])
  also have "\<dots> = crc_acc (push_bit 24 (drop_bit 24 ?z)) 8"
    unfolding crc_entry_def idx by simp
  also have "\<dots> = crc_acc ?z 8"
    by (rule crc_acc_top) simp
  finally show ?thesis
    by (simp only: crc_table_step_def crc_byte_def crc_bits fst_conv)
qed

section \<open>Properties\<close>

text \<open>
  C17: the table driven update and the bitwise update are the same function: from any register value and on
  any data they leave the context with the same register.
\<close>

theorem crypto_crc32_update_equiv: "crypto_crc32_update ctx data = crypto_crc32_update_small ctx data"
proof -
  have "crc_table_step = crc_byte"
    by (intro ext) (rule crc_table_step_byte)
  then show ?thesis
    by (simp add: crypto_crc32_update_def crypto_crc32_update_small_def)
qed

end
