(* ===== verification/Arc4.thy ===== *)
theory Arc4
  imports Mutek_Prelude "HOL-Library.Multiset"
begin

text \<open>
  \<^verbatim>\<open>libcrypto/arc4.c\<close>: the ARC4 stream generator.  The state of the generator is the array of 256 bytes;
  it is shown to stay a permutation of the bytes, and the stream to be that of RC4, stated on numbers.
  The indices are \<^verbatim>\<open>uint_fast8_t\<close> variables that only ever hold values cast to \<^verbatim>\<open>uint8_t\<close>, except the counter
  of the key loop, which runs to 256 and is a natural number here.
\<close>

section \<open>Operations\<close>

definition ARC4_S_SIZE :: nat where
  "ARC4_S_SIZE = 256"

record crypto_arc4_ctx_s =
  state :: bytes

definition crypto_arc4_init :: "crypto_arc4_ctx_s \<Rightarrow> crypto_arc4_ctx_s" where
  "crypto_arc4_init ctx = ctx\<lparr>state := map of_nat [0..<ARC4_S_SIZE]\<rparr>"

text \<open>One turn of the key loop on \<open>(state, b)\<close>.\<close>

definition arc4_key_step :: "bytes \<Rightarrow> bytes \<times> u8 \<Rightarrow> nat \<Rightarrow> bytes \<times> u8" where
  "arc4_key_step key = (\<lambda>(s, b) a.
     let tmp = s ! a;
         b = b + tmp + key ! (a mod length key);
         s = s[a := s ! unat b];
         s = s[unat b := tmp]
     in (s, b))"

text \<open>An empty key is a division by 0.\<close>

definition crypto_arc4_update :: "crypto_arc4_ctx_s \<Rightarrow> bytes \<Rightarrow> crypto_arc4_ctx_s option" where
  "crypto_arc4_update ctx key =
     (if key = [] then None
      else Some (ctx\<lparr>state := fst (foldl (arc4_key_step key) (state ctx, 0) [0..<ARC4_S_SIZE])\<rparr>))"

text \<open>
  \<^verbatim>\<open>ARC4_PROCESS\<close>: \<open>f x k\<close> is the byte the assignment operator stores over \<open>x\<close>, \<open>None\<close> as data is the null pointer.
  A buffer shorter than the length is an access out of bounds, \<open>None\<close>.
\<close>

fun arc4_process :: "(u8 \<Rightarrow> u8 \<Rightarrow> u8) \<Rightarrow> bytes \<Rightarrow> u8 \<Rightarrow> u8 \<Rightarrow> nat \<Rightarrow> bytes option \<Rightarrow> (bytes \<times> bytes) option" where
  "arc4_process f s a b 0 data = Some ([], s)"
| "arc4_process f s a b (Suc n) data =
     (let a = a + 1;
          b = b + s ! unat a;
          tmp = s ! unat b;
          s = s[unat b := s ! unat a];
          s = s[unat a := tmp];
          k = s ! unat (s ! unat a + s ! unat b)
      in case data of
           None \<Rightarrow> arc4_process f s a b n None
         | Some [] \<Rightarrow> None
         | Some (x # xs) \<Rightarrow>
             map_option (\<lambda>(out, s). (f x k # out, s)) (arc4_process f s a b n (Some xs)))"

definition crypto_arc4_getstream ::
    "crypto_arc4_ctx_s \<Rightarrow> bytes option \<Rightarrow> nat \<Rightarrow> (bytes \<times> crypto_arc4_ctx_s) option" where
  "crypto_arc4_getstream ctx data data_len =
     map_option (\<lambda>(out, s). (out, ctx\<lparr>state := s\<rparr>)) (arc4_process (\<lambda>x k. k) (state ctx) 0 0 data_len data)"

definition crypto_arc4_xorstream ::
    "crypto_arc4_ctx_s \<Rightarrow> bytes option \<Rightarrow> nat \<Rightarrow> (bytes \<times> crypto_arc4_ctx_s) option" where
  "crypto_arc4_xorstream ctx data data_len =
     map_option (\<lambda>(out, s). (out, ctx\<lparr>state := s\<rparr>)) (arc4_process (XOR) (state ctx) 0 0 data_len data)"

section \<open>Lemmas\<close>

text \<open>The state is a permutation of the 256 bytes.\<close>

definition arc4_perm :: "bytes \<Rightarrow> bool" where
  "arc4_perm s \<longleftrightarrow> mset s = mset (map of_nat [0..<256])"

lemma arc4_perm_length: "arc4_perm s \<Longrightarrow> length s = 256"
  unfolding arc4_perm_def by (drule mset_eq_length) simp

lemma arc4_perm_swap:
  assumes "arc4_perm s" "i < 256" "j < 256"
  shows "arc4_perm (s[j := s ! i, i := s ! j])"
  using assms arc4_perm_length [OF assms(1)] by (simp add: arc4_perm_def mset_swap)

lemma unat_u8: "unat (x :: u8) < 256"
  using unat_lt2p [of x] by simp

lemma arc4_key_step_perm: "arc4_perm s \<Longrightarrow> a < 256 \<Longrightarrow> arc4_perm (fst (arc4_key_step key (s, b) a))"
  using arc4_perm_swap [of s _ a] by (simp add: arc4_key_step_def Let_def unat_u8)

lemma arc4_key_fold_perm:
  "arc4_perm s \<Longrightarrow> set as \<subseteq> {..<256} \<Longrightarrow> arc4_perm (fst (foldl (arc4_key_step key) (s, b) as))"
proof (induction as arbitrary: s b)
  case (Cons a as)
  then show ?case
    using arc4_key_step_perm [of s a key b] by (cases "arc4_key_step key (s, b) a") auto
qed simp

lemma arc4_process_perm:
  "arc4_perm s \<Longrightarrow> arc4_process f s a b n data = Some (out, s') \<Longrightarrow> arc4_perm s'"
proof (induction n arbitrary: s a b data out)
  case (Suc n)
  let ?a = "a + 1" let ?b = "b + s ! unat ?a"
  have p: "arc4_perm (s[unat ?b := s ! unat ?a, unat ?a := s ! unat ?b])"
    using arc4_perm_swap [OF Suc.prems(1)] by (simp add: unat_u8)
  from Suc.prems(2) show ?case
    by (auto simp: Let_def split: option.splits list.splits prod.splits intro: Suc.IH [OF p])
qed simp

subsection \<open>The cipher\<close>

text \<open>
  RC4 as it is usually given, on numbers: the permutation is a function on the numbers below 256, the key
  schedule mixes a key of numbers into the identity in 256 turns, and the generator gives a number for each turn.
\<close>

definition exchange :: "nat \<Rightarrow> nat \<Rightarrow> (nat \<Rightarrow> nat) \<Rightarrow> nat \<Rightarrow> nat" where
  "exchange i j S = S(i := S j, j := S i)"

fun rc4_ksa :: "nat list \<Rightarrow> nat \<Rightarrow> (nat \<Rightarrow> nat) \<times> nat" where
  "rc4_ksa key 0 = (\<lambda>i. i, 0)"
| "rc4_ksa key (Suc i) =
     (let (S, j) = rc4_ksa key i;
          j = (j + S i + key ! (i mod length key)) mod 256
      in (exchange i j S, j))"

fun rc4_prga :: "(nat \<Rightarrow> nat) \<Rightarrow> nat \<Rightarrow> nat \<Rightarrow> nat \<Rightarrow> nat list" where
  "rc4_prga S i j 0 = []"
| "rc4_prga S i j (Suc n) =
     (let i = (i + 1) mod 256;
          j = (j + S i) mod 256;
          S = exchange i j S
      in S ((S i + S j) mod 256) # rc4_prga S i j n)"

definition rc4 :: "nat list \<Rightarrow> nat \<Rightarrow> nat list" where
  "rc4 key n = rc4_prga (fst (rc4_ksa key 256)) 0 0 n"

text \<open>The array of the code and the function of the specification.\<close>

definition arc4_rel :: "bytes \<Rightarrow> (nat \<Rightarrow> nat) \<Rightarrow> bool" where
  "arc4_rel s S \<longleftrightarrow> length s = 256 \<and> (\<forall>i < 256. unat (s ! i) = S i)"

lemma unat_u8_add: "unat (x + y :: u8) = (unat x + unat y) mod 256"
  by (simp add: unat_word_ariths)

lemma arc4_rel_nth: "arc4_rel s S \<Longrightarrow> i < 256 \<Longrightarrow> unat (s ! i) = S i"
  by (simp add: arc4_rel_def)

lemma arc4_rel_exchange:
  "arc4_rel s S \<Longrightarrow> i < 256 \<Longrightarrow> j < 256 \<Longrightarrow> arc4_rel (s[i := s ! j, j := s ! i]) (exchange i j S)"
  by (auto simp: arc4_rel_def exchange_def nth_list_update)

lemma arc4_rel_key:
  fixes a b :: u8
  shows "arc4_rel s S \<Longrightarrow> unat (s ! unat (s ! unat a + s ! unat b)) = S ((S (unat a) + S (unat b)) mod 256)"
  by (simp add: arc4_rel_nth unat_u8 unat_u8_add)

lemma arc4_ksa:
  assumes "key \<noteq> []" "n \<le> 256" "arc4_rel s (\<lambda>i. i)"
  shows "case foldl (arc4_key_step key) (s, 0) [0..<n] of (s', b) \<Rightarrow>
     arc4_rel s' (fst (rc4_ksa (map unat key) n)) \<and> unat b = snd (rc4_ksa (map unat key) n)"
  using assms(2)
proof (induction n)
  case 0
  then show ?case
    using assms(3) by simp
next
  case (Suc n)
  obtain s' b where f: "foldl (arc4_key_step key) (s, 0) [0..<n] = (s', b)"
    by (rule prod.exhaust)
  obtain S j where S: "rc4_ksa (map unat key) n = (S, j)"
    by (rule prod.exhaust)
  have rel: "arc4_rel s' S" "unat b = j"
    using Suc f S by simp_all
  let ?b = "b + s' ! n + key ! (n mod length key)"
  have b: "unat ?b = (j + S n + map unat key ! (n mod length key)) mod 256"
    using rel(2) arc4_rel_nth [OF rel(1), of n] Suc(2) assms(1) by (simp add: unat_u8_add mod_add_left_eq)
  have "arc4_rel (s'[n := s' ! unat ?b, unat ?b := s' ! n]) (exchange n (unat ?b) S)"
    using Suc(2) by (intro arc4_rel_exchange [OF rel(1)]) (simp_all add: unat_u8)
  then show ?case
    using f S b by (simp add: arc4_key_step_def Let_def)
qed

lemma arc4_prga:
  assumes "arc4_rel s S" "unat a = i" "unat b = j"
  shows "\<exists>s'. (\<forall>f xs. length xs = n \<longrightarrow>
        arc4_process f s a b n (Some xs) = Some (map2 f xs (map of_nat (rc4_prga S i j n)), s'))
     \<and> (\<forall>f. arc4_process f s a b n None = Some ([], s'))"
  using assms
proof (induction n arbitrary: s S a b i j)
  case (Suc n)
  let ?a = "a + 1" let ?b = "b + s ! unat ?a"
  let ?i = "(i + 1) mod 256" let ?j = "(j + S ?i) mod 256"
  let ?s = "s[unat ?b := s ! unat ?a, unat ?a := s ! unat ?b]" and ?S = "exchange ?i ?j S"
  have a: "unat ?a = ?i"
    using Suc.prems(2) by (simp add: unat_u8_add)
  then have b: "unat ?b = ?j"
    using Suc.prems(3) arc4_rel_nth [OF Suc.prems(1), of ?i] by (simp add: unat_u8_add)
  have "exchange (unat ?b) (unat ?a) S = ?S"
    by (subst b, subst a) (auto simp: exchange_def)
  then have rel: "arc4_rel ?s ?S"
    using arc4_rel_exchange [OF Suc.prems(1) unat_u8 unat_u8, of ?b ?a] by (simp only:)
  let ?k = "?s ! unat (?s ! unat ?a + ?s ! unat ?b)"
  have "unat ?k = ?S ((?S (unat ?a) + ?S (unat ?b)) mod 256)"
    by (rule arc4_rel_key [OF rel])
  also have "\<dots> = ?S ((?S ?i + ?S ?j) mod 256)"
    by (subst b, subst a) (rule refl)
  finally have "unat ?k = ?S ((?S ?i + ?S ?j) mod 256)" .
  then have k: "?k = of_nat (?S ((?S ?i + ?S ?j) mod 256))"
    by (metis of_nat_unat ucast_id)
  obtain s' where some: "\<And>f xs. length xs = n \<Longrightarrow>
      arc4_process f ?s ?a ?b n (Some xs) = Some (map2 f xs (map of_nat (rc4_prga ?S ?i ?j n)), s')"
    and none: "\<And>f. arc4_process f ?s ?a ?b n None = Some ([], s')"
    using Suc.IH [OF rel a b] by blast
  have "arc4_process f s a b (Suc n) (Some xs) = Some (map2 f xs (?k # map of_nat (rc4_prga ?S ?i ?j n)), s')"
    if "length xs = Suc n" for f xs
    using that some by (cases xs) (auto simp: Let_def)
  moreover have "rc4_prga S i j (Suc n) = ?S ((?S ?i + ?S ?j) mod 256) # rc4_prga ?S ?i ?j n"
    by (simp add: Let_def)
  moreover have "arc4_process f s a b (Suc n) None = Some ([], s')" for f
    using none by (simp add: Let_def)
  ultimately show ?case
    unfolding k by (intro exI [of _ s']) simp
qed simp

lemma length_rc4_prga: "length (rc4_prga S i j n) = n"
  by (induction n arbitrary: S i j) (simp_all add: Let_def)

lemma length_rc4 [simp]: "length (rc4 key n) = n"
  by (simp add: rc4_def length_rc4_prga)

section \<open>Properties\<close>

text \<open>
  After initialisation and any number of key updates and stream extractions the state holds every byte
  exactly once: \<^verbatim>\<open>init\<close> gives a permutation, \<^verbatim>\<open>update\<close> with a non-empty key returns and keeps it, and so do
  \<^verbatim>\<open>getstream\<close> and \<^verbatim>\<open>xorstream\<close>, with the stream stored or discarded.
\<close>

theorem crypto_arc4_permutation:
  "arc4_perm (state (crypto_arc4_init ctx0))
   \<and> (arc4_perm (state ctx) \<and> key \<noteq> [] \<longrightarrow> (\<exists>ctx'. crypto_arc4_update ctx key = Some ctx' \<and> arc4_perm (state ctx')))
   \<and> (arc4_perm (state ctx) \<and> crypto_arc4_getstream ctx data n = Some (out, ctx') \<longrightarrow> arc4_perm (state ctx'))
   \<and> (arc4_perm (state ctx) \<and> crypto_arc4_xorstream ctx data n = Some (out, ctx') \<longrightarrow> arc4_perm (state ctx'))"
proof (intro conjI impI)
  show "arc4_perm (state (crypto_arc4_init ctx0))"
    by (simp add: arc4_perm_def crypto_arc4_init_def ARC4_S_SIZE_def)
  show "\<exists>ctx'. crypto_arc4_update ctx key = Some ctx' \<and> arc4_perm (state ctx')"
    if "arc4_perm (state ctx) \<and> key \<noteq> []"
    using that arc4_key_fold_perm [of "state ctx" "[0..<256]" key 0]
    by (simp add: crypto_arc4_update_def ARC4_S_SIZE_def lessThan_atLeast0)
qed (auto simp: crypto_arc4_getstream_def crypto_arc4_xorstream_def dest: arc4_process_perm)

text \<open>A context whose state is the identity, as \<^verbatim>\<open>init\<close> leaves it.\<close>

definition arc4_ctx0 :: crypto_arc4_ctx_s where
  "arc4_ctx0 = crypto_arc4_init \<lparr>state = []\<rparr>"

theorem crypto_arc4_permutation_witness:
  "arc4_perm (state arc4_ctx0)
   \<and> (\<exists>ctx'. crypto_arc4_update arc4_ctx0 [0x4b, 0x65, 0x79] = Some ctx' \<and> arc4_perm (state ctx'))"
  using crypto_arc4_permutation [of "\<lparr>state = []\<rparr>" arc4_ctx0 "[0x4b, 0x65, 0x79]"]
  by (simp add: arc4_ctx0_def)

text \<open>
  C31: After \<^verbatim>\<open>init\<close> and \<^verbatim>\<open>update\<close> with a key that is not empty, the code computes RC4: \<^verbatim>\<open>getstream\<close> on a buffer of any length stores the
  key stream that RC4 gives for the key, \<^verbatim>\<open>xorstream\<close> stores the XOR of the data and this key stream, and discarding the stream
  leaves the same state.  None of the calls fails.
\<close>

theorem crypto_arc4_is_rc4:
  assumes "key \<noteq> []" "length data = n"
  shows "\<exists>ctx1 ctx2. crypto_arc4_update (crypto_arc4_init ctx) key = Some ctx1
     \<and> crypto_arc4_getstream ctx1 (Some data) n = Some (map of_nat (rc4 (map unat key) n), ctx2)
     \<and> crypto_arc4_xorstream ctx1 (Some data) n = Some (map2 (XOR) data (map of_nat (rc4 (map unat key) n)), ctx2)
     \<and> crypto_arc4_getstream ctx1 None n = Some ([], ctx2)"
proof -
  let ?t = "state (crypto_arc4_init ctx)"
  let ?s = "fst (foldl (arc4_key_step key) (?t, 0) [0..<256])"
  let ?ks = "map of_nat (rc4 (map unat key) n) :: bytes"
  have "arc4_rel ?t (\<lambda>i. i)"
    by (simp add: arc4_rel_def crypto_arc4_init_def ARC4_S_SIZE_def unat_of_nat)
  then have "arc4_rel ?s (fst (rc4_ksa (map unat key) 256))"
    using arc4_ksa [OF assms(1), of 256 ?t] by (simp add: case_prod_beta)
  from arc4_prga [OF this, of 0 0 0 0 n]
  obtain s' where some: "\<And>f xs. length xs = n \<Longrightarrow> arc4_process f ?s 0 0 n (Some xs) = Some (map2 f xs ?ks, s')"
    and none: "\<And>f. arc4_process f ?s 0 0 n None = Some ([], s')"
    unfolding rc4_def by force
  have "map2 (\<lambda>x k. k) data ?ks = ?ks"
    using assms(2) by (intro nth_equalityI) auto
  then show ?thesis
    using assms
    by (intro exI [of _ "crypto_arc4_init ctx\<lparr>state := ?s\<rparr>"] exI [of _ "crypto_arc4_init ctx\<lparr>state := s'\<rparr>"])
      (simp add: crypto_arc4_update_def ARC4_S_SIZE_def crypto_arc4_xorstream_def crypto_arc4_getstream_def some none)
qed

theorem crypto_arc4_is_rc4_witness:
  "\<exists>ctx1 ctx2. crypto_arc4_update arc4_ctx0 [0x4b, 0x65, 0x79] = Some ctx1
     \<and> crypto_arc4_xorstream ctx1 (Some [0x50, 0x6c, 0x61]) 3 = Some (map2 (XOR) [0x50, 0x6c, 0x61] (map of_nat (rc4 [0x4b, 0x65, 0x79] 3)), ctx2)"
  using crypto_arc4_is_rc4 [of "[0x4b, 0x65, 0x79]" "[0x50, 0x6c, 0x61]" 3 "\<lparr>state = []\<rparr>"]
  by (auto simp: arc4_ctx0_def)

text \<open>
  The indices of the generator are local to a call and start again from 0: two bytes taken in two calls
  from the initial state are not the two bytes one call gives, so the stream cannot be taken in pieces.
\<close>

theorem crypto_arc4_stream_restarts:
  "\<exists>ctx1 ctx2 ctx'. crypto_arc4_getstream arc4_ctx0 (Some [0, 0]) 2 = Some ([2, 5], ctx')
     \<and> crypto_arc4_getstream arc4_ctx0 (Some [0]) 1 = Some ([2], ctx1)
     \<and> crypto_arc4_getstream ctx1 (Some [0]) 1 = Some ([2], ctx2)"
proof -
  have s: "state arc4_ctx0 = map of_nat [0..<256]"
    by (simp add: arc4_ctx0_def crypto_arc4_init_def ARC4_S_SIZE_def)
  have 2: "(2 :: nat) = Suc (Suc 0)"
    by simp
  show ?thesis
    unfolding crypto_arc4_getstream_def s 2 One_nat_def
    by (simp add: Let_def nth_list_update)
qed

end
