(* ===== verification/Md5.thy ===== *)
theory Md5
  imports Endian
begin

text \<open>
  \<^verbatim>\<open>libcrypto/md5.c\<close> for a little endian processor, where \<^verbatim>\<open>md5_byte_reverse\<close> is not compiled: the block
  transformation, unrolled as in the source, and the three functions of the hash interface on the
  context with its 64 byte buffer.  The unrolled transformation is shown equal to the tables of
  RFC 1321, and the streaming interface to compute the padded hash of the whole message.
\<close>

section \<open>Operations\<close>

definition F1 :: "u32 \<Rightarrow> u32 \<Rightarrow> u32 \<Rightarrow> u32" where
  "F1 x y z = z XOR (x AND (y XOR z))"

definition F2 :: "u32 \<Rightarrow> u32 \<Rightarrow> u32 \<Rightarrow> u32" where
  "F2 x y z = F1 z x y"

definition F3 :: "u32 \<Rightarrow> u32 \<Rightarrow> u32 \<Rightarrow> u32" where
  "F3 x y z = x XOR y XOR z"

definition F4 :: "u32 \<Rightarrow> u32 \<Rightarrow> u32 \<Rightarrow> u32" where
  "F4 x y z = y XOR (x OR NOT z)"

text \<open>\<^verbatim>\<open>MD5STEP\<close> as the new value of its variable \<open>w\<close>.\<close>

definition MD5STEP :: "(u32 \<Rightarrow> u32 \<Rightarrow> u32 \<Rightarrow> u32) \<Rightarrow> u32 \<Rightarrow> u32 \<Rightarrow> u32 \<Rightarrow> u32 \<Rightarrow> u32 \<Rightarrow> nat \<Rightarrow> u32" where
  "MD5STEP f w x y z data s =
     (let w = w + (f x y z + data);
          w = push_bit s w OR drop_bit (32 - s) w
      in w + x)"

definition md5_transform :: "u32 list \<Rightarrow> u32 list \<Rightarrow> u32 list" where
  "md5_transform buf inn =
     (let
       a = buf ! 0;
       b = buf ! 1;
       c = buf ! 2;
       d = buf ! 3;
       a = MD5STEP F1 a b c d (inn ! 0 + 0xd76aa478) 7;
       d = MD5STEP F1 d a b c (inn ! 1 + 0xe8c7b756) 12;
       c = MD5STEP F1 c d a b (inn ! 2 + 0x242070db) 17;
       b = MD5STEP F1 b c d a (inn ! 3 + 0xc1bdceee) 22;
       a = MD5STEP F1 a b c d (inn ! 4 + 0xf57c0faf) 7;
       d = MD5STEP F1 d a b c (inn ! 5 + 0x4787c62a) 12;
       c = MD5STEP F1 c d a b (inn ! 6 + 0xa8304613) 17;
       b = MD5STEP F1 b c d a (inn ! 7 + 0xfd469501) 22;
       a = MD5STEP F1 a b c d (inn ! 8 + 0x698098d8) 7;
       d = MD5STEP F1 d a b c (inn ! 9 + 0x8b44f7af) 12;
       c = MD5STEP F1 c d a b (inn ! 10 + 0xffff5bb1) 17;
       b = MD5STEP F1 b c d a (inn ! 11 + 0x895cd7be) 22;
       a = MD5STEP F1 a b c d (inn ! 12 + 0x6b901122) 7;
       d = MD5STEP F1 d a b c (inn ! 13 + 0xfd987193) 12;
       c = MD5STEP F1 c d a b (inn ! 14 + 0xa679438e) 17;
       b = MD5STEP F1 b c d a (inn ! 15 + 0x49b40821) 22;
       a = MD5STEP F2 a b c d (inn ! 1 + 0xf61e2562) 5;
       d = MD5STEP F2 d a b c (inn ! 6 + 0xc040b340) 9;
       c = MD5STEP F2 c d a b (inn ! 11 + 0x265e5a51) 14;
       b = MD5STEP F2 b c d a (inn ! 0 + 0xe9b6c7aa) 20;
       a = MD5STEP F2 a b c d (inn ! 5 + 0xd62f105d) 5;
       d = MD5STEP F2 d a b c (inn ! 10 + 0x02441453) 9;
       c = MD5STEP F2 c d a b (inn ! 15 + 0xd8a1e681) 14;
       b = MD5STEP F2 b c d a (inn ! 4 + 0xe7d3fbc8) 20;
       a = MD5STEP F2 a b c d (inn ! 9 + 0x21e1cde6) 5;
       d = MD5STEP F2 d a b c (inn ! 14 + 0xc33707d6) 9;
       c = MD5STEP F2 c d a b (inn ! 3 + 0xf4d50d87) 14;
       b = MD5STEP F2 b c d a (inn ! 8 + 0x455a14ed) 20;
       a = MD5STEP F2 a b c d (inn ! 13 + 0xa9e3e905) 5;
       d = MD5STEP F2 d a b c (inn ! 2 + 0xfcefa3f8) 9;
       c = MD5STEP F2 c d a b (inn ! 7 + 0x676f02d9) 14;
       b = MD5STEP F2 b c d a (inn ! 12 + 0x8d2a4c8a) 20;
       a = MD5STEP F3 a b c d (inn ! 5 + 0xfffa3942) 4;
       d = MD5STEP F3 d a b c (inn ! 8 + 0x8771f681) 11;
       c = MD5STEP F3 c d a b (inn ! 11 + 0x6d9d6122) 16;
       b = MD5STEP F3 b c d a (inn ! 14 + 0xfde5380c) 23;
       a = MD5STEP F3 a b c d (inn ! 1 + 0xa4beea44) 4;
       d = MD5STEP F3 d a b c (inn ! 4 + 0x4bdecfa9) 11;
       c = MD5STEP F3 c d a b (inn ! 7 + 0xf6bb4b60) 16;
       b = MD5STEP F3 b c d a (inn ! 10 + 0xbebfbc70) 23;
       a = MD5STEP F3 a b c d (inn ! 13 + 0x289b7ec6) 4;
       d = MD5STEP F3 d a b c (inn ! 0 + 0xeaa127fa) 11;
       c = MD5STEP F3 c d a b (inn ! 3 + 0xd4ef3085) 16;
       b = MD5STEP F3 b c d a (inn ! 6 + 0x04881d05) 23;
       a = MD5STEP F3 a b c d (inn ! 9 + 0xd9d4d039) 4;
       d = MD5STEP F3 d a b c (inn ! 12 + 0xe6db99e5) 11;
       c = MD5STEP F3 c d a b (inn ! 15 + 0x1fa27cf8) 16;
       b = MD5STEP F3 b c d a (inn ! 2 + 0xc4ac5665) 23;
       a = MD5STEP F4 a b c d (inn ! 0 + 0xf4292244) 6;
       d = MD5STEP F4 d a b c (inn ! 7 + 0x432aff97) 10;
       c = MD5STEP F4 c d a b (inn ! 14 + 0xab9423a7) 15;
       b = MD5STEP F4 b c d a (inn ! 5 + 0xfc93a039) 21;
       a = MD5STEP F4 a b c d (inn ! 12 + 0x655b59c3) 6;
       d = MD5STEP F4 d a b c (inn ! 3 + 0x8f0ccc92) 10;
       c = MD5STEP F4 c d a b (inn ! 10 + 0xffeff47d) 15;
       b = MD5STEP F4 b c d a (inn ! 1 + 0x85845dd1) 21;
       a = MD5STEP F4 a b c d (inn ! 8 + 0x6fa87e4f) 6;
       d = MD5STEP F4 d a b c (inn ! 15 + 0xfe2ce6e0) 10;
       c = MD5STEP F4 c d a b (inn ! 6 + 0xa3014314) 15;
       b = MD5STEP F4 b c d a (inn ! 13 + 0x4e0811a1) 21;
       a = MD5STEP F4 a b c d (inn ! 4 + 0xf7537e82) 6;
       d = MD5STEP F4 d a b c (inn ! 11 + 0xbd3af235) 10;
       c = MD5STEP F4 c d a b (inn ! 2 + 0x2ad7d2bb) 15;
       b = MD5STEP F4 b c d a (inn ! 9 + 0xeb86d391) 21
      in [buf ! 0 + a, buf ! 1 + b, buf ! 2 + c, buf ! 3 + d])"

record crypto_md5_ctx_s =
  buf :: "u32 list"
  bits0 :: u32
  bits1 :: u32
  inb :: bytes

text \<open>The buffer read as sixteen little endian words, and \<^verbatim>\<open>memcpy\<close> and \<^verbatim>\<open>memset\<close> into it.\<close>

definition le_word :: "bytes \<Rightarrow> u32" where
  "le_word bs = ucast (bs ! 0) OR push_bit 8 (ucast (bs ! 1)) OR push_bit 16 (ucast (bs ! 2))
     OR push_bit 24 (ucast (bs ! 3))"

definition md5_words :: "bytes \<Rightarrow> u32 list" where
  "md5_words bs = map (\<lambda>k. le_word (take 4 (drop (4 * k) bs))) [0..<16]"

definition le_bytes :: "u32 \<Rightarrow> bytes" where
  "le_bytes w = [ucast w, ucast (drop_bit 8 w), ucast (drop_bit 16 w), ucast (drop_bit 24 w)]"

definition buf_write :: "bytes \<Rightarrow> nat \<Rightarrow> bytes \<Rightarrow> bytes" where
  "buf_write bs i data = take i bs @ data @ drop (i + length data) bs"

definition crypto_md5_init :: "crypto_md5_ctx_s \<Rightarrow> crypto_md5_ctx_s" where
  "crypto_md5_init ctx = ctx\<lparr>buf := [0x67452301, 0xefcdab89, 0x98badcfe, 0x10325476],
     bits0 := 0, bits1 := 0\<rparr>"

text \<open>The loop over whole blocks of the update; what is left of the data comes with the context.\<close>

function md5_update_blocks :: "crypto_md5_ctx_s \<Rightarrow> bytes \<Rightarrow> crypto_md5_ctx_s \<times> bytes" where
  "md5_update_blocks ctx data =
     (if length data \<ge> 64 then
        let ctx = ctx\<lparr>inb := buf_write (inb ctx) 0 (take 64 data)\<rparr>;
            ctx = ctx\<lparr>buf := md5_transform (buf ctx) (md5_words (inb ctx))\<rparr>
        in md5_update_blocks ctx (drop 64 data)
      else (ctx, data))"
  by auto
termination
  by (relation "measure (\<lambda>(ctx, data). length data)") auto

definition md5_update_tail :: "crypto_md5_ctx_s \<Rightarrow> bytes \<Rightarrow> crypto_md5_ctx_s" where
  "md5_update_tail ctx data =
     (let (ctx, data) = md5_update_blocks ctx data
      in ctx\<lparr>inb := buf_write (inb ctx) 0 data\<rparr>)"

definition crypto_md5_update :: "crypto_md5_ctx_s \<Rightarrow> bytes \<Rightarrow> crypto_md5_ctx_s" where
  "crypto_md5_update ctx data =
     (let len = of_nat (length data) :: u32;
          t = bits0 ctx;
          ctx = ctx\<lparr>bits0 := t + push_bit 3 len\<rparr>;
          ctx = (if bits0 ctx < t then ctx\<lparr>bits1 := bits1 ctx + 1\<rparr> else ctx);
          ctx = ctx\<lparr>bits1 := bits1 ctx + drop_bit 29 len\<rparr>;
          t = drop_bit 3 t AND 0x3f
      in if t \<noteq> 0 then
           let p = unat t; t = 64 - t
           in if len < t then ctx\<lparr>inb := buf_write (inb ctx) p data\<rparr>
              else
                let ctx = ctx\<lparr>inb := buf_write (inb ctx) p (take (unat t) data)\<rparr>;
                    ctx = ctx\<lparr>buf := md5_transform (buf ctx) (md5_words (inb ctx))\<rparr>
                in md5_update_tail ctx (drop (unat t) data)
         else md5_update_tail ctx data)"

text \<open>
  The hash and the context afterwards; \<^verbatim>\<open>memset(ctx, 0, sizeof(ctx))\<close> clears as many bytes as a pointer
  has, the first word.
\<close>

definition crypto_md5_get :: "crypto_md5_ctx_s \<Rightarrow> bytes \<times> crypto_md5_ctx_s" where
  "crypto_md5_get ctx =
     (let count = unat (drop_bit 3 (bits0 ctx) AND 0x3f);
          ctx = ctx\<lparr>inb := (inb ctx)[count := 0x80]\<rparr>;
          p = count + 1;
          count = 64 - 1 - count;
          ctx = (if count < 8 then
                   let ctx = ctx\<lparr>inb := buf_write (inb ctx) p (replicate count 0)\<rparr>;
                       ctx = ctx\<lparr>buf := md5_transform (buf ctx) (md5_words (inb ctx))\<rparr>
                   in ctx\<lparr>inb := buf_write (inb ctx) 0 (replicate 56 0)\<rparr>
                 else ctx\<lparr>inb := buf_write (inb ctx) p (replicate (count - 8) 0)\<rparr>);
          ctx = ctx\<lparr>inb := buf_write (inb ctx) 56 (le_bytes (bits0 ctx))\<rparr>;
          ctx = ctx\<lparr>inb := buf_write (inb ctx) 60 (le_bytes (bits1 ctx))\<rparr>;
          ctx = ctx\<lparr>buf := md5_transform (buf ctx) (md5_words (inb ctx))\<rparr>;
          hash = concat (map le_bytes (buf ctx));
          ctx = ctx\<lparr>buf := (buf ctx)[0 := 0]\<rparr>
      in (hash, ctx))"

section \<open>Specification\<close>

text \<open>
  RFC 1321, section 3.4: the four functions and the operation of a step as they stand there; in round \<open>r\<close> step \<open>i\<close> takes the function of the round, the word with the round's
  index rule, the constant of the table and the shift of the round.
\<close>

definition rfc_T :: "u32 list" where
  "rfc_T = [
     0xd76aa478, 0xe8c7b756, 0x242070db, 0xc1bdceee, 0xf57c0faf, 0x4787c62a,
     0xa8304613, 0xfd469501, 0x698098d8, 0x8b44f7af, 0xffff5bb1, 0x895cd7be,
     0x6b901122, 0xfd987193, 0xa679438e, 0x49b40821, 0xf61e2562, 0xc040b340,
     0x265e5a51, 0xe9b6c7aa, 0xd62f105d, 0x02441453, 0xd8a1e681, 0xe7d3fbc8,
     0x21e1cde6, 0xc33707d6, 0xf4d50d87, 0x455a14ed, 0xa9e3e905, 0xfcefa3f8,
     0x676f02d9, 0x8d2a4c8a, 0xfffa3942, 0x8771f681, 0x6d9d6122, 0xfde5380c,
     0xa4beea44, 0x4bdecfa9, 0xf6bb4b60, 0xbebfbc70, 0x289b7ec6, 0xeaa127fa,
     0xd4ef3085, 0x04881d05, 0xd9d4d039, 0xe6db99e5, 0x1fa27cf8, 0xc4ac5665,
     0xf4292244, 0x432aff97, 0xab9423a7, 0xfc93a039, 0x655b59c3, 0x8f0ccc92,
     0xffeff47d, 0x85845dd1, 0x6fa87e4f, 0xfe2ce6e0, 0xa3014314, 0x4e0811a1,
     0xf7537e82, 0xbd3af235, 0x2ad7d2bb, 0xeb86d391]"

definition rfc_F :: "u32 \<Rightarrow> u32 \<Rightarrow> u32 \<Rightarrow> u32" where
  "rfc_F x y z = (x AND y) OR (NOT x AND z)"

definition rfc_G :: "u32 \<Rightarrow> u32 \<Rightarrow> u32 \<Rightarrow> u32" where
  "rfc_G x y z = (x AND z) OR (y AND NOT z)"

definition rfc_H :: "u32 \<Rightarrow> u32 \<Rightarrow> u32 \<Rightarrow> u32" where
  "rfc_H x y z = x XOR y XOR z"

definition rfc_I :: "u32 \<Rightarrow> u32 \<Rightarrow> u32 \<Rightarrow> u32" where
  "rfc_I x y z = y XOR (x OR NOT z)"

definition rfc_op :: "(u32 \<Rightarrow> u32 \<Rightarrow> u32 \<Rightarrow> u32) \<Rightarrow> u32 \<Rightarrow> u32 \<Rightarrow> u32 \<Rightarrow> u32 \<Rightarrow> u32 \<Rightarrow> u32 \<Rightarrow> nat \<Rightarrow> u32" where
  "rfc_op f a b c d x t s = b + word_rotl s (a + f b c d + x + t)"

definition rfc_step :: "nat \<Rightarrow> (u32 \<Rightarrow> u32 \<Rightarrow> u32 \<Rightarrow> u32) \<times> nat \<times> nat" where
  "rfc_step i =
     (if i < 16 then (rfc_F, i, [7, 12, 17, 22] ! (i mod 4))
      else if i < 32 then (rfc_G, (5 * i + 1) mod 16, [5, 9, 14, 20] ! (i mod 4))
      else if i < 48 then (rfc_H, (3 * i + 5) mod 16, [4, 11, 16, 23] ! (i mod 4))
      else (rfc_I, 7 * i mod 16, [6, 10, 15, 21] ! (i mod 4)))"

fun rfc_steps :: "((u32 \<Rightarrow> u32 \<Rightarrow> u32 \<Rightarrow> u32) \<times> nat \<times> u32 \<times> nat) list \<Rightarrow> u32 \<Rightarrow> u32 \<Rightarrow> u32 \<Rightarrow> u32 \<Rightarrow>
    u32 list \<Rightarrow> (u32 \<Rightarrow> u32 \<Rightarrow> u32 \<Rightarrow> u32 \<Rightarrow> u32 list) \<Rightarrow> u32 list" where
  "rfc_steps [] a b c d inn out = out a b c d"
| "rfc_steps ((f, k, t, s) # steps) a b c d inn out =
     (let a = rfc_op f a b c d (inn ! k) t s in rfc_steps steps d a b c inn out)"

definition rfc_transform :: "u32 list \<Rightarrow> u32 list \<Rightarrow> u32 list" where
  "rfc_transform st inn =
     rfc_steps (map (\<lambda>i. case rfc_step i of (f, k, s) \<Rightarrow> (f, k, rfc_T ! i, s)) [0..<64])
       (st ! 0) (st ! 1) (st ! 2) (st ! 3) inn
       (\<lambda>a b c d. [st ! 0 + a, st ! 1 + b, st ! 2 + c, st ! 3 + d])"

text \<open>The digest of a whole message: padding to a multiple of 64 bytes, then block after block.\<close>

function md5_blocks :: "u32 list \<Rightarrow> bytes \<Rightarrow> u32 list" where
  "md5_blocks st m =
     (if length m < 64 then st else md5_blocks (rfc_transform st (md5_words (take 64 m))) (drop 64 m))"
  by auto
termination
  by (relation "measure (\<lambda>(st, m). length m)") auto

definition md5_pad :: "bytes \<Rightarrow> bytes" where
  "md5_pad m = m @ [0x80] @ replicate ((119 - length m mod 64) mod 64) 0
     @ le_bytes (of_nat (8 * length m)) @ le_bytes (of_nat (8 * length m div 2 ^ 32))"

definition md5_spec :: "bytes \<Rightarrow> bytes" where
  "md5_spec m = concat (map le_bytes (md5_blocks [0x67452301, 0xefcdab89, 0x98badcfe, 0x10325476] (md5_pad m)))"

section \<open>Lemmas\<close>

subsection \<open>The transformation\<close>

lemma rfc_functions: "rfc_F = F1" "rfc_G = F2" "rfc_H = F3" "rfc_I = F4"
  by (auto simp: fun_eq_iff rfc_F_def rfc_G_def rfc_H_def rfc_I_def F1_def F2_def F3_def F4_def bit_eq_iff bit_simps)

text \<open>For the amounts that occur, the two shifts of \<^verbatim>\<open>MD5STEP\<close> are a rotation.\<close>

lemma rotl_shifts: "0 < s \<Longrightarrow> s < 32 \<Longrightarrow> word_rotl s (x :: u32) = push_bit s x OR drop_bit (32 - s) x"
proof (rule bit_word_eqI)
  fix n assume s: "0 < s" "s < 32" and "n < LENGTH(32)"
  then have n: "n < 32"
    by simp
  show "bit (word_rotl s x) n \<longleftrightarrow> bit (push_bit s x OR drop_bit (32 - s) x) n"
  proof (cases "n < s")
    case True
    then have "(n + (32 - s)) mod 32 = 32 - s + n"
      using s by simp
    then show ?thesis
      using True s n by (simp add: bit_simps bit_word_rotl_iff)
  next
    case False
    then have m: "n + 32 - s = n - s + 32" "n - s < 32" "32 \<le> 32 + n - s"
      using s n by linarith+
    have "(n + 32 - s) mod 32 = n - s"
      unfolding m(1) using m(2) by (simp only: mod_add_self2 mod_less)
    then show ?thesis
      using False s n m(3) bit_imp_le_length [of x "32 + n - s"] by (auto simp: bit_simps bit_word_rotl_iff)
  qed
qed

lemma rfc_op_MD5STEP: "0 < s \<Longrightarrow> s < 32 \<Longrightarrow> rfc_op f a b c d x t s = MD5STEP f a b c d (x + t) s"
  by (simp add: rfc_op_def MD5STEP_def Let_def rotl_shifts algebra_simps)

lemma rfc_steps_MD5STEP:
  "0 < s \<Longrightarrow> s < 32 \<Longrightarrow> rfc_steps ((f, k, t, s) # steps) a b c d inn out
    = (let a = MD5STEP f a b c d (inn ! k + t) s in rfc_steps steps d a b c inn out)"
  by (simp add: rfc_op_MD5STEP)

lemma rfc_shift_amounts:
  "7 < (32 :: nat)" "12 < (32 :: nat)" "17 < (32 :: nat)" "22 < (32 :: nat)" "5 < (32 :: nat)" "9 < (32 :: nat)" "14 < (32 :: nat)" "20 < (32 :: nat)"
  "4 < (32 :: nat)" "11 < (32 :: nat)" "16 < (32 :: nat)" "23 < (32 :: nat)" "6 < (32 :: nat)" "10 < (32 :: nat)" "15 < (32 :: nat)" "21 < (32 :: nat)"
  by simp_all

lemmas rfc_steps_shift = rfc_shift_amounts [THEN rfc_steps_MD5STEP [OF zero_less_numeral]]

lemma rfc_schedule:
  "map (\<lambda>i. case rfc_step i of (f, k, s) \<Rightarrow> (f, k, rfc_T ! i, s)) [0..<64] = [
    (F1, 0, 0xd76aa478, 7), (F1, 1, 0xe8c7b756, 12), (F1, 2, 0x242070db, 17), (F1, 3, 0xc1bdceee, 22),
    (F1, 4, 0xf57c0faf, 7), (F1, 5, 0x4787c62a, 12), (F1, 6, 0xa8304613, 17), (F1, 7, 0xfd469501, 22),
    (F1, 8, 0x698098d8, 7), (F1, 9, 0x8b44f7af, 12), (F1, 10, 0xffff5bb1, 17), (F1, 11, 0x895cd7be, 22),
    (F1, 12, 0x6b901122, 7), (F1, 13, 0xfd987193, 12), (F1, 14, 0xa679438e, 17), (F1, 15, 0x49b40821, 22),
    (F2, 1, 0xf61e2562, 5), (F2, 6, 0xc040b340, 9), (F2, 11, 0x265e5a51, 14), (F2, 0, 0xe9b6c7aa, 20),
    (F2, 5, 0xd62f105d, 5), (F2, 10, 0x02441453, 9), (F2, 15, 0xd8a1e681, 14), (F2, 4, 0xe7d3fbc8, 20),
    (F2, 9, 0x21e1cde6, 5), (F2, 14, 0xc33707d6, 9), (F2, 3, 0xf4d50d87, 14), (F2, 8, 0x455a14ed, 20),
    (F2, 13, 0xa9e3e905, 5), (F2, 2, 0xfcefa3f8, 9), (F2, 7, 0x676f02d9, 14), (F2, 12, 0x8d2a4c8a, 20),
    (F3, 5, 0xfffa3942, 4), (F3, 8, 0x8771f681, 11), (F3, 11, 0x6d9d6122, 16), (F3, 14, 0xfde5380c, 23),
    (F3, 1, 0xa4beea44, 4), (F3, 4, 0x4bdecfa9, 11), (F3, 7, 0xf6bb4b60, 16), (F3, 10, 0xbebfbc70, 23),
    (F3, 13, 0x289b7ec6, 4), (F3, 0, 0xeaa127fa, 11), (F3, 3, 0xd4ef3085, 16), (F3, 6, 0x04881d05, 23),
    (F3, 9, 0xd9d4d039, 4), (F3, 12, 0xe6db99e5, 11), (F3, 15, 0x1fa27cf8, 16), (F3, 2, 0xc4ac5665, 23),
    (F4, 0, 0xf4292244, 6), (F4, 7, 0x432aff97, 10), (F4, 14, 0xab9423a7, 15), (F4, 5, 0xfc93a039, 21),
    (F4, 12, 0x655b59c3, 6), (F4, 3, 0x8f0ccc92, 10), (F4, 10, 0xffeff47d, 15), (F4, 1, 0x85845dd1, 21),
    (F4, 8, 0x6fa87e4f, 6), (F4, 15, 0xfe2ce6e0, 10), (F4, 6, 0xa3014314, 15), (F4, 13, 0x4e0811a1, 21),
    (F4, 4, 0xf7537e82, 6), (F4, 11, 0xbd3af235, 10), (F4, 2, 0x2ad7d2bb, 15), (F4, 9, 0xeb86d391, 21)]"
proof -
  have "[0..<64 :: nat] = [0, 1, 2, 3, 4, 5, 6, 7, 8, 9, 10, 11, 12, 13, 14, 15, 16, 17, 18, 19, 20, 21, 22, 23, 24, 25, 26, 27, 28, 29, 30, 31,
      32, 33, 34, 35, 36, 37, 38, 39, 40, 41, 42, 43, 44, 45, 46, 47, 48, 49, 50, 51, 52, 53, 54, 55, 56, 57, 58, 59, 60, 61, 62, 63]"
    by code_simp
  then show ?thesis
    by (simp add: rfc_step_def rfc_T_def rfc_functions)
qed

lemma md5_transform_rfc: "md5_transform st inn = rfc_transform st inn"
  unfolding rfc_transform_def md5_transform_def rfc_schedule rfc_steps_shift rfc_steps.simps(1)
    Let_def [of "st ! 0"] Let_def [of "st ! 1"] Let_def [of "st ! 2"] Let_def [of "st ! 3"]
  by (rule refl)

subsection \<open>Blocks\<close>

declare md5_update_blocks.simps [simp del] md5_blocks.simps [simp del]

definition md5_iv :: "u32 list" where
  "md5_iv = [0x67452301, 0xefcdab89, 0x98badcfe, 0x10325476]"

lemma md5_blocks_short: "length m < 64 \<Longrightarrow> md5_blocks st m = st"
  by (simp add: md5_blocks.simps)

lemma md5_blocks_block:
  "length b = 64 \<Longrightarrow> md5_blocks st (b @ m) = md5_blocks (rfc_transform st (md5_words b)) m"
  by (subst md5_blocks.simps) simp

lemma md5_blocks_append:
  "64 dvd length xs \<Longrightarrow> md5_blocks st (xs @ ys) = md5_blocks (md5_blocks st xs) ys"
proof (induction st xs rule: md5_blocks.induct)
  case (1 st xs)
  show ?case
  proof (cases "length xs < 64")
    case True
    with 1(2) have "xs = []"
      by (auto dest: dvd_imp_le)
    then show ?thesis
      by (simp add: md5_blocks_short)
  next
    case False
    let ?b = "take 64 xs" let ?r = "drop 64 xs"
    have b: "length ?b = 64" "64 dvd length ?r"
      using False 1(2) by simp_all
    have "md5_blocks st (xs @ ys) = md5_blocks st (?b @ ?r @ ys)"
      by (simp flip: append_assoc)
    also have "\<dots> = md5_blocks (md5_blocks (rfc_transform st (md5_words ?b)) ?r) ys"
      using 1(1) [OF False] b by (simp add: md5_blocks_block)
    also have "\<dots> = md5_blocks (md5_blocks st (?b @ ?r)) ys"
      using b(1) by (simp add: md5_blocks_block del: append_take_drop_id)
    finally show ?thesis
      by simp
  qed
qed

lemma md5_blocks_1: "length b = 64 \<Longrightarrow> md5_blocks st b = rfc_transform st (md5_words b)"
  using md5_blocks_block [of b st "[]"] by (simp add: md5_blocks_short)

lemma length_buf_write: "i + length data \<le> length bs \<Longrightarrow> length (buf_write bs i data) = length bs"
  by (simp add: buf_write_def)

lemma buf_write_whole: "length data = length bs \<Longrightarrow> buf_write bs 0 data = data"
  by (simp add: buf_write_def)

lemma md5_update_blocks_correct:
  assumes "length (inb ctx) = 64"
  shows "\<exists>full rest ctx'. md5_update_blocks ctx data = (ctx', rest) \<and> data = full @ rest
     \<and> 64 dvd length full \<and> length rest < 64 \<and> buf ctx' = md5_blocks (buf ctx) full
     \<and> length (inb ctx') = 64 \<and> bits0 ctx' = bits0 ctx \<and> bits1 ctx' = bits1 ctx"
  using assms
proof (induction ctx data rule: md5_update_blocks.induct)
  case (1 ctx data)
  show ?case
  proof (cases "length data \<ge> 64")
    case False
    then show ?thesis
      using 1(2) by (simp add: md5_update_blocks.simps md5_blocks_short)
  next
    case True
    let ?b = "take 64 data"
    let ?ctx = "ctx\<lparr>inb := ?b, buf := rfc_transform (buf ctx) (md5_words ?b)\<rparr>"
    have b: "length ?b = 64"
      using True by simp
    then have w: "buf_write (inb ctx) 0 ?b = ?b"
      using 1(2) by (simp add: buf_write_whole)
    have step: "md5_update_blocks ctx data = md5_update_blocks ?ctx (drop 64 data)"
      using True by (subst md5_update_blocks.simps) (simp add: w md5_transform_rfc)
    have "\<exists>full rest ctx'. md5_update_blocks ?ctx (drop 64 data) = (ctx', rest) \<and> drop 64 data = full @ rest
       \<and> 64 dvd length full \<and> length rest < 64 \<and> buf ctx' = md5_blocks (buf ?ctx) full
       \<and> length (inb ctx') = 64 \<and> bits0 ctx' = bits0 ?ctx \<and> bits1 ctx' = bits1 ?ctx"
      using 1(1) [OF True refl refl] b by (simp add: w md5_transform_rfc)
    then obtain full rest ctx' where r: "md5_update_blocks ?ctx (drop 64 data) = (ctx', rest)"
      "drop 64 data = full @ rest" "64 dvd length full" "length rest < 64"
      "buf ctx' = md5_blocks (buf ?ctx) full" "length (inb ctx') = 64"
      "bits0 ctx' = bits0 ?ctx" "bits1 ctx' = bits1 ?ctx"
      by blast
    have "data = (?b @ full) @ rest"
      using r(2) append_take_drop_id [of 64 data] by simp
    moreover have "buf ctx' = md5_blocks (buf ctx) (?b @ full)"
      using r(5) b by (simp add: md5_blocks_block)
    moreover have "64 dvd length (?b @ full)"
      using r(3) b by simp
    ultimately show ?thesis
      using r step
      by (intro exI [of _ "?b @ full"] exI [of _ rest] exI [of _ ctx']) simp
  qed
qed

subsection \<open>The bit counter\<close>

lemma md5_fill: "unat (drop_bit 3 (of_nat (8 * n) :: u32) AND 0x3f) = n mod 64"
proof -
  have "(0x3f :: u32) = mask 6"
    by (simp add: mask_eq_exp_minus_1)
  then have "drop_bit 3 (of_nat (8 * n) :: u32) AND 0x3f = take_bit 6 (drop_bit 3 (of_nat (8 * n)))"
    by (simp only: take_bit_eq_mask)
  then have "unat (drop_bit 3 (of_nat (8 * n) :: u32) AND 0x3f)
      = take_bit 6 (drop_bit 3 (unat (of_nat (8 * n) :: u32)))"
    by (simp only: unsigned_take_bit_eq unat_drop_bit_eq)
  also have "unat (of_nat (8 * n) :: u32) = 8 * n mod 2 ^ 32"
    unfolding unat_of_nat by simp
  also have "8 * n mod 2 ^ 32 = 8 * (n mod 2 ^ 29)"
    using mult_mod_right [of 8 n "2 ^ 29"] by simp
  finally show ?thesis
    by (simp add: mod_mod_cancel take_bit_eq_mod drop_bit_eq_div)
qed

lemma add_mod_less_iff:
  fixes p q M :: nat
  assumes "p < M" "q < M"
  shows "(p + q) mod M < p \<longleftrightarrow> M \<le> p + q" "(p + q) div M = (if M \<le> p + q then 1 else 0)"
proof -
  show "(p + q) mod M < p \<longleftrightarrow> M \<le> p + q"
  proof (cases "M \<le> p + q")
    case True
    then have "(p + q) mod M = p + q - M"
      using assms by (simp add: le_mod_geq)
    then show ?thesis
      using True assms by auto
  qed simp
  show "(p + q) div M = (if M \<le> p + q then 1 else 0)"
    using assms by (auto intro: div_nat_eqI)
qed

lemma md5_count_carry:
  fixes x y :: nat
  shows "of_nat (x div 2 ^ 32) + (if (of_nat (x + y) :: u32) < of_nat x then 1 else 0) + of_nat (y div 2 ^ 32)
     = (of_nat ((x + y) div 2 ^ 32) :: u32)"
proof -
  define M :: nat where "M = 2 ^ 32"
  note b = mod_less_divisor [of M x] mod_less_divisor [of M y]
  have "(of_nat (x + y) :: u32) < of_nat x \<longleftrightarrow> (x + y) mod M < x mod M"
    unfolding word_less_nat_alt unat_of_nat by (simp add: take_bit_eq_mod M_def)
  also have "(x + y) mod M = (x mod M + y mod M) mod M"
    by (simp add: mod_add_eq)
  finally have lt: "(of_nat (x + y) :: u32) < of_nat x \<longleftrightarrow> M \<le> x mod M + y mod M"
    using add_mod_less_iff(1) [OF b] by (simp add: M_def)
  have "(x + y) div M = x div M + y div M + (if M \<le> x mod M + y mod M then 1 else 0)"
    unfolding div_add1_eq [of x y M] using add_mod_less_iff(2) [OF b] by (simp add: M_def)
  then show ?thesis
    unfolding lt M_def [symmetric] by simp
qed

subsection \<open>The streaming invariant\<close>

text \<open>The context holds the message \<open>m\<close>: whole blocks hashed, the rest in the buffer, the length counted.\<close>

definition md5_holds :: "crypto_md5_ctx_s \<Rightarrow> bytes \<Rightarrow> bool" where
  "md5_holds ctx m \<longleftrightarrow> length (inb ctx) = 64
     \<and> bits0 ctx = of_nat (8 * length m) \<and> bits1 ctx = of_nat (8 * length m div 2 ^ 32)
     \<and> (\<exists>full rest. m = full @ rest \<and> 64 dvd length full \<and> length rest < 64
          \<and> buf ctx = md5_blocks md5_iv full \<and> take (length rest) (inb ctx) = rest)"

lemma md5_holds_length: "m = full @ rest \<Longrightarrow> 64 dvd length full \<Longrightarrow> length rest < 64 \<Longrightarrow> length m mod 64 = length rest"
  by (auto elim!: dvdE)

lemma md5_holds_init: "length (inb ctx) = 64 \<Longrightarrow> md5_holds (crypto_md5_init ctx) []"
  by (simp add: md5_holds_def crypto_md5_init_def md5_blocks_short md5_iv_def)

lemma md5_update_tail_holds:
  assumes "length (inb ctx) = 64" "64 dvd length full" "buf ctx = md5_blocks md5_iv full"
    and "bits0 ctx = of_nat (8 * length (full @ data))" "bits1 ctx = of_nat (8 * length (full @ data) div 2 ^ 32)"
  shows "md5_holds (md5_update_tail ctx data) (full @ data)"
proof -
  obtain f r ctx' where u: "md5_update_blocks ctx data = (ctx', r)" "data = f @ r"
    "64 dvd length f" "length r < 64" "buf ctx' = md5_blocks (buf ctx) f"
    "length (inb ctx') = 64" "bits0 ctx' = bits0 ctx" "bits1 ctx' = bits1 ctx"
    using md5_update_blocks_correct [OF assms(1), of data] by blast
  have "buf ctx' = md5_blocks md5_iv (full @ f)"
    using u(5) assms(2,3) by (simp add: md5_blocks_append)
  moreover have "take (length r) (buf_write (inb ctx') 0 r) = r"
    by (simp add: buf_write_def)
  moreover have "length (buf_write (inb ctx') 0 r) = 64"
    using u(4,6) by (simp add: length_buf_write)
  moreover have "full @ data = (full @ f) @ r" "64 dvd length (full @ f)"
    using u(2,3) assms(2) by simp_all
  ultimately show ?thesis
    using u(1,4,7,8) assms(4,5)
    by (simp add: md5_update_tail_def md5_holds_def del: append_assoc length_append) blast
qed

lemma if_distrib_add: "(if P then x + 1 else x) + y = x + (if P then 1 else 0) + (y :: u32)"
  by simp

lemma md5_update_counter:
  assumes "length data < 2 ^ 32" "bits0 ctx = of_nat (8 * L)" "bits1 ctx = of_nat (8 * L div 2 ^ 32)"
  defines "len \<equiv> of_nat (length data) :: u32"
  shows "bits0 ctx + push_bit 3 len = of_nat (8 * (L + length data))"
    and "(if bits0 ctx + push_bit 3 len < bits0 ctx then bits1 ctx + 1 else bits1 ctx) + drop_bit 29 len
      = of_nat (8 * (L + length data) div 2 ^ 32)"
proof -
  have p: "push_bit 3 len = of_nat (8 * length data)"
    by (simp add: len_def push_bit_eq_mult)
  then show b0: "bits0 ctx + push_bit 3 len = of_nat (8 * (L + length data))"
    using assms(2) by (simp add: distrib_left)
  have ul: "unat len = length data"
    using assms(1) by (simp add: len_def unat_of_nat)
  have "unat (drop_bit 29 len) = length data div 2 ^ 29"
    unfolding unat_drop_bit_eq ul by (simp add: drop_bit_eq_div)
  also have "\<dots> = unat (of_nat (8 * length data div 2 ^ 32) :: u32)"
    using assms(1) unfolding unat_of_nat by simp
  finally have d: "drop_bit 29 len = of_nat (8 * length data div 2 ^ 32)"
    by (simp only: word_unat_eq_iff)
  show "(if bits0 ctx + push_bit 3 len < bits0 ctx then bits1 ctx + 1 else bits1 ctx) + drop_bit 29 len
      = of_nat (8 * (L + length data) div 2 ^ 32)"
    using md5_count_carry [of "8 * L" "8 * length data"]
    unfolding b0 d unfolding assms(2,3) distrib_left [symmetric] by (simp only: if_distrib_add)
qed

lemma md5_update_holds:
  assumes inv: "md5_holds ctx m" and len: "length data < 2 ^ 32"
  shows "md5_holds (crypto_md5_update ctx data) (m @ data)"
proof -
  obtain full rest where m: "m = full @ rest" "64 dvd length full" "length rest < 64"
    and st: "buf ctx = md5_blocks md5_iv full" "take (length rest) (inb ctx) = rest"
    and i: "length (inb ctx) = 64" "bits0 ctx = of_nat (8 * length m)" "bits1 ctx = of_nat (8 * length m div 2 ^ 32)"
    using inv unfolding md5_holds_def by blast
  let ?len = "of_nat (length data) :: u32"
  define c where "c = ctx\<lparr>bits0 := of_nat (8 * length (m @ data)), bits1 := of_nat (8 * length (m @ data) div 2 ^ 32)\<rparr>"
  define t where "t = drop_bit 3 (bits0 ctx) AND 0x3f"
  have t: "unat t = length rest"
    unfolding t_def i(2) md5_fill by (rule md5_holds_length [OF m])
  have upd: "crypto_md5_update ctx data = (if t \<noteq> 0 then
       if ?len < 64 - t then c\<lparr>inb := buf_write (inb c) (unat t) data\<rparr>
       else let c = c\<lparr>inb := buf_write (inb c) (unat t) (take (unat (64 - t)) data)\<rparr>;
                c = c\<lparr>buf := md5_transform (buf c) (md5_words (inb c))\<rparr>
            in md5_update_tail c (drop (unat (64 - t)) data)
     else md5_update_tail c data)"
    using md5_update_counter [OF len i(2,3)]
    by (simp add: crypto_md5_update_def Let_def c_def t_def split del: if_split cong: if_cong) (auto split: if_splits)
  have ul: "unat ?len = length data"
    using len by (simp add: unat_of_nat)
  show ?thesis
  proof (cases "t = 0")
    case True
    then have "rest = []"
      using t by simp
    then show ?thesis
      using upd True m i st md5_update_tail_holds [of c full data] by (simp add: c_def)
  next
    case False
    have "t \<le> 64"
      using t m(3) by (simp add: word_le_nat_alt)
    then have u: "unat (64 - t) = 64 - length rest"
      using t by (simp add: unat_sub_le)
    show ?thesis
    proof (cases "?len < 64 - t")
      case True
      then have l: "length data < 64 - length rest"
        by (simp add: word_less_nat_alt u ul)
      have "take (length (rest @ data)) (buf_write (inb ctx) (length rest) data) = rest @ data"
        using l st(2) i(1) by (simp add: buf_write_def)
      then show ?thesis
        using upd False True t m l i st length_buf_write [of "length rest" data "inb ctx"]
        unfolding md5_holds_def c_def
        by simp (rule exI [of _ full], rule exI [of _ "rest @ data"], simp)
    next
      case ge: False
      then have l: "64 - length rest \<le> length data"
        by (simp add: word_less_nat_alt u ul)
      let ?d = "take (64 - length rest) data" let ?b = "rest @ ?d"
      have b: "length ?b = 64" "buf_write (inb ctx) (length rest) ?d = ?b"
        using l m(3) i(1) st(2) by (simp_all add: buf_write_def)
      let ?c = "c\<lparr>inb := ?b, buf := rfc_transform (buf ctx) (md5_words ?b)\<rparr>"
      have "crypto_md5_update ctx data = md5_update_tail ?c (drop (64 - length rest) data)"
        using upd False ge t b by (simp add: c_def u md5_transform_rfc)
      moreover have "md5_holds (md5_update_tail ?c (drop (64 - length rest) data))
          ((full @ ?b) @ drop (64 - length rest) data)"
        using b m st l
        by (intro md5_update_tail_holds) (simp_all add: c_def md5_blocks_append md5_blocks_1)
      ultimately show ?thesis
        using m by simp
    qed
  qed
qed

subsection \<open>Padding\<close>

lemma length_le_bytes [simp]: "length (le_bytes w) = 4"
  by (simp add: le_bytes_def)

lemma buf_write_at: "length xs = i \<Longrightarrow> length data = n \<Longrightarrow> buf_write (xs @ ys) i data = xs @ data @ drop n ys"
  by (simp add: buf_write_def)

lemma md5_set_mark:
  assumes "take (length rest) bs = rest" "length rest < length bs"
  shows "bs[length rest := x] = rest @ x # drop (Suc (length rest)) bs"
  using upd_conv_take_nth_drop [OF assms(2), of x] assms(1) by simp

lemma md5_pad_short:
  assumes m: "m = full @ rest" "64 dvd length full" "length rest < 56"
  shows "md5_pad m = full @ (rest @ [0x80] @ replicate (55 - length rest) 0
     @ le_bytes (of_nat (8 * length m)) @ le_bytes (of_nat (8 * length m div 2 ^ 32)))"
proof -
  have "length m mod 64 = length rest"
    using md5_holds_length [OF m(1,2)] m(3) by simp
  moreover have "(119 - length rest) mod 64 = 55 - length rest"
    using m(3) le_mod_geq [of 64 "119 - length rest"] by simp
  ultimately show ?thesis
    unfolding md5_pad_def m(1) by simp
qed

lemma md5_pad_long:
  assumes m: "m = full @ rest" "64 dvd length full" "length rest < 64" "56 \<le> length rest"
  shows "md5_pad m = full @ (rest @ [0x80] @ replicate (63 - length rest) 0)
     @ (replicate 56 0 @ le_bytes (of_nat (8 * length m)) @ le_bytes (of_nat (8 * length m div 2 ^ 32)))"
proof -
  have "length m mod 64 = length rest"
    using md5_holds_length [OF m(1-3)] .
  moreover have "(119 - length rest) mod 64 = (63 - length rest) + 56"
    using m(3,4) by simp
  moreover have "replicate (119 - length rest) 0 = replicate (63 - length rest) (0 :: u8) @ replicate 56 0"
    using m(3) by (simp flip: replicate_add)
  ultimately show ?thesis
    unfolding md5_pad_def m(1) by simp
qed

lemma md5_get_correct:
  assumes inv: "md5_holds ctx m"
  shows "crypto_md5_get ctx = (md5_spec m, snd (crypto_md5_get ctx))"
proof -
  obtain full rest where m: "m = full @ rest" "64 dvd length full" "length rest < 64"
    and st: "buf ctx = md5_blocks md5_iv full" "take (length rest) (inb ctx) = rest"
    and i: "length (inb ctx) = 64" "bits0 ctx = of_nat (8 * length m)" "bits1 ctx = of_nat (8 * length m div 2 ^ 32)"
    using inv unfolding md5_holds_def by blast
  have cnt: "unat (drop_bit 3 (bits0 ctx) AND 0x3f) = length rest"
    unfolding i(2) md5_fill by (rule md5_holds_length [OF m])
  have mark: "(inb ctx)[length rest := 0x80] = (rest @ [0x80]) @ drop (Suc (length rest)) (inb ctx)"
    using md5_set_mark [OF st(2)] m(3) i(1) by simp
  let ?l0 = "le_bytes (bits0 ctx)" let ?l1 = "le_bytes (bits1 ctx)"
  have tail: "buf_write (buf_write (xs @ ys) 56 ?l0) 60 ?l1 = xs @ ?l0 @ ?l1"
    if "length xs = 56" "length ys = 8" for xs ys
    using that buf_write_at [of "xs @ ?l0" 60 ?l1 4 "drop 4 ys"] by (simp add: buf_write_at)
  have "fst (crypto_md5_get ctx) = md5_spec m"
  proof (cases "length rest < 56")
    case True
    let ?p = "rest @ [0x80] @ replicate (55 - length rest) 0"
    have w: "buf_write ((inb ctx)[length rest := 0x80]) (length rest + 1) (replicate (55 - length rest) 0)
      = ?p @ drop 56 (inb ctx)"
    proof -
      have "55 - length rest + Suc (length rest) = 56"
        using True by linarith
      then have "drop (55 - length rest) (drop (Suc (length rest)) (inb ctx)) = drop 56 (inb ctx)"
        by (simp only: drop_drop)
      then show ?thesis
        unfolding mark by (subst buf_write_at [of _ _ _ "55 - length rest"]) (simp_all del: drop_drop)
    qed
    have b: "buf_write (buf_write (?p @ drop 56 (inb ctx)) 56 ?l0) 60 ?l1 = ?p @ ?l0 @ ?l1"
      using True i(1) by (intro tail) simp_all
    have "fst (crypto_md5_get ctx)
      = concat (map le_bytes (rfc_transform (buf ctx) (md5_words (?p @ ?l0 @ ?l1))))"
    proof -
      have "\<not> 63 - length rest < 8" "63 - length rest - 8 = 55 - length rest"
        using True by linarith+
      then show ?thesis
        using w b by (simp add: crypto_md5_get_def Let_def cnt md5_transform_rfc)
    qed
    also have "rfc_transform (buf ctx) (md5_words (?p @ ?l0 @ ?l1)) = md5_blocks md5_iv (md5_pad m)"
      using md5_pad_short [OF m(1,2) True] True m(2)
      by (simp add: md5_blocks_append md5_blocks_1 st(1) i)
    finally show ?thesis
      by (simp add: md5_spec_def md5_iv_def)
  next
    case False
    let ?p = "rest @ [0x80] @ replicate (63 - length rest) 0"
    have w: "buf_write ((inb ctx)[length rest := 0x80]) (length rest + 1) (replicate (63 - length rest) 0) = ?p"
      unfolding mark using False m(3) i(1) by (subst buf_write_at) (simp_all, linarith)
    have z: "buf_write ?p 0 (replicate 56 0) = replicate 56 0 @ drop 56 ?p"
      by (simp add: buf_write_def)
    have b: "buf_write (buf_write (replicate 56 0 @ drop 56 ?p) 56 ?l0) 60 ?l1 = replicate 56 0 @ ?l0 @ ?l1"
      using False m(3) by (intro tail) simp_all
    have "fst (crypto_md5_get ctx) = concat (map le_bytes
        (rfc_transform (rfc_transform (buf ctx) (md5_words ?p)) (md5_words (replicate 56 0 @ ?l0 @ ?l1))))"
    proof -
      have "63 - length rest < 8"
        using False by linarith
      then show ?thesis
        using w z b by (simp add: crypto_md5_get_def Let_def cnt md5_transform_rfc)
    qed
    also have "rfc_transform (rfc_transform (buf ctx) (md5_words ?p)) (md5_words (replicate 56 0 @ ?l0 @ ?l1))
      = md5_blocks md5_iv (md5_pad m)"
      unfolding md5_pad_long [OF m leI [OF False]] using m(2,3) False
      by (simp add: md5_blocks_append [of full] md5_blocks_block [of ?p, simplified] md5_blocks_1 st(1) i)
    finally show ?thesis
      by (simp add: md5_spec_def md5_iv_def)
  qed
  then show ?thesis
    by (simp add: prod_eq_iff)
qed

lemma md5_updates_hold:
  "md5_holds ctx m \<Longrightarrow> \<forall>data \<in> set ds. length data < 2 ^ 32 \<Longrightarrow> md5_holds (foldl crypto_md5_update ctx ds) (m @ concat ds)"
proof (induction ds arbitrary: ctx m)
  case (Cons d ds)
  then show ?case
    using Cons.IH [of "crypto_md5_update ctx d" "m @ d"] md5_update_holds [of ctx m d] by simp
qed simp

lemma length_rfc_steps:
  "(\<And>a b c d. length (out a b c d) = n) \<Longrightarrow> length (rfc_steps steps a b c d inn out) = n"
  by (induction steps a b c d inn out rule: rfc_steps.induct) (simp_all add: Let_def)

lemma length_rfc_transform: "length (rfc_transform st inn) = 4"
  unfolding rfc_transform_def by (rule length_rfc_steps) simp

section \<open>Properties\<close>

text \<open>
  The 64 unrolled steps of the block transformation are the four rounds of RFC 1321: the functions, the
  word of the block each step takes, the constants and the rotations of its tables.
\<close>

theorem md5_transform_is_rfc: "md5_transform st inn = rfc_transform st inn"
  by (rule md5_transform_rfc)

text \<open>
  C16: hashing a message in any number of pieces of any sizes below 4 GB gives the MD5 digest of the whole
  message: initialisation, the updates and the final padding compute the blocks of the padded message,
  whatever the buffer of the context holds before.
\<close>

theorem crypto_md5_streaming:
  assumes "length (inb ctx) = 64" "\<forall>data \<in> set ds. length data < 2 ^ 32"
  shows "fst (crypto_md5_get (foldl crypto_md5_update (crypto_md5_init ctx) ds)) = md5_spec (concat ds)"
  using md5_get_correct [OF md5_updates_hold [OF md5_holds_init [OF assms(1)] assms(2)]]
  by (metis append_Nil fst_conv)

text \<open>The digest of \<^verbatim>\<open>abc\<close>, hashed in two pieces, as the test suite of the RFC has it.\<close>

theorem crypto_md5_streaming_witness:
  "let ctx = crypto_md5_init \<lparr>buf = [], bits0 = 0, bits1 = 0, inb = replicate 64 0\<rparr>
   in fst (crypto_md5_get (crypto_md5_update (crypto_md5_update ctx [0x61]) [0x62, 0x63]))
     = [0x90, 0x01, 0x50, 0x98, 0x3c, 0xd2, 0x4f, 0xb0, 0xd6, 0x96, 0x3f, 0x7d, 0x28, 0xe1, 0x7f, 0x72]"
proof -
  have "md5_spec [0x61, 0x62, 0x63]
     = [0x90, 0x01, 0x50, 0x98, 0x3c, 0xd2, 0x4f, 0xb0, 0xd6, 0x96, 0x3f, 0x7d, 0x28, 0xe1, 0x7f, 0x72]"
  proof -
    have "md5_pad [0x61, 0x62, 0x63] = [0x61, 0x62, 0x63, 0x80] @ replicate 52 0 @ [24, 0, 0, 0, 0, 0, 0, 0]"
      by (simp add: md5_pad_def le_bytes_def)
    moreover have "md5_words ([0x61, 0x62, 0x63, 0x80] @ replicate 52 0 @ [24, 0, 0, 0, 0, 0, 0, 0])
        = 0x80636261 # replicate 13 0 @ [24, 0]"
      by code_simp
    ultimately have p: "length (md5_pad [0x61, 0x62, 0x63]) = 64"
      "md5_words (md5_pad [0x61, 0x62, 0x63]) = 0x80636261 # replicate 13 0 @ [24, 0]"
      by simp_all
    have "md5_transform [0x67452301, 0xefcdab89, 0x98badcfe, 0x10325476] (0x80636261 # replicate 13 0 @ [24, 0])
      = [0x98500190, 0xb04fd23c, 0x7d3f96d6, 0x727fe128]"
      by code_simp
    then show ?thesis
      unfolding md5_spec_def md5_blocks_1 [OF p(1)] p(2) md5_transform_rfc by (simp add: le_bytes_def)
  qed
  then show ?thesis
    using crypto_md5_streaming [of "\<lparr>buf = [], bits0 = 0, bits1 = 0, inb = replicate 64 0\<rparr>"
      "[[0x61], [0x62, 0x63]]"] by (simp add: Let_def)
qed

text \<open>
  The clearing of the context at the end of \<^verbatim>\<open>crypto_md5_get\<close> takes the size of the pointer for the size of
  the context: the last twelve of the sixteen bytes of the digest can still be read from it.
\<close>

theorem crypto_md5_get_leaves_state:
  "concat (map le_bytes (tl (buf (snd (crypto_md5_get ctx))))) = drop 4 (fst (crypto_md5_get ctx))
   \<and> length (fst (crypto_md5_get ctx)) = 16"
proof -
  obtain st inn where g: "fst (crypto_md5_get ctx) = concat (map le_bytes (md5_transform st inn))"
    "buf (snd (crypto_md5_get ctx)) = (md5_transform st inn)[0 := 0]"
    by (simp add: crypto_md5_get_def Let_def)
  obtain a b c d where "md5_transform st inn = [a, b, c, d]"
    using length_rfc_transform [of st inn] unfolding md5_transform_rfc
    by (auto simp: length_Suc_conv numeral_eq_Suc)
  then show ?thesis
    by (simp add: g)
qed

end
