(* ===== verification/Libc_Mem.thy ===== *)
theory Libc_Mem
  imports Endian
begin

text \<open>
  The memory functions of \<^verbatim>\<open>libc/string.c\<close> in their generic C versions, for a 32 bit little endian processor
  (\<^verbatim>\<open>sizeof(reg_t) = 4\<close>), on the flat memory \<open>mem\<close>.  Sizes are natural numbers; a \<^verbatim>\<open>size_t\<close> is below \<open>2 ^ 32\<close>.
  The lemmas show that the word-wise \<^verbatim>\<open>memset\<close> and \<^verbatim>\<open>memcpy\<close> have the effect of their byte loops, and that
  \<^verbatim>\<open>memmove\<close> copies overlapping ranges as if through a buffer.
\<close>

section \<open>Operations\<close>

text \<open>\<^verbatim>\<open>memset\<close>: bytes up to an aligned address, words, the bytes left.\<close>

fun memset_align :: "mem \<Rightarrow> addr \<Rightarrow> u8 \<Rightarrow> nat \<Rightarrow> mem \<times> addr \<times> nat" where
  "memset_align m a s 0 = (m, a, 0)"
| "memset_align m a s (Suc n) =
     (if a AND 3 \<noteq> 0 then memset_align (m(a := s)) (a + 1) s n else (m, a, Suc n))"

function memset_words :: "mem \<Rightarrow> addr \<Rightarrow> u32 \<Rightarrow> nat \<Rightarrow> mem \<times> addr" where
  "memset_words m r v n =
     (if n \<noteq> 0 then memset_words (endian_le32_na_store m r v) (r + 4) v (n - 4) else (m, r))"
  by auto
termination
  by (relation "measure (\<lambda>(m, r, v, n). n)") auto

fun memset_bytes :: "mem \<Rightarrow> addr \<Rightarrow> u8 \<Rightarrow> nat \<Rightarrow> mem" where
  "memset_bytes m a s 0 = m"
| "memset_bytes m a s (Suc n) = memset_bytes (m(a := s)) (a + 1) s n"

definition memset :: "mem \<Rightarrow> addr \<Rightarrow> u8 \<Rightarrow> nat \<Rightarrow> mem" where
  "memset m dst s count =
     (let v = ucast s * 0x01010101;
          (m, a, count) = memset_align m dst s count;
          ucount = count mod 4;
          count = count - ucount;
          (m, r) = memset_words m a v count
      in memset_bytes m r s ucount)"

function memcpy_words :: "mem \<Rightarrow> addr \<Rightarrow> addr \<Rightarrow> nat \<Rightarrow> mem \<times> addr \<times> addr \<times> nat" where
  "memcpy_words m dst src sz =
     (if sz \<ge> 4
      then memcpy_words (endian_le32_na_store m dst (endian_le32_na_load m src)) (dst + 4) (src + 4) (sz - 4)
      else (m, dst, src, sz))"
  by auto
termination
  by (relation "measure (\<lambda>(m, d, s, n). n)") auto

fun memcpy_bytes :: "mem \<Rightarrow> addr \<Rightarrow> addr \<Rightarrow> nat \<Rightarrow> mem" where
  "memcpy_bytes m dst src 0 = m"
| "memcpy_bytes m dst src (Suc n) = memcpy_bytes (m(dst := m src)) (dst + 1) (src + 1) n"

definition memcpy :: "mem \<Rightarrow> addr \<Rightarrow> addr \<Rightarrow> nat \<Rightarrow> mem" where
  "memcpy m dst src sz =
     (let (m, dst, src, sz) =
            (if dst AND 3 = 0 \<and> src AND 3 = 0 then memcpy_words m dst src sz else (m, dst, src, sz))
      in memcpy_bytes m dst src sz)"

fun memcmp :: "mem \<Rightarrow> addr \<Rightarrow> addr \<Rightarrow> nat \<Rightarrow> int" where
  "memcmp m d s 0 = 0"
| "memcmp m d s (Suc n) =
     (let r = uint (m d) - uint (m s) in if r \<noteq> 0 then r else memcmp m (d + 1) (s + 1) n)"

text \<open>The pointers of \<^verbatim>\<open>__memcpy_reverse\<close> start behind the ranges.\<close>

fun memcpy_reverse_loop :: "mem \<Rightarrow> addr \<Rightarrow> addr \<Rightarrow> nat \<Rightarrow> mem" where
  "memcpy_reverse_loop m dst src 0 = m"
| "memcpy_reverse_loop m dst src (Suc n) =
     (let dst = dst - 1; src = src - 1 in memcpy_reverse_loop (m(dst := m src)) dst src n)"

definition memcpy_reverse :: "mem \<Rightarrow> addr \<Rightarrow> addr \<Rightarrow> nat \<Rightarrow> mem" where
  "memcpy_reverse m dst src sz = memcpy_reverse_loop m (dst + of_nat sz) (src + of_nat sz) sz"

definition memmove :: "mem \<Rightarrow> addr \<Rightarrow> addr \<Rightarrow> nat \<Rightarrow> mem" where
  "memmove m dst src sz =
     (if dst > src then memcpy_reverse m dst src sz else memcpy m dst src sz)"

text \<open>A null result is \<open>None\<close>.  The byte is compared with the \<^verbatim>\<open>int_fast8_t\<close> argument without a cast.\<close>

fun memchr :: "mem \<Rightarrow> addr \<Rightarrow> int \<Rightarrow> nat \<Rightarrow> addr option" where
  "memchr m pc c 0 = None"
| "memchr m pc c (Suc n) = (if uint (m pc) = c then Some pc else memchr m (pc + 1) c n)"

fun memccpy :: "mem \<Rightarrow> addr \<Rightarrow> addr \<Rightarrow> u8 \<Rightarrow> nat \<Rightarrow> mem \<times> addr option" where
  "memccpy m a b c 0 = (m, None)"
| "memccpy m a b c (Suc n) =
     (let m = m(a := m b); a = a + 1
      in if m b = c then (m, Some a) else memccpy m a (b + 1) c n)"

fun memcstcmp :: "mem \<Rightarrow> addr \<Rightarrow> u8 \<Rightarrow> nat \<Rightarrow> int" where
  "memcstcmp m s v 0 = 0"
| "memcstcmp m s v (Suc n) =
     (if m s \<noteq> v then sint (m s) - sint v else memcstcmp m (s + 1) v n)"

section \<open>Specification\<close>

text \<open>The effect of filling and of copying a range at once.\<close>

definition filled :: "mem \<Rightarrow> addr \<Rightarrow> u8 \<Rightarrow> nat \<Rightarrow> mem" where
  "filled m dst s n = (\<lambda>x. if unat (x - dst) < n then s else m x)"

definition copied :: "mem \<Rightarrow> addr \<Rightarrow> addr \<Rightarrow> nat \<Rightarrow> mem" where
  "copied m dst src n = (\<lambda>x. if unat (x - dst) < n then m (src + (x - dst)) else m x)"

section \<open>Lemmas\<close>

declare memset_words.simps [simp del] memcpy_words.simps [simp del]

subsection \<open>Addresses\<close>

text \<open>The offset of an address in a range, one position further.\<close>

lemma offset_Suc:
  fixes x d :: addr
  shows "x \<noteq> d \<Longrightarrow> unat (x - d) = Suc (unat (x - (d + 1)))"
proof -
  assume "x \<noteq> d"
  then have "unat (x - d - 1) = unat (x - d) - 1" "0 < unat (x - d)"
    by (simp_all add: unat_pred unat_gt_0)
  then show ?thesis
    by (simp add: diff_diff_eq)
qed

lemma offset_last: "unat (d - (d + 1) :: addr) = 2 ^ 32 - 1"
  using unat_minus_one_eq [where 'a = 32] by simp

lemma word_nat_ne: "i < n \<Longrightarrow> n \<le> 2 ^ 32 \<Longrightarrow> unat (of_nat i :: addr) = i"
  by (simp add: unat_of_nat)

subsection \<open>Filling\<close>

lemma filled_0 [simp]: "filled m d s 0 = m"
  by (simp add: filled_def)

lemma filled_Suc:
  assumes "Suc n \<le> 2 ^ 32"
  shows "filled (m(d := s)) (d + 1) s n = filled m d s (Suc n)"
proof
  fix x
  show "filled (m(d := s)) (d + 1) s n x = filled m d s (Suc n) x"
    using assms offset_last [of d] offset_Suc [of x d] by (cases "x = d") (simp_all add: filled_def)
qed

lemma memset_bytes_filled: "n \<le> 2 ^ 32 \<Longrightarrow> memset_bytes m a s n = filled m a s n"
  by (induction n arbitrary: m a) (simp_all add: filled_Suc)

lemma memset_bytes_append:
  "memset_bytes (memset_bytes m a s i) (a + of_nat i) s j = memset_bytes m a s (i + j)"
proof (induction i arbitrary: m a)
  case (Suc i)
  then show ?case
    using Suc [of "m(a := s)" "a + 1"] by (simp add: add.assoc del: fun_upd_apply)
qed simp

text \<open>The word \<open>s * 0x01010101\<close> has the byte \<open>s\<close> four times.\<close>

lemma repeated_byte:
  fixes s :: u8
  shows "k < 4 \<Longrightarrow> ucast (drop_bit (8 * k) (ucast s * 0x01010101 :: u32)) = s"
proof -
  assume k: "k < 4"
  have u: "unat s < 256"
    using unat_lt2p [of s] by simp
  have p: "unat (ucast s * 0x01010101 :: u32) = unat s * 0x01010101"
    using u by (simp add: unat_word_ariths unat_ucast_mod)
  have "unat s * 0x01010101 div 2 ^ (8 * k) mod 256 = unat s"
  proof -
    let ?s = "unat s"
    have e: "(?s + 256 * (?s * 65793)) mod 256 = ?s" "(?s + 256 * (?s * 65793)) div 256 = ?s * 65793"
      "(?s * 257 + 65536 * (?s * 257)) div 65536 = ?s * 257"
      "(?s * 65793 + 16777216 * ?s) div 16777216 = ?s"
      "(?s + 256 * (?s * 257)) mod 256 = ?s" "(?s + 256 * ?s) mod 256 = ?s"
      using u by (simp_all only: mod_mult_self2 div_mult_self2) simp_all
    consider "k = 0" | "k = 1" | "k = 2" | "k = 3"
      using k by linarith
    then show ?thesis
      using e by cases (simp_all add: algebra_simps)
  qed
  then have "unat (ucast (drop_bit (8 * k) (ucast s * 0x01010101 :: u32)) :: u8) = unat s"
    unfolding unat_ucast_mod unat_drop_bit_div p by simp
  then show ?thesis
    by (simp only: word_unat_eq_iff)
qed

lemma four: "(4 :: nat) = Suc (Suc (Suc (Suc 0)))"
  by simp

lemma memset_word:
  "endian_le32_na_store m a (ucast s * 0x01010101) = memset_bytes m a s 4"
  using repeated_byte [of 0 s] repeated_byte [of 1 s] repeated_byte [of 2 s] repeated_byte [of 3 s]
  unfolding four by (simp add: endian_le32_na_store_def NAS_R_def add.assoc)

lemma memset_words_bytes:
  "4 dvd n \<Longrightarrow> memset_words m a (ucast s * 0x01010101) n = (memset_bytes m a s n, a + of_nat n)"
proof (induction n arbitrary: m a rule: less_induct)
  case (less n)
  show ?case
  proof (cases "n = 0")
    case False
    then obtain k where k: "n = 4 + k" "4 dvd k"
    proof -
      obtain j where "n = 4 * j"
        using less.prems by (rule dvdE)
      moreover from this obtain i where "j = Suc i"
        using False by (cases j) simp_all
      ultimately show ?thesis
        using that [of "4 * i"] by simp
    qed
    have "memset_words m a (ucast s * 0x01010101) n
      = memset_words (memset_bytes m a s 4) (a + 4) (ucast s * 0x01010101) k"
      using k(1) by (subst memset_words.simps) (simp add: memset_word)
    also have "\<dots> = (memset_bytes (memset_bytes m a s 4) (a + 4) s k, a + 4 + of_nat k)"
      using k by (intro less.IH) simp_all
    also have "\<dots> = (memset_bytes m a s n, a + of_nat n)"
      using k(1) memset_bytes_append [of m a s 4 k] by (simp add: add.assoc)
    finally show ?thesis .
  qed (simp add: memset_words.simps)
qed

lemma memset_align_bytes:
  "memset_align m a s n = (m', a', n') \<Longrightarrow> n' \<le> n \<and> m' = memset_bytes m a s (n - n') \<and> a' = a + of_nat (n - n')"
proof (induction n arbitrary: m a)
  case (Suc n)
  show ?case
  proof (cases "a AND 3 = 0")
    case False
    then have "memset_align (m(a := s)) (a + 1) s n = (m', a', n')"
      using Suc.prems by simp
    from Suc.IH [OF this] have "n' \<le> n" "m' = memset_bytes (m(a := s)) (a + 1) s (n - n')"
      "a' = a + 1 + of_nat (n - n')"
      by (simp_all del: fun_upd_apply)
    then show ?thesis
      by (simp add: Suc_diff_le del: fun_upd_apply)
  qed (use Suc.prems in simp)
qed simp

lemma memset_is_bytes: "memset m dst s n = memset_bytes m dst s n"
proof -
  obtain m' a' n' where al: "memset_align m dst s n = (m', a', n')"
    by (metis prod_cases3)
  note a = memset_align_bytes [OF al]
  have "4 dvd n' - n' mod 4"
    by (simp add: dvd_minus_mod)
  then have "memset m dst s n = memset_bytes (memset_bytes m' a' s (n' - n' mod 4)) (a' + of_nat (n' - n' mod 4)) s (n' mod 4)"
    by (simp add: memset_def al memset_words_bytes Let_def)
  also have "\<dots> = memset_bytes m' a' s n'"
    unfolding memset_bytes_append by simp
  also have "\<dots> = memset_bytes m dst s n"
    using a memset_bytes_append [of m dst s "n - n'" n'] by simp
  finally show ?thesis .
qed

subsection \<open>Copying\<close>

lemma memcpy_bytes_append:
  "memcpy_bytes (memcpy_bytes m d s i) (d + of_nat i) (s + of_nat i) j = memcpy_bytes m d s (i + j)"
proof (induction i arbitrary: m d s)
  case (Suc i)
  then show ?case
    using Suc [of "m(d := m s)" "d + 1" "s + 1"] by (simp add: add.assoc del: fun_upd_apply)
qed simp

text \<open>The four bytes of a word that was loaded.\<close>

lemma load_bytes:
  "ucast (endian_le32_na_load m s) = m s" "ucast (drop_bit 8 (endian_le32_na_load m s)) = m (s + 1)"
  "ucast (drop_bit 16 (endian_le32_na_load m s)) = m (s + 2)"
  "ucast (drop_bit 24 (endian_le32_na_load m s)) = m (s + 3)"
  unfolding endian_le32_na_load_def NAL_L_def
  by (rule bit_eqI; auto simp: bit_simps dest: bit_imp_le_length)+

lemma aligned_mod: "x AND 3 = 0 \<longleftrightarrow> unat (x :: addr) mod 4 = 0"
proof -
  have "x AND 3 = take_bit 2 x"
    by (simp add: take_bit_eq_mask mask_eq_exp_minus_1)
  moreover have "unat (take_bit 2 x) = unat x mod 4"
    by (simp only: unsigned_take_bit_eq) (simp add: take_bit_eq_mod)
  ultimately show ?thesis
    by (metis unat_eq_zero)
qed

lemma aligned_offset:
  assumes "s AND 3 = 0" "d AND 3 = 0" "k < 4" "0 < k"
  shows "s + of_nat k \<noteq> (d :: addr)"
proof
  assume d: "s + of_nat k = d"
  have "unat d mod 4 = (unat s + k) mod 4"
    unfolding d [symmetric] unat_word_ariths unat_of_nat by (simp add: mod_mod_cancel mod_add_right_eq)
  also have "\<dots> = k"
    using assms(1,3) aligned_mod [of s] by (simp add: mod_add_eq [symmetric, of "unat s"])
  finally show False
    using assms(2,4) aligned_mod [of d] by simp
qed

lemma memcpy_word:
  assumes "d AND 3 = 0" "s AND 3 = 0"
  shows "endian_le32_na_store m d (endian_le32_na_load m s) = memcpy_bytes m d s 4"
proof -
  have "s + 1 \<noteq> d" "s + 2 \<noteq> d" "s + 3 \<noteq> d"
    using aligned_offset [OF assms(2,1), of 1] aligned_offset [OF assms(2,1), of 2]
      aligned_offset [OF assms(2,1), of 3] by simp_all
  moreover from this have "s + 1 + 1 \<noteq> d + 1" "s + 2 + 1 \<noteq> d + 1" "s + 1 + 2 \<noteq> d + 2"
    unfolding add_right_cancel by simp_all
  ultimately show ?thesis
    unfolding four by (simp add: endian_le32_na_store_def NAS_R_def load_bytes add.assoc)
qed

lemma aligned_add_4: "a AND 3 = 0 \<Longrightarrow> (a + 4) AND 3 = (0 :: addr)"
  using aligned_mod by (auto simp: unat_word_ariths mod_mod_cancel)

lemma memcpy_words_bytes:
  assumes "d AND 3 = 0" "s AND 3 = 0" "memcpy_words m d s n = (m', d', s', n')"
  shows "memcpy_bytes m' d' s' n' = memcpy_bytes m d s n"
  using assms
proof (induction n arbitrary: m d s rule: less_induct)
  case (less n)
  show ?case
  proof (cases "n \<ge> 4")
    case True
    let ?m = "memcpy_bytes m d s 4"
    have "memcpy_words ?m (d + 4) (s + 4) (n - 4) = (m', d', s', n')"
      using less.prems True memcpy_word [OF less.prems(1,2)] by (subst (asm) memcpy_words.simps) simp
    then have "memcpy_bytes m' d' s' n' = memcpy_bytes ?m (d + 4) (s + 4) (n - 4)"
      using True less.prems by (intro less.IH) (simp_all add: aligned_add_4)
    then show ?thesis
      using True memcpy_bytes_append [of m d s 4 "n - 4"] by simp
  next
    case False
    then show ?thesis
      using less.prems by (subst (asm) memcpy_words.simps) simp
  qed
qed

lemma memcpy_is_bytes: "memcpy m d s n = memcpy_bytes m d s n"
proof (cases "d AND 3 = 0 \<and> s AND 3 = 0")
  case True
  obtain m' d' s' n' where w: "memcpy_words m d s n = (m', d', s', n')"
    by (metis prod_cases4)
  then show ?thesis
    using True memcpy_words_bytes [OF _ _ w] by (simp add: memcpy_def)
qed (auto simp: memcpy_def)

text \<open>Copying upwards is right when no byte is written before it is read, downwards likewise.\<close>

lemma memcpy_bytes_copied:
  assumes "\<And>k j. k < j \<Longrightarrow> j < n \<Longrightarrow> d + of_nat k \<noteq> s + of_nat j" "n \<le> 2 ^ 32"
  shows "memcpy_bytes m d s n = copied m d s n"
  using assms
proof (induction n arbitrary: m d s)
  case (Suc n)
  have "d + 1 + of_nat k \<noteq> s + 1 + of_nat j" if "k < j" "j < n" for k j
    using Suc.prems(1) [of "Suc k" "Suc j"] that by (simp add: add.assoc add.left_commute)
  then have IH: "memcpy_bytes (m(d := m s)) (d + 1) (s + 1) n = copied (m(d := m s)) (d + 1) (s + 1) n"
    using Suc.prems(2) by (intro Suc.IH) simp_all
  show ?case
  proof
    fix x
    show "memcpy_bytes m d s (Suc n) x = copied m d s (Suc n) x"
    proof (cases "x = d")
      case True
      then show ?thesis
        using IH Suc.prems(2) offset_last [of d] by (simp add: copied_def)
    next
      case False
      note o = offset_Suc [OF False]
      have "s + 1 + (x - (d + 1)) = s + (x - d)"
        by simp
      moreover have "s + (x - d) \<noteq> d" if "unat (x - (d + 1)) < n"
        using Suc.prems(1) [of 0 "unat (x - d)"] that o by auto
      ultimately show ?thesis
        using IH False o by (auto simp: copied_def)
    qed
  qed
qed (simp add: copied_def)

lemma memcpy_reverse_copied:
  assumes "\<And>k j. j < k \<Longrightarrow> k < n \<Longrightarrow> d + of_nat k \<noteq> s + of_nat j" "n \<le> 2 ^ 32"
  shows "memcpy_reverse m d s n = copied m d s n"
  unfolding memcpy_reverse_def using assms
proof (induction n arbitrary: m)
  case (Suc n)
  let ?d = "d + of_nat n" and ?s = "s + of_nat n"
  have step: "memcpy_reverse_loop m (d + of_nat (Suc n)) (s + of_nat (Suc n)) (Suc n)
     = memcpy_reverse_loop (m(?d := m ?s)) ?d ?s n"
    by (simp add: Let_def)
  have IH: "memcpy_reverse_loop (m(?d := m ?s)) ?d ?s n = copied (m(?d := m ?s)) d s n"
    using Suc.prems by (intro Suc.IH) simp_all
  have un: "unat (of_nat n :: addr) = n"
    using Suc.prems(2) by (intro word_nat_ne [of _ "Suc n"]) simp_all
  show ?case
  proof
    fix x
    consider "unat (x - d) < n" | "x = ?d" | "unat (x - d) > n"
      using un by (metis add.commute diff_add_cancel linorder_neqE_nat word_unat_eq_iff)
    then show "memcpy_reverse_loop m (d + of_nat (Suc n)) (s + of_nat (Suc n)) (Suc n) x = copied m d s (Suc n) x"
    proof cases
      case 1
      then have "s + (x - d) \<noteq> ?d"
        using Suc.prems(1) [of "unat (x - d)" n] by simp
      with 1 show ?thesis
        unfolding step IH by (simp add: copied_def)
    next
      case 2
      then show ?thesis
        unfolding step IH by (simp add: copied_def un)
    next
      case 3
      then have "x \<noteq> ?d"
        using un by auto
      with 3 show ?thesis
        unfolding step IH by (simp add: copied_def)
    qed
  qed
qed (simp add: copied_def)

lemma unat_add_offset: "unat (d :: addr) + k < 2 ^ 32 \<Longrightarrow> unat (d + of_nat k) = unat d + k"
  by (subst unat_add_small) (simp_all add: unat_of_nat)

section \<open>Properties\<close>

text \<open>
  \<^verbatim>\<open>memset\<close>, with its byte, word and byte loops, stores the byte at exactly the \<open>n\<close> addresses from the
  destination, at every alignment and size, a range that wraps around the address space included.
\<close>

theorem memset_correct:
  assumes "n < 2 ^ 32"
  shows "memset m dst s n = (\<lambda>x. if unat (x - dst) < n then s else m x)"
  using assms by (simp add: memset_is_bytes memset_bytes_filled filled_def)

theorem memset_correct_witness: "memset (\<lambda>_. 0) 0x1003 7 6 0x1008 = 7 \<and> memset (\<lambda>_. 0) 0x1003 7 6 0x1009 = 0"
  using memset_correct [of 6 "\<lambda>_. 0" "0x1003" 7] by simp

text \<open>
  C20: \<^verbatim>\<open>memmove\<close> between two ranges that lie in the address space copies the source as it was before the
  call, however the ranges overlap and are aligned, and changes nothing else.
\<close>

theorem memmove_correct:
  assumes "unat dst + n \<le> 2 ^ 32" "unat src + n \<le> 2 ^ 32"
  shows "memmove m dst src n = (\<lambda>x. if unat (x - dst) < n then m (src + (x - dst)) else m x)"
proof (cases "dst > src")
  case True
  have "dst + of_nat k \<noteq> src + of_nat j" if "j < k" "k < n" for k j
  proof
    assume "dst + of_nat k = src + of_nat j"
    then have "unat dst + k = unat src + j"
      using that assms unat_add_offset [of dst k] unat_add_offset [of src j] by simp
    then show False
      using True that by (simp add: word_less_nat_alt)
  qed
  then show ?thesis
    using True assms memcpy_reverse_copied [of n dst src m] by (simp add: memmove_def copied_def)
next
  case False
  have "dst + of_nat k \<noteq> src + of_nat j" if "k < j" "j < n" for k j
  proof
    assume "dst + of_nat k = src + of_nat j"
    then have "unat dst + k = unat src + j"
      using that assms unat_add_offset [of dst k] unat_add_offset [of src j] by simp
    then show False
      using False that by (simp add: word_less_nat_alt)
  qed
  then show ?thesis
    using False assms memcpy_bytes_copied [of n dst src m]
    by (simp add: memmove_def memcpy_is_bytes copied_def)
qed

theorem memmove_correct_witness:
  "memmove (\<lambda>x. ucast x) 0x1002 0x1000 8 0x1005 = 3 \<and> memmove (\<lambda>x. ucast x) 0x1000 0x1004 8 0x1007 = 11"
  using memmove_correct [of "0x1002" 8 "0x1000" "\<lambda>x. ucast x"]
    memmove_correct [of "0x1000" 8 "0x1004" "\<lambda>x. ucast x"] by simp

text \<open>
  \<^verbatim>\<open>memcpy\<close> by words is the byte by byte copy upwards for all addresses and sizes, overlapping ones
  included, and copies the source range to the destination when the two do not overlap.
\<close>

theorem memcpy_correct:
  assumes "unat dst + n \<le> 2 ^ 32" "unat src + n \<le> 2 ^ 32" "unat dst + n \<le> unat src \<or> unat src + n \<le> unat dst"
  shows "memcpy m dst src n = memcpy_bytes m dst src n
    \<and> memcpy m dst src n = (\<lambda>x. if unat (x - dst) < n then m (src + (x - dst)) else m x)"
proof -
  have "dst + of_nat k \<noteq> src + of_nat j" if "k < j" "j < n" for k j
  proof
    assume "dst + of_nat k = src + of_nat j"
    then have "unat dst + k = unat src + j"
      using that assms unat_add_offset [of dst k] unat_add_offset [of src j] by simp
    then show False
      using assms(3) that by linarith
  qed
  then show ?thesis
    using assms memcpy_bytes_copied [of n dst src m] by (simp add: memcpy_is_bytes copied_def)
qed

theorem memcpy_correct_witness: "memcpy (\<lambda>x. ucast x) 0x2000 0x1000 9 0x2008 = 8"
proof -
  have e: "memcpy (\<lambda>x. ucast x) 0x2000 0x1000 9
    = (\<lambda>x. if unat (x - 0x2000) < 9 then ucast (0x1000 + (x - 0x2000)) else ucast x)"
    by (rule memcpy_correct [THEN conjunct2]) simp_all
  show ?thesis
    unfolding e by simp
qed

text \<open>
  \<^verbatim>\<open>memchr\<close> compares the unsigned byte of the memory with the signed argument: a byte above 127 that is
  there is not found when it is passed as the negative value that a \<^verbatim>\<open>char\<close> or \<^verbatim>\<open>int8_t\<close> has.
\<close>

theorem memchr_negative:
  assumes "c < 0"
  shows "memchr m s c n = None"
  using assms
proof (induction n arbitrary: s)
  case (Suc n)
  moreover have "uint (m s) \<noteq> c"
    using Suc.prems uint_nonnegative [of "m s"] by linarith
  ultimately show ?case
    by simp
qed simp

theorem memchr_negative_witness: "memchr (\<lambda>_. 0xc3) 0x1000 (sint (0xc3 :: u8)) 16 = None"
  by (rule memchr_negative) simp

end
