(* ===== verification/Libc_String.thy ===== *)
theory Libc_String
  imports Libc_Mem "HOL-Library.Monad_Syntax"
begin

text \<open>
  The string functions of \<^verbatim>\<open>libc/string.c\<close> in their generic C versions, on the flat memory.  A loop that runs
  until a zero byte is a partial function, \<open>None\<close> when it never ends; a null pointer is the result \<open>Some None\<close>.
  \<^verbatim>\<open>char\<close> is signed.  The lemmas relate the functions to the lists of bytes that the strings hold.
\<close>

section \<open>Operations\<close>

partial_function (option) strlen_loop :: "mem \<Rightarrow> addr \<Rightarrow> addr option" where
  "strlen_loop m s = (if m s \<noteq> 0 then strlen_loop m (s + 1) else Some s)"

definition strlen :: "mem \<Rightarrow> addr \<Rightarrow> u32 option" where
  "strlen m s = do { s' \<leftarrow> strlen_loop m s; Some (s' - s) }"

partial_function (option) strcpy_loop :: "mem \<Rightarrow> addr \<Rightarrow> addr \<Rightarrow> mem option" where
  "strcpy_loop m s t =
     (let m = m(s := m t) in if m s = 0 then Some m else strcpy_loop m (s + 1) (t + 1))"

definition strcat :: "mem \<Rightarrow> addr \<Rightarrow> addr \<Rightarrow> mem option" where
  "strcat m s t = do { l \<leftarrow> strlen m s; strcpy_loop m (s + l) t }"

definition strcpy :: "mem \<Rightarrow> addr \<Rightarrow> addr \<Rightarrow> mem option" where
  "strcpy m s1 s2 = strcpy_loop m s1 s2"

fun strncat_loop :: "mem \<Rightarrow> addr \<Rightarrow> addr \<Rightarrow> nat \<Rightarrow> mem" where
  "strncat_loop m d s 0 = m(d := 0)"
| "strncat_loop m d s (Suc n) =
     (let m = m(d := m s) in if m d = 0 then m(d := 0) else strncat_loop m (d + 1) (s + 1) n)"

definition strncat :: "mem \<Rightarrow> addr \<Rightarrow> addr \<Rightarrow> nat \<Rightarrow> mem option" where
  "strncat m dst src n =
     (if n \<noteq> 0 then do { d \<leftarrow> strlen_loop m dst; Some (strncat_loop m d src n) } else Some m)"

partial_function (option) strchr :: "mem \<Rightarrow> addr \<Rightarrow> u8 \<Rightarrow> addr option option" where
  "strchr m t ch =
     (if m t = ch then Some (Some t) else if m t = 0 then Some None else strchr m (t + 1) ch)"

partial_function (option) strrchr_loop :: "mem \<Rightarrow> addr \<Rightarrow> u8 \<Rightarrow> addr option \<Rightarrow> addr option option" where
  "strrchr_loop m t ch lst =
     (let lst = (if m t = ch then Some t else lst)
      in if m t = 0 then Some lst else strrchr_loop m (t + 1) ch lst)"

definition strrchr :: "mem \<Rightarrow> addr \<Rightarrow> u8 \<Rightarrow> addr option option" where
  "strrchr m t ch = strrchr_loop m t ch None"

partial_function (option) strcmp :: "mem \<Rightarrow> addr \<Rightarrow> addr \<Rightarrow> int option" where
  "strcmp m s1 s2 =
     (if m s1 \<noteq> 0 \<and> m s1 = m s2 then strcmp m (s1 + 1) (s2 + 1) else Some (sint (m s1) - sint (m s2)))"

text \<open>\<^verbatim>\<open>strdup\<close>: \<open>malloc n m\<close> gives the block and the memory, with no block when there is no memory.\<close>

definition strdup :: "(nat \<Rightarrow> mem \<Rightarrow> addr option \<times> mem) \<Rightarrow> mem \<Rightarrow> addr \<Rightarrow> (mem \<times> addr option) option" where
  "strdup malloc m s = do {
     len \<leftarrow> strlen m s;
     let (tmp, m) = malloc (unat len + 1) m;
     case tmp of
       None \<Rightarrow> Some (m, None)
     | Some p \<Rightarrow> Some ((memcpy m p s (unat len))(p + len := 0), Some p)
   }"

fun strstr_loop :: "mem \<Rightarrow> addr \<Rightarrow> addr \<Rightarrow> nat \<Rightarrow> nat \<Rightarrow> addr option" where
  "strstr_loop m h n nl 0 = None"
| "strstr_loop m h n nl (Suc i) =
     (if m h = m n \<and> memcmp m h n nl = 0 then Some h else strstr_loop m (h + 1) n nl i)"

definition strstr :: "mem \<Rightarrow> addr \<Rightarrow> addr \<Rightarrow> addr option option" where
  "strstr m haystack needle = do {
     nl \<leftarrow> strlen m needle;
     hl \<leftarrow> strlen m haystack;
     if nl = 0 then Some (Some haystack)
     else if nl > hl then Some None
     else Some (strstr_loop m haystack needle (unat nl) (unat (hl - nl + 1)))
   }"

text \<open>
  The case-insensitive comparisons, with the 32 bit \<^verbatim>\<open>uint_fast8_t\<close>: the difference to the letter A, with
  the capitals moved to the small letters.
\<close>

definition fold_case :: "u8 \<Rightarrow> u32" where
  "fold_case c = (let x = word_of_int (sint c - 65) in if x < 26 then x + 32 else x)"

partial_function (option) strcasecmp :: "mem \<Rightarrow> addr \<Rightarrow> addr \<Rightarrow> int option" where
  "strcasecmp m s1 s2 =
     (let x2 = fold_case (m s2); x1 = fold_case (m s1)
      in if x2 \<noteq> x1 then Some (sint (x1 - x2))
         else if x1 = - 65 then Some (sint (x1 - x2))
         else strcasecmp m (s1 + 1) (s2 + 1))"

text \<open>The end of the first string is an address: \<^verbatim>\<open>s1 + len\<close> wraps around for a large \<^verbatim>\<open>len\<close>.\<close>

partial_function (option) strncasecmp_loop :: "mem \<Rightarrow> addr \<Rightarrow> addr \<Rightarrow> addr \<Rightarrow> int option" where
  "strncasecmp_loop m s1 s2 end =
     (if s1 \<ge> end then Some 0
      else let x2 = fold_case (m s2); x1 = fold_case (m s1)
      in if x2 \<noteq> x1 then Some (sint (x1 - x2))
         else if x1 = - 65 then Some (sint (x1 - x2))
         else strncasecmp_loop m (s1 + 1) (s2 + 1) end)"

definition strncasecmp :: "mem \<Rightarrow> addr \<Rightarrow> addr \<Rightarrow> u32 \<Rightarrow> int option" where
  "strncasecmp m s1 s2 len = strncasecmp_loop m s1 s2 (s1 + len)"

fun strncpy :: "mem \<Rightarrow> addr \<Rightarrow> addr \<Rightarrow> nat \<Rightarrow> mem" where
  "strncpy m dest src 0 = m"
| "strncpy m dest src (Suc n) =
     (if m src \<noteq> 0 then strncpy (m(dest := m src)) (dest + 1) (src + 1) n
      else memset_bytes m dest 0 (Suc n))"

partial_function (option) strncmp_loop :: "mem \<Rightarrow> addr \<Rightarrow> addr \<Rightarrow> addr \<Rightarrow> int option" where
  "strncmp_loop m a b fini =
     (if a < fini
      then let res = uint (m a) - uint (m b)
           in if res \<noteq> 0 then Some res else if m a = 0 then Some 0 else strncmp_loop m (a + 1) (b + 1) fini
      else Some 0)"

definition strncmp :: "mem \<Rightarrow> addr \<Rightarrow> addr \<Rightarrow> u32 \<Rightarrow> int option" where
  "strncmp m s1 s2 n = strncmp_loop m s1 s2 (s1 + n)"

text \<open>The inner loop of \<^verbatim>\<open>strspn\<close> and \<^verbatim>\<open>strcspn\<close>: whether a byte is one of the next \<open>al\<close>.\<close>

fun in_bytes :: "mem \<Rightarrow> u8 \<Rightarrow> addr \<Rightarrow> nat \<Rightarrow> bool" where
  "in_bytes m c p 0 = False"
| "in_bytes m c p (Suc al) = (c = m p \<or> in_bytes m c (p + 1) al)"

partial_function (option) strspn_loop :: "mem \<Rightarrow> addr \<Rightarrow> addr \<Rightarrow> nat \<Rightarrow> u32 \<Rightarrow> u32 option" where
  "strspn_loop m s accept al l =
     (if m s \<noteq> 0 then
        (if in_bytes m (m s) accept al then strspn_loop m (s + 1) accept al (l + 1) else Some l)
      else Some l)"

definition strspn :: "mem \<Rightarrow> addr \<Rightarrow> addr \<Rightarrow> u32 option" where
  "strspn m s accept = do { al \<leftarrow> strlen m accept; strspn_loop m s accept (unat al) 0 }"

partial_function (option) strcspn_loop :: "mem \<Rightarrow> addr \<Rightarrow> addr \<Rightarrow> nat \<Rightarrow> u32 \<Rightarrow> u32 option" where
  "strcspn_loop m s reject al l =
     (if m s \<noteq> 0 then
        (if \<not> in_bytes m (m s) reject al then strcspn_loop m (s + 1) reject al (l + 1) else Some l)
      else Some l)"

definition strcspn :: "mem \<Rightarrow> addr \<Rightarrow> addr \<Rightarrow> u32 option" where
  "strcspn m s reject = do { al \<leftarrow> strlen m reject; strcspn_loop m s reject (unat al) 0 }"

text \<open>\<^verbatim>\<open>strtok_r\<close>: \<open>ptr\<close> is what \<^verbatim>\<open>*ptrptr\<close> holds; the result has the memory, the token and the new \<^verbatim>\<open>*ptrptr\<close>.\<close>

definition strtok_r :: "mem \<Rightarrow> addr option \<Rightarrow> addr \<Rightarrow> addr \<Rightarrow> (mem \<times> addr option \<times> addr) option" where
  "strtok_r m s delim ptr = do {
     let s = (case s of None \<Rightarrow> ptr | Some s \<Rightarrow> s);
     l \<leftarrow> strspn m s delim;
     let s = s + l;
     if m s \<noteq> 0 then do {
       let tmp = s;
       l \<leftarrow> strcspn m s delim;
       let s = s + l;
       if m s \<noteq> 0 then Some (m(s := 0), Some tmp, s + 1)
       else Some (m, Some tmp, s)
     }
     else Some (m, None, s)
   }"

partial_function (option) strpbrk_scan :: "mem \<Rightarrow> addr \<Rightarrow> u8 \<Rightarrow> bool option" where
  "strpbrk_scan m p c =
     (if m p \<noteq> 0 then if m p = c then Some True else strpbrk_scan m (p + 1) c else Some False)"

partial_function (option) strpbrk :: "mem \<Rightarrow> addr \<Rightarrow> addr \<Rightarrow> addr option option" where
  "strpbrk m s1 s2 =
     (if m s1 \<noteq> 0 then do {
        found \<leftarrow> strpbrk_scan m s2 (m s1);
        if found then Some (Some s1) else strpbrk m (s1 + 1) s2
      }
      else Some None)"

section \<open>Strings in memory\<close>

text \<open>\<open>cstr m s xs\<close>: the string at \<open>s\<close> has the bytes \<open>xs\<close>, without the terminator.\<close>

fun cstr :: "mem \<Rightarrow> addr \<Rightarrow> bytes \<Rightarrow> bool" where
  "cstr m s [] \<longleftrightarrow> m s = 0"
| "cstr m s (x # xs) \<longleftrightarrow> m s = x \<and> x \<noteq> 0 \<and> cstr m (s + 1) xs"

text \<open>The distance of strings by their first different bytes, the terminator included.\<close>

fun str_diff :: "(u8 \<Rightarrow> int) \<Rightarrow> bytes \<Rightarrow> bytes \<Rightarrow> int" where
  "str_diff v [] [] = 0"
| "str_diff v [] (y # ys) = v 0 - v y"
| "str_diff v (x # xs) [] = v x - v 0"
| "str_diff v (x # xs) (y # ys) = (if x = y then str_diff v xs ys else v x - v y)"

section \<open>Lemmas\<close>

lemma cstr_nth: "cstr m s xs \<Longrightarrow> i < length xs \<Longrightarrow> m (s + of_nat i) = xs ! i"
proof (induction xs arbitrary: s i)
  case (Cons x xs)
  then show ?case
    using Cons.IH [of "s + 1" "i - 1"] by (cases i) (auto simp: add.assoc)
qed simp

lemma cstr_end: "cstr m s xs \<Longrightarrow> m (s + of_nat (length xs)) = 0"
proof (induction xs arbitrary: s)
  case (Cons x xs)
  then show ?case
    using Cons.IH [of "s + 1"] by (simp add: add.assoc)
qed simp

lemma cstr_nonzero: "cstr m s xs \<Longrightarrow> 0 \<notin> set xs"
  by (induction xs arbitrary: s) auto

lemma cstr_drop: "cstr m s xs \<Longrightarrow> i \<le> length xs \<Longrightarrow> cstr m (s + of_nat i) (drop i xs)"
proof (induction i arbitrary: xs s)
  case (Suc i)
  then obtain x ys where xs: "xs = x # ys"
    by (cases xs) auto
  then show ?case
    using Suc.IH [of "s + 1" ys] Suc.prems by (simp add: add.assoc)
qed simp

lemma cstr_shift:
  "cstr m t xs \<Longrightarrow> (\<And>j. j \<le> length xs \<Longrightarrow> m' (s + of_nat j) = m (t + of_nat j)) \<Longrightarrow> cstr m' s xs"
proof (induction xs arbitrary: s t)
  case Nil
  then show ?case
    using Nil(2) [of 0] by simp
next
  case (Cons x xs)
  have "cstr m' (s + 1) xs"
    using Cons.prems(1) Cons.prems(2) [of "Suc _"] by (intro Cons.IH [of "t + 1"]) (auto simp: add.assoc)
  then show ?case
    using Cons.prems(1) Cons.prems(2) [of 0] by simp
qed

lemmas cstr_frame = cstr_shift [where s = t and t = t for t]

lemma cstr_append:
  "cstr m s (xs @ ys) \<longleftrightarrow> 0 \<notin> set xs \<and> (\<forall>i < length xs. m (s + of_nat i) = xs ! i) \<and> cstr m (s + of_nat (length xs)) ys"
proof (induction xs arbitrary: s)
  case (Cons x xs)
  then show ?case
    unfolding length_Cons All_less_Suc2 by (auto simp: add.assoc)
qed simp

subsection \<open>Length and comparison\<close>

lemma strlen_loop_cstr: "cstr m s xs \<Longrightarrow> strlen_loop m s = Some (s + of_nat (length xs))"
proof (induction xs arbitrary: s)
  case Nil
  then show ?case
    by (subst strlen_loop.simps) simp
next
  case (Cons x xs)
  then show ?case
    by (subst strlen_loop.simps) (simp add: add.assoc)
qed

lemma strlen_cstr: "cstr m s xs \<Longrightarrow> strlen m s = Some (of_nat (length xs))"
  by (simp add: strlen_def strlen_loop_cstr)

lemma strcmp_cstr: "cstr m s xs \<Longrightarrow> cstr m t ys \<Longrightarrow> strcmp m s t = Some (str_diff sint xs ys)"
proof (induction "sint :: u8 \<Rightarrow> int" xs ys arbitrary: s t rule: str_diff.induct)
  case (4 x xs y ys)
  then show ?case
    by (subst strcmp.simps) auto
qed (subst strcmp.simps; auto)+

lemma addr_next: "unat a < unat (fini :: addr) \<Longrightarrow> unat (a + 1 :: addr) = unat a + 1"
  using u32_unat_bound [of fini] by (subst unat_add_small) simp_all

lemma strncmp_loop_cstr:
  "cstr m s xs \<Longrightarrow> cstr m t ys \<Longrightarrow> unat s + length xs < unat fini \<Longrightarrow> strncmp_loop m s t fini = Some (str_diff uint xs ys)"
proof (induction "uint :: u8 \<Rightarrow> int" xs ys arbitrary: s t rule: str_diff.induct)
  case (4 x xs y ys)
  then show ?case
    using addr_next [of s fini] by (subst strncmp_loop.simps) (auto simp: word_less_nat_alt word_uint_eq_iff)
qed (subst strncmp_loop.simps; auto simp: word_less_nat_alt unsigned_eq_0_iff)+

lemma strncmp_cstr:
  assumes "cstr m s xs" "cstr m t ys" "length xs < unat n" "unat s + unat n < 2 ^ 32"
  shows "strncmp m s t n = Some (str_diff uint xs ys)"
  using strncmp_loop_cstr [OF assms(1,2), of "s + n"] assms(3,4) by (simp add: strncmp_def unat_add_small)

lemma str_diff_eq_0: "inj v \<Longrightarrow> 0 \<notin> set xs \<Longrightarrow> 0 \<notin> set ys \<Longrightarrow> str_diff v xs ys = 0 \<longleftrightarrow> xs = ys"
  by (induction v xs ys rule: str_diff.induct) (auto simp: inj_eq)

lemma inj_sint: "inj (sint :: u8 \<Rightarrow> int)" and inj_uint: "inj (uint :: u8 \<Rightarrow> int)"
  by (auto intro!: injI simp: word_eq_iff_signed word_uint_eq_iff)

subsection \<open>Copying\<close>

lemma offset_range:
  assumes "unat d + n \<le> 2 ^ 32"
  shows "unat (x - d :: addr) < n \<longleftrightarrow> unat d \<le> unat x \<and> unat x < unat d + n"
proof (cases "unat d \<le> unat x")
  case True
  then show ?thesis
    by (auto simp: unat_sub_le word_le_nat_alt)
next
  case False
  then have "unat (x - d) = 2 ^ 32 - (unat d - unat x)"
    using unat_lt2p [of d] by (simp add: unat_sub_if')
  with False show ?thesis
    using assms by auto
qed

lemma strcpy_loop_bytes:
  assumes "cstr m t xs" "\<And>k j. k < j \<Longrightarrow> j \<le> length xs \<Longrightarrow> s + of_nat k \<noteq> t + of_nat j"
  shows "strcpy_loop m s t = Some (memcpy_bytes m s t (Suc (length xs)))"
  using assms
proof (induction xs arbitrary: m s t)
  case Nil
  then show ?case
    by (subst strcpy_loop.simps) (simp add: Let_def)
next
  case (Cons x xs)
  let ?m = "m(s := m t)"
  have "cstr ?m (t + 1) xs"
  proof (rule cstr_frame)
    show "cstr m (t + 1) xs"
      using Cons.prems(1) by simp
    show "?m (t + 1 + of_nat j) = m (t + 1 + of_nat j)" if "j \<le> length xs" for j
      using Cons.prems(2) [of 0 "Suc j"] that by (auto simp: add.assoc)
  qed
  moreover have "s + 1 + of_nat k \<noteq> t + 1 + of_nat j" if "k < j" "j \<le> length xs" for k j
    using Cons.prems(2) [of "Suc k" "Suc j"] that by (simp add: add.assoc add.left_commute)
  ultimately have "strcpy_loop ?m (s + 1) (t + 1) = Some (memcpy_bytes ?m (s + 1) (t + 1) (Suc (length xs)))"
    by (intro Cons.IH)
  then show ?case
    using Cons.prems(1) by (subst strcpy_loop.simps) (simp add: Let_def del: fun_upd_apply, simp)
qed

subsection \<open>Searching\<close>

lemma memcmp_eq_0: "memcmp m d s n = 0 \<longleftrightarrow> (\<forall>i < n. m (d + of_nat i) = m (s + of_nat i))"
proof (induction n arbitrary: d s)
  case (Suc n)
  have "(\<forall>i < Suc n. m (d + of_nat i) = m (s + of_nat i))
    \<longleftrightarrow> m d = m s \<and> (\<forall>i < n. m (d + 1 + of_nat i) = m (s + 1 + of_nat i))"
    unfolding All_less_Suc2 by (simp add: add.assoc)
  then show ?case
    using Suc [of "d + 1" "s + 1"] by (auto simp: Let_def word_uint_eq_iff)
qed simp

lemma strstr_loop_first:
  assumes Q: "\<And>p. Q p \<longleftrightarrow> m p = m n \<and> memcmp m p n nl = 0"
  shows "case strstr_loop m h n nl i of
      Some p \<Rightarrow> \<exists>j < i. p = h + of_nat j \<and> Q p \<and> (\<forall>k < j. \<not> Q (h + of_nat k))
    | None \<Rightarrow> \<forall>j < i. \<not> Q (h + of_nat j)"
proof (induction i arbitrary: h)
  case (Suc i)
  show ?case
  proof (cases "Q h")
    case True
    then show ?thesis
      using Q [of h] by (auto intro!: exI [of _ 0])
  next
    case False
    then have step: "strstr_loop m h n nl (Suc i) = strstr_loop m (h + 1) n nl i"
      using Q [of h] by auto
    have shift: "h + of_nat (Suc j) = h + 1 + of_nat j" for j
      by (simp add: add.assoc)
    show ?thesis
    proof (cases "strstr_loop m (h + 1) n nl i")
      case None
      then show ?thesis
        using Suc [of "h + 1"] False step unfolding All_less_Suc2 shift by simp
    next
      case (Some p)
      then obtain j where j: "j < i" "p = h + 1 + of_nat j" "Q p" "\<forall>k < j. \<not> Q (h + 1 + of_nat k)"
        using Suc [of "h + 1"] by auto
      then have "\<forall>k < Suc j. \<not> Q (h + of_nat k)"
        using False unfolding All_less_Suc2 shift by simp
      then show ?thesis
        using j Some step shift by (auto intro!: exI [of _ "Suc j"])
    qed
  qed
qed simp

lemma cstr_match:
  assumes "cstr m h xs" "cstr m n ys" "ys \<noteq> []" "j + length ys \<le> length xs"
  shows "m (h + of_nat j) = m n \<and> memcmp m (h + of_nat j) n (length ys) = 0
    \<longleftrightarrow> take (length ys) (drop j xs) = ys"
proof -
  have "m (h + of_nat j + of_nat i) = xs ! (j + i)" if "i < length ys" for i
    using cstr_nth [OF assms(1), of "j + i"] that assms(4) by (simp add: add.assoc)
  then have "memcmp m (h + of_nat j) n (length ys) = 0 \<longleftrightarrow> (\<forall>i < length ys. xs ! (j + i) = ys ! i)"
    using cstr_nth [OF assms(2)] by (simp add: memcmp_eq_0)
  also have "\<dots> \<longleftrightarrow> take (length ys) (drop j xs) = ys"
    using assms(4) by (simp add: list_eq_iff_nth_eq)
  moreover have "m (h + of_nat j) = m n" if "memcmp m (h + of_nat j) n (length ys) = 0"
    using that assms(3) memcmp_eq_0 [of m "h + of_nat j" n "length ys"] by force
  ultimately show ?thesis
    by blast
qed

lemma in_bytes_cstr: "cstr m p ds \<Longrightarrow> in_bytes m c p (length ds) \<longleftrightarrow> c \<in> set ds"
  by (induction ds arbitrary: p) auto

lemma strspn_loop_cstr:
  assumes "\<And>c. in_bytes m c a al \<longleftrightarrow> c \<in> D" "cstr m s xs"
  shows "strspn_loop m s a al l = Some (l + of_nat (length (takeWhile (\<lambda>c. c \<in> D) xs)))"
    and "strcspn_loop m s a al l = Some (l + of_nat (length (takeWhile (\<lambda>c. c \<notin> D) xs)))"
  using assms(2)
proof (induction xs arbitrary: s l)
  case Nil
  {
    case 1
    then show ?case
      by (subst strspn_loop.simps) simp
  next
    case 2
    then show ?case
      by (subst strcspn_loop.simps) simp
  }
next
  case (Cons x xs)
  {
    case 1
    then show ?case
      using Cons.IH(1) [of "s + 1" "l + 1"] assms(1)
      by (subst strspn_loop.simps) (auto simp: add.assoc)
  next
    case 2
    then show ?case
      using Cons.IH(2) [of "s + 1" "l + 1"] assms(1)
      by (subst strcspn_loop.simps) (auto simp: add.assoc)
  }
qed

lemma strspn_cstr:
  assumes "cstr m s xs" "cstr m d ds" "length ds < 2 ^ 32"
  shows "strspn m s d = Some (of_nat (length (takeWhile (\<lambda>c. c \<in> set ds) xs)))"
    and "strcspn m s d = Some (of_nat (length (takeWhile (\<lambda>c. c \<notin> set ds) xs)))"
proof -
  have "in_bytes m c d (unat (of_nat (length ds) :: u32)) \<longleftrightarrow> c \<in> set ds" for c
    using in_bytes_cstr [OF assms(2)] assms(3) by (simp add: unat_of_nat)
  note r = strspn_loop_cstr [OF this assms(1), of 0]
  show "strspn m s d = Some (of_nat (length (takeWhile (\<lambda>c. c \<in> set ds) xs)))"
    using r(1) by (simp add: strspn_def strlen_cstr [OF assms(2)])
  show "strcspn m s d = Some (of_nat (length (takeWhile (\<lambda>c. c \<notin> set ds) xs)))"
    using r(2) by (simp add: strcspn_def strlen_cstr [OF assms(2)])
qed

text \<open>Two offsets below the size of the address space are different addresses.\<close>

lemma offset_ne: "i \<noteq> j \<Longrightarrow> i < 2 ^ 32 \<Longrightarrow> j < 2 ^ 32 \<Longrightarrow> s + of_nat i \<noteq> s + (of_nat j :: addr)"
  by (metis add_left_cancel word_nat_ne order_refl)

lemma cstr_upd_end:
  assumes "cstr m s (xs @ ys)" "length (xs @ ys) < 2 ^ 32"
  shows "cstr (m(s + of_nat (length xs) := 0)) s xs"
  using assms
proof (induction xs arbitrary: s)
  case (Cons x xs)
  have "cstr (m(s + 1 + of_nat (length xs) := 0)) (s + 1) xs"
    using Cons.prems by (intro Cons.IH) simp_all
  moreover have "s \<noteq> s + of_nat (length (x # xs))"
    using offset_ne [of 0 "length (x # xs)" s] Cons.prems(2) by simp
  ultimately show ?case
    using Cons.prems(1) by (simp add: add.assoc fun_upd_other del: fun_upd_apply)
qed simp

lemma takeWhile_block: "\<forall>x \<in> set xs. P x \<Longrightarrow> ys = [] \<or> \<not> P (hd ys) \<Longrightarrow> takeWhile P (xs @ ys) = xs"
  by (cases ys) (auto simp: takeWhile_append2)

lemma strtok_r_cstr:
  assumes s: "cstr m s (sep @ tok @ rest)" "length (sep @ tok @ rest) < 2 ^ 32"
    and d: "cstr m d ds" "length ds < 2 ^ 32"
    and split: "set sep \<subseteq> set ds" "set tok \<inter> set ds = {}" "rest = [] \<or> tok \<noteq> [] \<and> hd rest \<in> set ds"
    and t: "t = s + of_nat (length sep)" and e: "e = t + of_nat (length tok)"
  shows "strtok_r m (Some s) d p = Some (if tok = [] then (m, None, t)
     else if rest = [] then (m, Some t, e) else (m(e := 0), Some t, e + 1))"
    and "cstr m t (tok @ rest)" "cstr m e rest"
    and "rest \<noteq> [] \<Longrightarrow> cstr (m(e := 0)) t tok \<and> cstr (m(e := 0)) (e + 1) (tl rest)"
proof -
  show cs: "cstr m t (tok @ rest)"
    using cstr_drop [OF s(1), of "length sep"] by (simp add: t)
  then show r: "cstr m e rest"
    using cstr_drop [OF cs, of "length tok"] by (simp add: e)
  have z1: "m t = 0 \<longleftrightarrow> tok = []"
    using cs split(3) by (cases tok) auto
  have z2: "m e = 0 \<longleftrightarrow> rest = []"
    using r by (cases rest) simp_all
  have "tok @ rest = [] \<or> hd (tok @ rest) \<notin> set ds"
    using split(2,3) by (cases tok) auto
  then have w1: "takeWhile (\<lambda>c. c \<in> set ds) (sep @ tok @ rest) = sep"
    using split(1) by (intro takeWhile_block) auto
  have w2: "takeWhile (\<lambda>c. c \<notin> set ds) (tok @ rest) = tok"
    using split(2,3) by (intro takeWhile_block) auto
  have sp: "strspn m s d = Some (of_nat (length sep))"
    unfolding strspn_cstr(1) [OF s(1) d] w1 by simp
  have cp: "strcspn m t d = Some (of_nat (length tok))"
    unfolding strspn_cstr(2) [OF cs d] w2 by simp
  show "strtok_r m (Some s) d p = Some (if tok = [] then (m, None, t)
     else if rest = [] then (m, Some t, e) else (m(e := 0), Some t, e + 1))"
    by (simp add: strtok_r_def sp t [symmetric] z1 cp e [symmetric] z2)
  assume "rest \<noteq> []"
  then obtain c cs' where rest: "rest = c # cs'"
    by (cases rest) auto
  have "cstr (m(e := 0)) t tok"
    using cstr_upd_end [of m t tok rest] cs s(2) unfolding e by simp
  moreover have "cstr (m(e := 0)) (e + 1) cs'"
  proof (rule cstr_frame)
    show "cstr m (e + 1) cs'"
      using r rest by simp
    show "(m(e := 0)) (e + 1 + of_nat j) = m (e + 1 + of_nat j)" if "j \<le> length cs'" for j
      using offset_ne [of "Suc j" 0 e] that s(2) rest by (simp add: add.assoc)
  qed
  ultimately show "cstr (m(e := 0)) t tok \<and> cstr (m(e := 0)) (e + 1) (tl rest)"
    using rest by simp
qed

section \<open>Properties\<close>

text \<open>
  C21: \<^verbatim>\<open>strstr\<close> on two strings returns, and the result is the address of the first occurrence of the needle in
  the haystack, the haystack itself for an empty needle, or the null pointer when there is none.
\<close>

theorem strstr_correct:
  assumes "cstr m h xs" "cstr m n ys" "length xs < 2 ^ 32 - 1" "length ys < 2 ^ 32"
  shows "\<exists>r. strstr m h n = Some r \<and> (case r of
      Some p \<Rightarrow> \<exists>j. p = h + of_nat j \<and> take (length ys) (drop j xs) = ys
                 \<and> (\<forall>k < j. take (length ys) (drop k xs) \<noteq> ys)
    | None \<Rightarrow> \<forall>k. take (length ys) (drop k xs) \<noteq> ys)"
proof -
  let ?M = "\<lambda>k. take (length ys) (drop k xs) = ys"
  have u: "unat (of_nat (length xs) :: u32) = length xs" "unat (of_nat (length ys) :: u32) = length ys"
    using assms(3,4) by (simp_all add: unat_of_nat)
  have far: "\<not> ?M k" if "length xs < k + length ys" "ys \<noteq> []" for k
  proof
    assume "?M k"
    then have "length ys \<le> length xs - k"
      by (metis length_drop length_take min.absorb_iff2 min.commute)
    moreover have "0 < length ys"
      using that(2) by simp
    ultimately show False
      using that(1) by linarith
  qed
  show ?thesis
  proof (cases "ys = []")
    case True
    then show ?thesis
      using strlen_cstr [OF assms(1)] strlen_cstr [OF assms(2)]
      by (simp add: strstr_def exI [of _ 0])
  next
    case ne: False
    show ?thesis
    proof (cases "length xs < length ys")
      case True
      then have "strstr m h n = Some None"
        using ne strlen_cstr [OF assms(1)] strlen_cstr [OF assms(2)] u
        by (simp add: strstr_def word_less_nat_alt word_unat_eq_iff)
      then show ?thesis
        using far ne True by simp
    next
      case False
      let ?i = "length xs - length ys + 1"
      have "unat (of_nat (length xs) - of_nat (length ys) + 1 :: u32) = ?i"
        using False u assms(3) by (subst unat_add_small) (simp_all add: unat_sub_le word_le_nat_alt)
      then have run: "strstr m h n = Some (strstr_loop m h n (length ys) ?i)"
        using ne False strlen_cstr [OF assms(1)] strlen_cstr [OF assms(2)] u
        by (simp add: strstr_def word_less_nat_alt word_unat_eq_iff)
      have M: "m (h + of_nat j) = m n \<and> memcmp m (h + of_nat j) n (length ys) = 0 \<longleftrightarrow> ?M j" if "j < ?i" for j
        using that False by (intro cstr_match [OF assms(1,2) ne]) simp
      note first = strstr_loop_first [where Q = "\<lambda>p. m p = m n \<and> memcmp m p n (length ys) = 0" and h = h
            and i = ?i, OF refl]
      show ?thesis
      proof (cases "strstr_loop m h n (length ys) ?i")
        case None
        then have "\<not> ?M k" for k
          using first M far [OF _ ne, of k] by (cases "k < ?i") auto
        then show ?thesis
          using run None by simp
      next
        case (Some p)
        then obtain j where j: "j < ?i" "p = h + of_nat j"
          "m p = m n \<and> memcmp m p n (length ys) = 0"
          "\<forall>k < j. \<not> (m (h + of_nat k) = m n \<and> memcmp m (h + of_nat k) n (length ys) = 0)"
          using first by auto
        then have "?M j" "\<forall>k < j. \<not> ?M k"
          using M [OF j(1)] M by (simp, meson less_trans)
        then show ?thesis
          using run Some j(2) by auto
      qed
    qed
  qed
qed

text \<open>The memory that holds the bytes \<open>bs\<close> from the address \<open>0x1000\<close>, and zero elsewhere.\<close>

definition mem_of :: "bytes \<Rightarrow> mem" where
  "mem_of bs = (\<lambda>x. if unat (x - 0x1000) < length bs then bs ! unat (x - 0x1000) else 0)"

theorem strstr_correct_witness:
  "\<exists>r. strstr (mem_of [97, 98, 98, 99, 0, 98, 99]) 0x1000 0x1005 = Some r \<and> r \<noteq> None"
proof -
  have "cstr (mem_of [97, 98, 98, 99, 0, 98, 99]) 0x1000 [97, 98, 98, 99]"
    "cstr (mem_of [97, 98, 98, 99, 0, 98, 99]) 0x1005 [98, 99]"
    by (simp_all add: mem_of_def)
  from strstr_correct [OF this] obtain r
    where r: "strstr (mem_of [97, 98, 98, 99, 0, 98, 99]) 0x1000 0x1005 = Some r"
      and "r = None \<longrightarrow> (\<forall>k. take (Suc (Suc 0)) (drop k [97, 98, 98, 99]) \<noteq> [98, 99 :: u8])"
    by (auto split: option.splits)
  moreover have "take (Suc (Suc 0)) (drop 2 [97, 98, 98, 99]) = [98, 99 :: u8]"
    by simp
  ultimately show ?thesis
    by blast
qed

text \<open>
  C22: \<^verbatim>\<open>strtok_r\<close> on a string returns: it skips the separators at the front; when only separators are left the
  result is null; otherwise the token is the longest piece without separators, ended in place by a
  zero, and the saved pointer is a string with everything after that separator. No other byte changes.
\<close>

theorem strtok_r_correct:
  assumes "cstr m s (sep @ tok @ rest)" "length (sep @ tok @ rest) < 2 ^ 32"
    and "cstr m d ds" "length ds < 2 ^ 32"
    and "set sep \<subseteq> set ds" "set tok \<inter> set ds = {}" "rest = [] \<or> tok \<noteq> [] \<and> hd rest \<in> set ds"
  shows "if tok = [] then strtok_r m (Some s) d p = Some (m, None, s + of_nat (length sep))
    else \<exists>m' q. strtok_r m (Some s) d p = Some (m', Some (s + of_nat (length sep)), q)
        \<and> cstr m' (s + of_nat (length sep)) tok \<and> cstr m' q (tl rest)
        \<and> (\<forall>x. x \<noteq> q - 1 \<longrightarrow> m' x = m x)"
proof -
  note r = strtok_r_cstr [OF assms refl refl]
  show ?thesis
  proof (cases "rest = []")
    case True
    then show ?thesis
      using r(1) [of p] r(2,3) by auto
  next
    case False
    then show ?thesis
      using r(1) [of p] r(4) [OF False] assms(7) by auto
  qed
qed

theorem strtok_r_correct_witness:
  "\<exists>m' q. strtok_r (mem_of [44, 97, 98, 44, 99, 0, 44]) (Some 0x1000) 0x1006 0 = Some (m', Some 0x1001, q)
     \<and> cstr m' 0x1001 [97, 98] \<and> cstr m' q [99]"
proof -
  have "cstr (mem_of [44, 97, 98, 44, 99, 0, 44]) 0x1000 ([44] @ [97, 98] @ [44, 99])"
    "cstr (mem_of [44, 97, 98, 44, 99, 0, 44]) 0x1006 [44]"
    by (simp_all add: mem_of_def)
  from strtok_r_correct [OF this(1) _ this(2), of 0] show ?thesis
    by auto
qed

text \<open>
  \<^verbatim>\<open>strcat\<close> appends: with the destination and the source strings in the address space and apart from each
  other, it returns, the destination holds the concatenation and no byte outside it changes.
\<close>

theorem strcat_correct:
  assumes "cstr m s xs" "cstr m t ys" "unat s + length xs + length ys < 2 ^ 32" "unat t + length ys < 2 ^ 32"
    and "unat s + length xs + length ys < unat t \<or> unat t + length ys < unat s"
  shows "\<exists>m'. strcat m s t = Some m' \<and> cstr m' s (xs @ ys)
     \<and> (\<forall>x. \<not> (unat s + length xs \<le> unat x \<and> unat x \<le> unat s + length xs + length ys) \<longrightarrow> m' x = m x)"
proof -
  let ?lx = "length xs" and ?ly = "length ys" let ?d = "s + of_nat (length xs)"
  have d: "unat ?d = unat s + ?lx"
    using assms(3) by (intro unat_add_offset) simp
  have far: "?d + of_nat k \<noteq> t + of_nat j" if "k < j" "j \<le> ?ly" for k j
  proof
    assume "?d + of_nat k = t + of_nat j"
    then have "unat s + ?lx + k = unat t + j"
      using that assms(3,4) unat_add_offset [of ?d k] unat_add_offset [of t j] d by simp
    then show False
      using assms(5) that by linarith
  qed
  let ?m = "copied m ?d t (Suc ?ly)"
  have run: "strcat m s t = Some ?m"
    using strlen_cstr [OF assms(1)] strcpy_loop_bytes [OF assms(2) far]
      memcpy_bytes_copied [of "Suc ?ly" ?d t m] far assms(4) by (simp add: strcat_def)
  have at: "?m x = (if unat s + ?lx \<le> unat x \<and> unat x \<le> unat s + ?lx + ?ly then m (t + (x - ?d)) else m x)" for x
    using offset_range [of ?d "Suc ?ly" x] d assms(3) by (simp add: copied_def less_Suc_eq_le)
  have "cstr ?m ?d ys"
  proof (rule cstr_shift [OF assms(2)])
    show "?m (?d + of_nat j) = m (t + of_nat j)" if "j \<le> ?ly" for j
      using at [of "?d + of_nat j"] that assms(3) d unat_add_offset [of ?d j] by simp
  qed
  moreover have "?m (s + of_nat i) = xs ! i" if "i < ?lx" for i
    using at [of "s + of_nat i"] that assms(3) unat_add_offset [of s i] cstr_nth [OF assms(1) that] by simp
  ultimately have "cstr ?m s (xs @ ys)"
    using cstr_nonzero [OF assms(1)] by (simp add: cstr_append)
  then show ?thesis
    using run at by auto
qed

theorem strcat_correct_witness:
  "\<exists>m'. strcat (mem_of [97, 0, 0, 0, 98, 99]) 0x1000 0x1004 = Some m' \<and> cstr m' 0x1000 [97, 98, 99]"
proof -
  have "cstr (mem_of [97, 0, 0, 0, 98, 99]) 0x1000 [97]" "cstr (mem_of [97, 0, 0, 0, 98, 99]) 0x1004 [98, 99]"
    by (simp_all add: mem_of_def)
  from strcat_correct [OF this] show ?thesis
    by auto
qed

text \<open>
  On two strings \<^verbatim>\<open>strcmp\<close> returns 0 exactly when they are equal, and so does \<^verbatim>\<open>strncmp\<close> with a bound above
  the length of the first that stays in the address space; each gives the difference of the first bytes that differ.
\<close>

theorem strcmp_zero_iff:
  assumes "cstr m s xs" "cstr m t ys" "length xs < unat n" "unat s + unat n < 2 ^ 32"
  shows "strcmp m s t = Some (str_diff sint xs ys) \<and> strncmp m s t n = Some (str_diff uint xs ys)
    \<and> (str_diff sint xs ys = 0 \<longleftrightarrow> xs = ys) \<and> (str_diff uint xs ys = 0 \<longleftrightarrow> xs = ys)"
  using strcmp_cstr [OF assms(1,2)] strncmp_cstr [OF assms]
    str_diff_eq_0 [OF inj_sint cstr_nonzero [OF assms(1)] cstr_nonzero [OF assms(2)]]
    str_diff_eq_0 [OF inj_uint cstr_nonzero [OF assms(1)] cstr_nonzero [OF assms(2)]]
  by blast

text \<open>
  The two comparisons differ on bytes above 127: the string \<^verbatim>\<open>\x80\<close> is below \<^verbatim>\<open>A\<close> for \<^verbatim>\<open>strcmp\<close> and above it for \<^verbatim>\<open>strncmp\<close>.
\<close>

theorem strcmp_zero_iff_witness:
  "strcmp (mem_of [0x80, 0, 65]) 0x1000 0x1002 = Some (- 193) \<and> strncmp (mem_of [0x80, 0, 65]) 0x1000 0x1002 5 = Some 63"
proof -
  have "cstr (mem_of [0x80, 0, 65]) 0x1000 [0x80]" "cstr (mem_of [0x80, 0, 65]) 0x1002 [65]"
    by (simp_all add: mem_of_def)
  from strcmp_zero_iff [OF this, of 5] show ?thesis
    by simp
qed

text \<open>
  With a bound that reaches past the end of the address space, such as the largest \<^verbatim>\<open>size_t\<close>, the address \<^verbatim>\<open>a + n\<close> wraps around
  below the first string: \<^verbatim>\<open>strncmp\<close> and \<^verbatim>\<open>strncasecmp\<close> return 0 without a look at any byte.
\<close>

theorem strncmp_wraps:
  assumes "2 ^ 32 \<le> unat s + unat n"
  shows "strncmp m s t n = Some 0 \<and> strncasecmp m s t n = Some 0"
proof -
  have "unat (s + n) = unat s + unat n - 2 ^ 32"
    using assms u32_unat_bound [of s] u32_unat_bound [of n] by (simp add: unat_word_ariths mod_if)
  then have "\<not> s < s + n" "s + n \<le> s"
    using u32_unat_bound [of n] by (simp_all add: word_less_nat_alt word_le_nat_alt)
  then show ?thesis
    unfolding strncmp_def strncasecmp_def by (subst strncmp_loop.simps, subst strncasecmp_loop.simps) simp
qed

theorem strncmp_wraps_witness:
  "strncmp (mem_of [65, 0, 66]) 0x1000 0x1002 0xffffffff = Some 0 \<and> strcmp (mem_of [65, 0, 66]) 0x1000 0x1002 = Some (- 1)"
proof -
  have "strcmp (mem_of [65, 0, 66]) 0x1000 0x1002 = Some (- 1)"
    by (subst strcmp.simps) (simp add: mem_of_def)
  then show ?thesis
    using strncmp_wraps [of "0x1000" "0xffffffff" "mem_of [65, 0, 66]" "0x1002"] by simp
qed

end
