(* ===== verification/Libc_Conv.thy ===== *)
theory Libc_Conv
  imports Libc_String
begin

text \<open>
  \<^verbatim>\<open>libc/include/ctype.h\<close> and \<^verbatim>\<open>libc/intconv.c\<close>: the character classes, and the conversions from strings to
  integers.  An \<^verbatim>\<open>int_fast8_t\<close> argument is a 32 bit word; a \<^verbatim>\<open>char\<close> read from memory is sign extended.  The macros
  of \<^verbatim>\<open>intconv.c\<close> generate the same functions for each width; here they are functions on words of any length,
  the results of the signed functions read as two's complement.  The lemmas show the classes
  on ASCII, and that a number printed in any base is read back.
\<close>

section \<open>Character classes\<close>

definition isalpha :: "u32 \<Rightarrow> bool" where
  "isalpha ch \<longleftrightarrow> (ucast ((ch OR 0x20) - 0x61) :: u8) < 26"

definition isdigit :: "u32 \<Rightarrow> bool" where
  "isdigit ch \<longleftrightarrow> (ucast (ch - 0x30) :: u8) < 10"

definition isalnum :: "u32 \<Rightarrow> bool" where
  "isalnum ch \<longleftrightarrow> isalpha ch \<or> isdigit ch"

definition isascii :: "u32 \<Rightarrow> bool" where
  "isascii ch \<longleftrightarrow> (ucast ch :: u8) < 128"

definition isblank :: "u32 \<Rightarrow> bool" where
  "isblank ch \<longleftrightarrow> ch = 0x20 \<or> ch = 9"

definition iscntrl :: "u32 \<Rightarrow> bool" where
  "iscntrl ch \<longleftrightarrow> (ucast ch :: u8) < 32 \<or> ch = 127"

definition isgraph :: "u32 \<Rightarrow> bool" where
  "isgraph ch \<longleftrightarrow> (ucast (ch - 0x21) :: u8) < 127 - 0x21"

definition islower :: "u32 \<Rightarrow> bool" where
  "islower ch \<longleftrightarrow> (ucast (ch - 0x61) :: u8) < 26"

definition isupper :: "u32 \<Rightarrow> bool" where
  "isupper ch \<longleftrightarrow> (ucast (ch - 0x41) :: u8) < 26"

definition isprint :: "u32 \<Rightarrow> bool" where
  "isprint ch \<longleftrightarrow> (ucast (ch - 0x20) :: u8) < 127 - 0x20"

definition isspace :: "u32 \<Rightarrow> bool" where
  "isspace ch \<longleftrightarrow> (ucast (ch - 9) :: u8) < 5 \<or> ch = 0x20"

definition ispunct :: "u32 \<Rightarrow> bool" where
  "ispunct ch \<longleftrightarrow> isprint ch \<and> \<not> isalnum ch \<and> \<not> isspace ch"

definition isxdigit :: "u32 \<Rightarrow> bool" where
  "isxdigit ch \<longleftrightarrow> isdigit ch \<or> (ucast ((ch OR 0x20) - 0x61) :: u8) < 6"

definition toupper :: "u32 \<Rightarrow> u32" where
  "toupper c = (if isalpha c then c AND NOT 0x20 else c)"

definition tolower :: "u32 \<Rightarrow> u32" where
  "tolower c = (if isalpha c then c OR 0x20 else c)"

lemmas ctype_defs = isalpha_def isdigit_def isalnum_def isascii_def isblank_def iscntrl_def isgraph_def
  islower_def isupper_def isprint_def isspace_def ispunct_def isxdigit_def toupper_def tolower_def

section \<open>Conversions\<close>

text \<open>The value of a character as a digit, when the loop accepts it: a decimal digit in every base.\<close>

definition digit_accept :: "int \<Rightarrow> u8 \<Rightarrow> u8 option" where
  "digit_accept base ch =
     (let n = ch - 0x30
      in if n \<le> 9 then Some n
         else let n = (ch OR 0x20) - 0x61 + 10 in if uint n \<ge> base then None else Some n)"

partial_function (option) strto_loop :: "mem \<Rightarrow> int \<Rightarrow> addr \<Rightarrow> addr \<Rightarrow> 'a::len word \<Rightarrow> ('a word \<times> addr) option" where
  "strto_loop m base nptr endp res =
     (if m nptr = 0 then Some (res, endp)
      else if digit_accept base (m nptr) = None then Some (res, endp)
      else strto_loop m base (nptr + 1) (nptr + 1) (res * of_int base + ucast (the (digit_accept base (m nptr)))))"

text \<open>\<open>endp\<close> is what \<^verbatim>\<open>*endptr\<close> holds.\<close>

definition strto_post :: "mem \<Rightarrow> addr \<Rightarrow> addr \<Rightarrow> int \<Rightarrow> ('a::len word \<times> addr) option" where
  "strto_post m nptr endp base =
     (let (nptr, endp, base) =
        (if m nptr = 0x30 then
           if (base = 0 \<or> base = 16) \<and> m (nptr + 1) = 0x78 then (nptr + 2, nptr + 1, 16)
           else if base = 0 then (nptr + 1, nptr + 1, 8)
           else (nptr + 1, nptr + 1, base)
         else (nptr, endp, base));
          base = (if base = 0 then 10 else base)
      in strto_loop m base nptr endp 0)"

partial_function (option) skip_space :: "mem \<Rightarrow> addr \<Rightarrow> addr option" where
  "skip_space m nptr = (if isspace (scast (m nptr)) then skip_space m (nptr + 1) else Some nptr)"

definition strto_uint :: "mem \<Rightarrow> addr \<Rightarrow> int \<Rightarrow> ('a::len word \<times> addr) option" where
  "strto_uint m nptr base = do {
     p \<leftarrow> skip_space m nptr;
     strto_post m p nptr base
   }"

definition strto_int :: "mem \<Rightarrow> addr \<Rightarrow> int \<Rightarrow> ('a::len word \<times> addr) option" where
  "strto_int m nptr base = do {
     p \<leftarrow> skip_space m nptr;
     if m p = 0x2d then do {
       (res, endp) \<leftarrow> strto_post m (p + 1) nptr base;
       Some (- res, endp)
     }
     else if m p = 0x2b then strto_post m (p + 1) nptr base
     else strto_post m p nptr base
   }"

definition ato_int :: "mem \<Rightarrow> addr \<Rightarrow> 'a::len word option" where
  "ato_int m nptr = do {
     p \<leftarrow> skip_space m nptr;
     if m p = 0x2d then do {
       (res, endp) \<leftarrow> strto_post m (p + 1) nptr 10;
       Some (- res)
     }
     else do {
       (res, endp) \<leftarrow> strto_post m (if m p = 0x2b then p + 1 else p) nptr 10;
       Some res
     }
   }"

section \<open>Lemmas\<close>

text \<open>The reference: the digits of a number in a base from 2 to 36, most significant first.\<close>

definition digit_char :: "nat \<Rightarrow> u8" where
  "digit_char d = (if d < 10 then of_nat (0x30 + d) else of_nat (0x61 + (d - 10)))"

function num_chars :: "nat \<Rightarrow> nat \<Rightarrow> bytes" where
  "num_chars b n = (if b < 2 \<or> n < b then [digit_char n] else num_chars b (n div b) @ [digit_char (n mod b)])"
  by auto
termination
  by (relation "measure snd") (auto simp: not_less intro: div_less_dividend)

declare num_chars.simps [simp del]

lemma digit_table:
  "list_all (\<lambda>d. digit_char d \<noteq> 0
     \<and> (digit_char d = 0x30 \<longleftrightarrow> d = 0) \<and> \<not> isspace (scast (digit_char d))
     \<and> (digit_char d - 0x30 \<le> 9 \<longleftrightarrow> d < 10) \<and> (d < 10 \<longrightarrow> digit_char d - 0x30 = of_nat d)
     \<and> (digit_char d = 0x78 \<longleftrightarrow> d = 33) \<and> (digit_char d \<noteq> 0x2d) \<and> (digit_char d \<noteq> 0x2b)
     \<and> (\<not> d < 10 \<longrightarrow> (digit_char d OR 0x20) - 0x61 + 10 = of_nat d)) [0..<36]"
  by code_simp

lemma digit_char_facts:
  assumes "d < 36"
  shows "digit_char d \<noteq> 0" "digit_char d = 0x30 \<longleftrightarrow> d = 0" "\<not> isspace (scast (digit_char d))"
    "digit_char d \<noteq> 0x2d" "digit_char d \<noteq> 0x2b" "digit_char d = 0x78 \<longleftrightarrow> d = 33"
  using digit_table assms unfolding list_all_iff by auto

lemma digit_accept_char:
  assumes "d < 10 \<or> d < b" "b \<le> 36"
  shows "digit_accept (int b) (digit_char d) = Some (of_nat d)"
proof -
  have d: "d < 36"
    using assms by auto
  then have "d \<in> set [0..<36]"
    by simp
  then have "digit_char d - 0x30 \<le> 9 \<longleftrightarrow> d < 10" "d < 10 \<longrightarrow> digit_char d - 0x30 = of_nat d"
    "\<not> d < 10 \<longrightarrow> (digit_char d OR 0x20) - 0x61 + 10 = of_nat d"
    using digit_table unfolding list_all_iff by blast+
  moreover have "uint (of_nat d :: u8) = int d"
    using d by (simp add: uint_nat unat_of_nat)
  ultimately show ?thesis
    using assms by (cases "d < 10") (simp_all add: digit_accept_def Let_def)
qed

lemma num_chars_not_Nil [simp]: "num_chars b n \<noteq> []"
  by (subst num_chars.simps) simp

lemma num_chars_digits:
  assumes "2 \<le> b"
  shows "\<exists>ds. num_chars b n = map digit_char ds \<and> list_all (\<lambda>d. d < b) ds \<and> foldl (\<lambda>a d. a * b + d) 0 ds = n
    \<and> (hd ds = 0 \<longrightarrow> n = 0) \<and> ds \<noteq> [] \<and> (n = 0 \<longrightarrow> ds = [0])"
  using assms
proof (induction b n rule: num_chars.induct)
  case (1 b n)
  show ?case
  proof (cases "n < b")
    case True
    then show ?thesis
      using 1 by (intro exI [of _ "[n]"]) (simp add: num_chars.simps [of b n])
  next
    case False
    then obtain ds where ds: "num_chars b (n div b) = map digit_char ds" "list_all (\<lambda>d. d < b) ds"
      "foldl (\<lambda>a d. a * b + d) 0 ds = n div b" "hd ds = 0 \<longrightarrow> n div b = 0" "ds \<noteq> []"
      using 1 by auto
    moreover have "n div b \<noteq> 0" "n mod b < b" "n \<noteq> 0"
      using False 1(2) by (auto simp: div_eq_0_iff)
    ultimately show ?thesis
      using False 1(2) by (intro exI [of _ "ds @ [n mod b]"]) (simp add: num_chars.simps [of b n])
  qed
qed

text \<open>The loop over a string that starts with digits and goes on with a character that is none.\<close>

lemma strto_loop_digits:
  fixes res :: "'a::len word"
  assumes "cstr m p (map digit_char ds @ rest)" "list_all (\<lambda>d. d < 10 \<or> d < b) ds" "b \<le> 36"
    and "rest = [] \<or> digit_accept (int b) (hd rest) = None"
    and "ds = [] \<longrightarrow> e = p"
  shows "strto_loop m (int b) p e res = Some (foldl (\<lambda>a d. a * of_nat b + of_nat d) res ds, p + of_nat (length ds))"
  using assms
proof (induction ds arbitrary: p e res)
  case Nil
  then show ?case
    by (cases rest) (auto simp: strto_loop.simps [of m _ p])
next
  case (Cons d ds)
  have d: "d < 10 \<or> d < b" "m p = digit_char d" "digit_char d \<noteq> 0"
    using Cons(2,3) by simp_all
  then have d36: "d < 36"
    using Cons(4) by auto
  note d = d digit_accept_char [OF d(1) Cons(4)]
  have "ucast (of_nat d :: u8) = (of_nat d :: 'a word)"
  proof -
    have "unat (of_nat d :: u8) = d"
      using d36 by (simp add: unat_of_nat)
    then show ?thesis
      by (metis of_nat_unat)
  qed
  then show ?case
    using Cons d by (simp add: strto_loop.simps [of m _ p] add.assoc)
qed

lemma foldl_digits_word:
  "foldl (\<lambda>a d. a * of_nat b + of_nat d) (of_nat k :: 'a::len word) ds = of_nat (foldl (\<lambda>a d. a * b + d) k ds)"
proof (induction ds arbitrary: k)
  case (Cons d ds)
  show ?case
    using Cons [of "k * b + d"] by simp
qed simp

lemma skip_space_spaces:
  assumes "cstr m p (sp @ xs)" "list_all (\<lambda>c. isspace (scast c)) sp" "xs \<noteq> []" "\<not> isspace (scast (hd xs))"
  shows "skip_space m p = Some (p + of_nat (length sp))"
  using assms
proof (induction sp arbitrary: p)
  case Nil
  then show ?case
    by (cases xs) (auto simp: skip_space.simps [of m p])
next
  case (Cons c sp)
  then have "m p = c" "isspace (scast c)" "skip_space m (p + 1) = Some (p + 1 + of_nat (length sp))"
    by auto
  then show ?case
    by (simp add: skip_space.simps [of m p] add.assoc)
qed

text \<open>What may follow a number: nothing, or a character no digit of the base, other than the \<^verbatim>\<open>x\<close> of a prefix.\<close>

definition stops :: "nat \<Rightarrow> bytes \<Rightarrow> bool" where
  "stops b rest \<longleftrightarrow> rest = [] \<or> digit_accept (int b) (hd rest) = None \<and> hd rest \<noteq> 0x78"

lemma strto_post_digits:
  assumes s: "cstr m p (map digit_char ds @ rest)" and ds: "list_all (\<lambda>d. d < b) ds" "ds \<noteq> []"
    and b: "2 \<le> b" "b \<le> 36" and rest: "stops b rest" and z: "hd ds = 0 \<longrightarrow> ds = [0]"
  shows "strto_post m p e (int b) = Some (of_nat (foldl (\<lambda>a d. a * b + d) 0 ds) :: 'a::len word, p + of_nat (length ds))"
proof -
  obtain d ds' where d: "ds = d # ds'"
    using ds(2) by (cases ds) auto
  have m: "m p = digit_char d" "digit_char d = 0x30 \<longleftrightarrow> d = 0"
    using s ds b d digit_char_facts(2) [of d] by auto
  have stop: "rest = [] \<or> digit_accept (int b) (hd rest) = None"
    using rest by (auto simp: stops_def)
  show ?thesis
  proof (cases "d = 0")
    case True
    then have eq: "ds = [0]"
      using d z by simp
    then have 1: "cstr m (p + 1) rest"
      using s by simp
    then have "m (p + 1) \<noteq> 0x78"
      using rest by (cases rest) (auto simp: stops_def)
    moreover have "strto_loop m (int b) (p + 1) (p + 1) (0 :: 'a word) = Some (0, p + 1)"
      using strto_loop_digits [of m "p + 1" "[]" rest b "p + 1" "0 :: 'a word"] 1 b stop by simp
    ultimately show ?thesis
      using True m b eq by (simp add: strto_post_def)
  next
    case False
    have "strto_loop m (int b) p e (0 :: 'a word) = Some (foldl (\<lambda>a d. a * of_nat b + of_nat d) 0 ds, p + of_nat (length ds))"
      using strto_loop_digits [of m p ds rest b e "0 :: 'a word"] s ds b stop
      by (simp add: list_all_iff)
    then show ?thesis
      using False m b foldl_digits_word [of b 0 ds, where 'a = 'a] by (simp add: strto_post_def)
  qed
qed

lemma strto_post_num:
  assumes "cstr m p (num_chars b n @ rest)" "2 \<le> b" "b \<le> 36" "stops b rest"
  shows "strto_post m p e (int b) = Some (of_nat n :: 'a::len word, p + of_nat (length (num_chars b n)))"
proof -
  obtain ds where "num_chars b n = map digit_char ds" "list_all (\<lambda>d. d < b) ds" "foldl (\<lambda>a d. a * b + d) 0 ds = n"
    "hd ds = 0 \<longrightarrow> ds = [0]" "ds \<noteq> []"
    using num_chars_digits [OF assms(2), of n] by metis
  then show ?thesis
    using strto_post_digits [of m p ds rest b e, where 'a = 'a] assms by simp
qed

lemma num_chars_hd:
  assumes "2 \<le> b" "b \<le> 36"
  shows "\<exists>d < 36. hd (num_chars b n) = digit_char d"
proof -
  obtain ds where "num_chars b n = map digit_char ds" "list_all (\<lambda>d. d < b) ds" "ds \<noteq> []"
    using num_chars_digits [OF assms(1), of n] by metis
  then show ?thesis
    using assms(2) by (cases ds) (auto intro!: exI [of _ "hd ds"])
qed

text \<open>The sign in front of a printed integer.\<close>

definition int_chars :: "nat \<Rightarrow> int \<Rightarrow> bytes" where
  "int_chars b z = (if z < 0 then 0x2d # num_chars b (nat (- z)) else num_chars b (nat z))"

lemma int_chars_hd:
  assumes "2 \<le> b" "b \<le> 36"
  shows "int_chars b z \<noteq> []" "\<not> isspace (scast (hd (int_chars b z)))"
proof -
  have "\<not> isspace (scast (0x2d :: u8))"
    by (simp add: isspace_def)
  then show "int_chars b z \<noteq> []" "\<not> isspace (scast (hd (int_chars b z)))"
    using num_chars_hd [OF assms, of "nat z"] digit_char_facts(3) by (auto simp: int_chars_def)
qed

text \<open>What the code does from the first character that is no white space, common to \<^verbatim>\<open>strto_int\<close> and \<^verbatim>\<open>ato_int\<close>.\<close>

lemma sign_digits:
  assumes "cstr m p (int_chars b z @ rest)" "2 \<le> b" "b \<le> 36" "stops b rest"
  shows "if z < 0
    then m p = 0x2d \<and> strto_post m (p + 1) e (int b) = Some (of_int (- z) :: 'a::len word, p + of_nat (length (int_chars b z)))
    else m p \<noteq> 0x2d \<and> m p \<noteq> 0x2b \<and>
      strto_post m p e (int b) = Some (of_int z :: 'a word, p + of_nat (length (int_chars b z)))"
proof (cases "z < 0")
  case True
  then have "cstr m (p + 1) (num_chars b (nat (- z)) @ rest)" "m p = 0x2d"
    using assms(1) by (auto simp: int_chars_def)
  then show ?thesis
    using True strto_post_num [OF _ assms(2-4), of m "p + 1" "nat (- z)" e, where 'a = 'a]
    by (simp add: int_chars_def add.assoc)
next
  case False
  then have 1: "cstr m p (num_chars b (nat z) @ rest)"
    using assms(1) by (simp add: int_chars_def)
  moreover obtain d where "d < 36" "hd (num_chars b (nat z)) = digit_char d"
    using num_chars_hd [OF assms(2,3)] by blast
  moreover from 1 have "m p = hd (num_chars b (nat z))"
    by (cases "num_chars b (nat z)") auto
  ultimately show ?thesis
    using False strto_post_num [OF _ assms(2-4), of m p "nat z" e, where 'a = 'a] digit_char_facts(4,5) [of d]
    by (simp add: int_chars_def)
qed

lemma skip_space_int:
  assumes "cstr m p (sp @ int_chars b z @ rest)" "list_all (\<lambda>c. isspace (scast c)) sp" "2 \<le> b" "b \<le> 36"
  shows "skip_space m p = Some (p + of_nat (length sp))" "cstr m (p + of_nat (length sp)) (int_chars b z @ rest)"
  using skip_space_spaces [OF assms(1,2)] int_chars_hd [OF assms(3,4), of z] assms(1) cstr_append by auto

lemma ato_int_roundtrip:
  assumes "cstr m p (sp @ int_chars 10 z @ rest)" "list_all (\<lambda>c. isspace (scast c)) sp" "stops 10 rest"
  shows "ato_int m p = Some (of_int z :: 'a::len word)"
  using skip_space_int [OF assms(1,2)] sign_digits [OF _ _ _ assms(3), of m "p + of_nat (length sp)" z p, where 'a = 'a]
  by (simp add: ato_int_def split: if_splits)

text \<open>The range tests of \<^verbatim>\<open>ctype.h\<close> on ASCII.\<close>

lemma range_test:
  assumes "i < 128" "k < 128" "n \<le> 128"
  shows "(ucast (of_nat i - of_nat k :: u32) :: u8) < of_nat n \<longleftrightarrow> k \<le> i \<and> i < k + n"
proof -
  have "(of_nat i - of_nat k :: u32) = of_int (int i - int k)"
    by simp
  then have "uint (ucast (of_nat i - of_nat k :: u32) :: u8) = (int i - int k) mod 256"
    by (simp add: unsigned_ucast_eq unsigned_of_int take_bit_eq_mod mod_mod_cancel del: of_int_diff)
  moreover have "(int i - int k) mod 256 = (if k \<le> i then int i - int k else 256 + int i - int k)"
  proof (cases "k \<le> i")
    case False
    have "(int i - int k) mod 256 = (256 + int i - int k) mod 256"
      by (metis add_diff_eq mod_add_self1)
    then show ?thesis
      using False assms by simp
  qed (use assms in simp)
  moreover have "uint (of_nat n :: u8) = int n"
    using assms by (simp add: unsigned_of_nat take_bit_eq_mod)
  ultimately show ?thesis
    using assms by (auto simp: word_less_def)
qed

lemma or_0x20_table:
  "list_all (\<lambda>i. (of_nat i :: u32) OR 0x20 = of_nat (if i < 32 \<or> 64 \<le> i \<and> i < 96 then i + 32 else i)
     \<and> (of_nat i :: u32) AND NOT 0x20 = of_nat (if i < 32 \<or> 64 \<le> i \<and> i < 96 then i else i - 32)) [0..<128]"
  by code_simp

lemma or_0x20:
  assumes "i < 128"
  shows "(of_nat i :: u32) OR 0x20 = of_nat (if i < 32 \<or> 64 \<le> i \<and> i < 96 then i + 32 else i)"
    "(of_nat i :: u32) AND NOT 0x20 = of_nat (if i < 32 \<or> 64 \<le> i \<and> i < 96 then i else i - 32)"
  using or_0x20_table assms unfolding list_all_iff by auto

lemma of_nat_eq_ascii:
  assumes "i < 128" "k < 128"
  shows "(of_nat i :: u32) = of_nat k \<longleftrightarrow> i = k"
  using assms by (simp add: word_of_nat_eq_iff take_bit_eq_mod)

lemma ctype_ranges:
  assumes "i < 128"
  shows "isdigit (of_nat i) \<longleftrightarrow> 48 \<le> i \<and> i \<le> 57" "islower (of_nat i) \<longleftrightarrow> 97 \<le> i \<and> i \<le> 122"
    "isupper (of_nat i) \<longleftrightarrow> 65 \<le> i \<and> i \<le> 90" "isprint (of_nat i) \<longleftrightarrow> 32 \<le> i \<and> i \<le> 126"
    "isgraph (of_nat i) \<longleftrightarrow> 33 \<le> i \<and> i \<le> 126" "isspace (of_nat i) \<longleftrightarrow> 9 \<le> i \<and> i \<le> 13 \<or> i = 32"
    "isblank (of_nat i) \<longleftrightarrow> i = 9 \<or> i = 32" "isascii (of_nat i)"
    "iscntrl (of_nat i) \<longleftrightarrow> i \<le> 31 \<or> i = 127"
  subgoal using range_test [OF assms, of 48 10] by (simp add: isdigit_def) arith
  subgoal using range_test [OF assms, of 97 26] by (simp add: islower_def) arith
  subgoal using range_test [OF assms, of 65 26] by (simp add: isupper_def) arith
  subgoal using range_test [OF assms, of 32 95] by (simp add: isprint_def) arith
  subgoal using range_test [OF assms, of 33 94] by (simp add: isgraph_def) arith
  subgoal using range_test [OF assms, of 9 5] of_nat_eq_ascii [OF assms, of 32] by (simp add: isspace_def) arith
  subgoal using of_nat_eq_ascii [OF assms, of 9] of_nat_eq_ascii [OF assms, of 32] by (simp add: isblank_def) arith
  subgoal using range_test [OF assms, of 0 128] assms by (simp add: isascii_def)
  subgoal using range_test [OF assms, of 0 32] of_nat_eq_ascii [OF assms, of 127] by (simp add: iscntrl_def) arith
  done

lemma isalpha_range:
  assumes "i < 128"
  shows "isalpha (of_nat i) \<longleftrightarrow> 65 \<le> i \<and> i \<le> 90 \<or> 97 \<le> i \<and> i \<le> 122"
    "isxdigit (of_nat i) \<longleftrightarrow> 48 \<le> i \<and> i \<le> 57 \<or> 65 \<le> i \<and> i \<le> 70 \<or> 97 \<le> i \<and> i \<le> 102"
proof -
  let ?j = "if i < 32 \<or> 64 \<le> i \<and> i < 96 then i + 32 else i"
  have j: "?j < 128"
    using assms by presburger
  show "isalpha (of_nat i) \<longleftrightarrow> 65 \<le> i \<and> i \<le> 90 \<or> 97 \<le> i \<and> i \<le> 122"
    using range_test [OF j, of 97 26] assms unfolding isalpha_def or_0x20(1) [OF assms] by auto
  show "isxdigit (of_nat i) \<longleftrightarrow> 48 \<le> i \<and> i \<le> 57 \<or> 65 \<le> i \<and> i \<le> 70 \<or> 97 \<le> i \<and> i \<le> 102"
    using range_test [OF j, of 97 6] assms
    unfolding isxdigit_def or_0x20(1) [OF assms] ctype_ranges(1) [OF assms] by auto
qed

section \<open>Properties\<close>

text \<open> A number printed in any base from 2 to 36, after any white space and before any character
  that is no digit of the base, is read back by \<^verbatim>\<open>strto_uint\<close>, modulo the width of the result,
  and \<^verbatim>\<open>*endptr\<close> is left just after its last digit.\<close>

theorem strto_uint_roundtrip:
  assumes "cstr m p (sp @ num_chars b n @ rest)" "list_all (\<lambda>c. isspace (scast c)) sp"
    and "2 \<le> b" "b \<le> 36" "stops b rest"
  shows "strto_uint m p (int b) = Some (of_nat n :: 'a::len word, p + of_nat (length sp + length (num_chars b n)))"
proof -
  obtain d where "d < 36" "hd (num_chars b n) = digit_char d"
    using num_chars_hd [OF assms(3,4)] by blast
  then have "skip_space m p = Some (p + of_nat (length sp))"
    using skip_space_spaces [OF assms(1,2)] digit_char_facts(3) [of d] by simp
  moreover have "cstr m (p + of_nat (length sp)) (num_chars b n @ rest)"
    using assms(1) cstr_append by blast
  ultimately show ?thesis
    using strto_post_num [OF _ assms(3-5), of m "p + of_nat (length sp)" n p, where 'a = 'a]
    by (simp add: strto_uint_def add.assoc)
qed

theorem strto_uint_roundtrip_witness:
  "let m = (\<lambda>_. 0)(0x100 := 0x20, 0x101 := 0x31, 0x102 := 0x66, 0x103 := 0x2c) in
   num_chars 16 31 = [0x31, 0x66]
   \<and> strto_uint m 0x100 (int 16) = Some (of_nat 31 :: u32, 0x100 + of_nat (length [0x20 :: u8] + length (num_chars 16 31)))"
  unfolding Let_def
  using strto_uint_roundtrip [where m = "(\<lambda>_. 0)(0x100 := 0x20, 0x101 := 0x31, 0x102 := 0x66, 0x103 := 0x2c)"
      and p = "0x100" and sp = "[0x20]" and b = 16 and n = 31 and rest = "[0x2c]"]
  by (auto simp: num_chars.simps digit_char_def isspace_def stops_def digit_accept_def)

text \<open> C24: an integer that the result type can hold, printed with its sign in any base from 2 to 36, is read back
  by \<^verbatim>\<open>strto_int\<close> after any white space, and \<^verbatim>\<open>*endptr\<close> is left just after its last digit.\<close>

theorem strto_int_roundtrip:
  assumes "cstr m p (sp @ int_chars b z @ rest)" "list_all (\<lambda>c. isspace (scast c)) sp"
    and "2 \<le> b" "b \<le> 36" "stops b rest" "- (2 ^ (LENGTH('a::len) - 1)) \<le> z" "z < 2 ^ (LENGTH('a) - 1)"
  shows "\<exists>w :: 'a word. strto_int m p (int b) = Some (w, p + of_nat (length sp + length (int_chars b z))) \<and> sint w = z"
proof (intro exI conjI)
  show "strto_int m p (int b) = Some (of_int z :: 'a word, p + of_nat (length sp + length (int_chars b z)))"
    using skip_space_int [OF assms(1-4)] sign_digits [OF _ assms(3-5), of m "p + of_nat (length sp)" z p, where 'a = 'a]
    by (simp add: strto_int_def add.assoc split: if_splits)
  show "sint (of_int z :: 'a word) = z"
    using assms(6,7) by (simp add: signed_of_int signed_take_bit_int_eq_self)
qed

theorem strto_int_roundtrip_witness:
  "let m = (\<lambda>_. 0)(0x100 := 0x09, 0x101 := 0x2d, 0x102 := 0x34, 0x103 := 0x32) in
   int_chars 10 (- 42) = [0x2d, 0x34, 0x32]
   \<and> (\<exists>w :: u32. strto_int m 0x100 (int 10) = Some (w, 0x100 + of_nat (length [0x09 :: u8] + length (int_chars 10 (- 42))))
        \<and> sint w = - 42)"
  unfolding Let_def
  using strto_int_roundtrip [where m = "(\<lambda>_. 0)(0x100 := 0x09, 0x101 := 0x2d, 0x102 := 0x34, 0x103 := 0x32)"
      and p = "0x100" and sp = "[0x09]" and b = 10 and z = "- 42" and rest = "[]" and 'a = 32]
  by (auto simp: num_chars.simps int_chars_def digit_char_def isspace_def stops_def digit_accept_def)

text \<open> C40: with base 0 the digits after a leading zero are read in base 8, and the digits 8 and 9
  among them are accepted with their decimal values: the loop compares a character with the base only when it is no
  decimal digit, so \<^verbatim>\<open>08\<close> is read as 8 and \<^verbatim>\<open>019\<close> as 17, where the number should end before the 8 or the 9.\<close>

theorem strto_octal_accepts_decimal:
  assumes "cstr m p (0x30 # map digit_char ds)" "list_all (\<lambda>d. d < 10) ds"
  shows "strto_uint m p 0 = Some (of_nat (foldl (\<lambda>a d. a * 8 + d) 0 ds) :: 'a::len word, p + 1 + of_nat (length ds))"
proof -
  have 1: "m p = 0x30" "cstr m (p + 1) (map digit_char ds @ [])"
    using assms(1) by auto
  have "m (p + 1) \<noteq> 0x78"
    using 1(2) assms(2) digit_char_facts(6) by (cases ds) simp_all
  moreover have "skip_space m p = Some p"
    using 1(1) by (simp add: skip_space.simps [of m p] isspace_def)
  moreover have "strto_loop m 8 (p + 1) (p + 1) (0 :: 'a word)
    = Some (foldl (\<lambda>a d. a * 8 + of_nat d) 0 ds, p + 1 + of_nat (length ds))"
    using strto_loop_digits [OF 1(2), of 8 "p + 1" "0 :: 'a word"] assms(2) by (simp add: list_all_iff)
  ultimately show ?thesis
    using 1(1) foldl_digits_word [of 8 0 ds, where 'a = 'a] by (simp add: strto_uint_def strto_post_def)
qed

theorem strto_octal_accepts_decimal_witness:
  "strto_uint ((\<lambda>_. 0)(0x100 := 0x30, 0x101 := 0x38)) 0x100 0 = Some (of_nat 8 :: u32, 0x100 + 1 + of_nat (length [8 :: nat]))"
  using strto_octal_accepts_decimal [where m = "(\<lambda>_. 0)(0x100 := 0x30, 0x101 := 0x38)" and p = "0x100" and ds = "[8]"]
  by (simp add: digit_char_def)

text \<open> On ASCII the classes of \<^verbatim>\<open>ctype.h\<close> are those of the C standard's default locale: a letter is an upper or
  a lower case one, never both; a printable character is a space, a letter, a digit or punctuation, exactly one of them; every
  other one is a control character; and \<^verbatim>\<open>toupper\<close> and \<^verbatim>\<open>tolower\<close> map each letter to the other case's and keep the rest.\<close>

theorem ctype_ascii:
  assumes "i < 128"
  defines "c \<equiv> of_nat i :: u32"
  shows "(isalpha c \<longleftrightarrow> isupper c \<noteq> islower c) \<and> (isupper c \<longleftrightarrow> 65 \<le> i \<and> i \<le> 90) \<and> (islower c \<longleftrightarrow> 97 \<le> i \<and> i \<le> 122)
    \<and> (isdigit c \<longleftrightarrow> 48 \<le> i \<and> i \<le> 57) \<and> (isalnum c \<longleftrightarrow> isalpha c \<noteq> isdigit c)
    \<and> (isgraph c \<longleftrightarrow> isalnum c \<noteq> ispunct c) \<and> (isprint c \<longleftrightarrow> isgraph c \<noteq> (i = 32)) \<and> (iscntrl c \<longleftrightarrow> \<not> isprint c)
    \<and> (isupper c \<longrightarrow> tolower c = of_nat (i + 32)) \<and> (islower c \<longrightarrow> toupper c = of_nat (i - 32))
    \<and> (\<not> isupper c \<longrightarrow> tolower c = c) \<and> (\<not> islower c \<longrightarrow> toupper c = c)"
proof -
  have t: "tolower c = of_nat (if 65 \<le> i \<and> i \<le> 90 then i + 32 else i)"
    "toupper c = of_nat (if 97 \<le> i \<and> i \<le> 122 then i - 32 else i)"
    unfolding tolower_def toupper_def c_def isalpha_range [OF assms(1)] or_0x20 [OF assms(1)] by auto
  note r = ispunct_def isalnum_def t [unfolded c_def] ctype_ranges [OF assms(1)] isalpha_range [OF assms(1)]
  consider "i < 32" | "i = 32" | "33 \<le> i \<and> i \<le> 47" | "48 \<le> i \<and> i \<le> 57" | "58 \<le> i \<and> i \<le> 64" | "65 \<le> i \<and> i \<le> 90"
    | "91 \<le> i \<and> i \<le> 96" | "97 \<le> i \<and> i \<le> 122" | "123 \<le> i \<and> i \<le> 126" | "i = 127"
    using assms(1) by linarith
  then show ?thesis
    unfolding c_def r by cases simp_all
qed

theorem ctype_ascii_witness:
  "isupper (of_nat 77) \<and> tolower (of_nat 77) = of_nat (77 + 32)"
  using ctype_ascii [of 77] by simp

end
