(* ===== verification/Libc_Sort.thy ===== *)
theory Libc_Sort
  imports Libc_Mem "HOL-Library.Multiset" "HOL-Library.Monad_Syntax"
begin

text \<open>
  \<^verbatim>\<open>libc/qsort.c\<close>, and \<^verbatim>\<open>bsearch\<close> of \<^verbatim>\<open>libc/stdlib.c\<close>, on the flat memory: Bentley and McIlroy's quicksort with its swaps
  by words or bytes, its insertion sort for small or already sorted arrays, the median of three or nine and the
  partition in three; the binary search by halving.  The comparison function that the caller gives is a parameter,
  a function of the bytes of the two elements.  The lemmas give the effect of each loop on the list of the elements; the
  correctness of the functions is in \<^verbatim>\<open>Libc_Qsort\<close>.
\<close>

section \<open>Elements\<close>

type_synonym compar = "bytes \<Rightarrow> bytes \<Rightarrow> int"

text \<open>\<open>n\<close> bytes of the memory, and the memory with some bytes put at an address.\<close>

definition elem :: "mem \<Rightarrow> addr \<Rightarrow> nat \<Rightarrow> bytes" where
  "elem m p n = map (\<lambda>i. m (p + of_nat i)) [0..<n]"

definition put :: "mem \<Rightarrow> addr \<Rightarrow> bytes \<Rightarrow> mem" where
  "put m p bs = (\<lambda>x. if unat (x - p) < length bs then bs ! unat (x - p) else m x)"

definition cmp_at :: "compar \<Rightarrow> u32 \<Rightarrow> mem \<Rightarrow> addr \<Rightarrow> addr \<Rightarrow> int" where
  "cmp_at cmp es m p q = cmp (elem m p (unat es)) (elem m q (unat es))"

section \<open>Swapping\<close>

text \<open>One round of the loop of \<^verbatim>\<open>swapcode\<close> for a type of \<open>sz\<close> bytes.\<close>

definition xchg :: "nat \<Rightarrow> mem \<Rightarrow> addr \<Rightarrow> addr \<Rightarrow> mem" where
  "xchg sz m p q = (let t = elem m p sz; m = put m p (elem m q sz) in put m q t)"

function swapcode :: "nat \<Rightarrow> mem \<Rightarrow> addr \<Rightarrow> addr \<Rightarrow> u32 \<Rightarrow> mem" where
  "swapcode sz m pi pj i =
     (let m = xchg sz m pi pj; i = i - 1
      in if i > 0 then swapcode sz m (pi + of_nat sz) (pj + of_nat sz) i else m)"
  by auto
termination
proof (relation "measure (\<lambda>(_, _, _, _, i). unat (i - 1))", goal_cases)
  case (2 sz m pi pj i m' i')
  then show ?case
    using unat_pred [of "i - 1"] unat_gt_0 [of "i - 1"] by (auto simp: word_gt_0)
qed simp

declare swapcode.simps [simp del]

definition SWAPINIT :: "addr \<Rightarrow> u32 \<Rightarrow> nat" where
  "SWAPINIT a es = (if a mod 4 \<noteq> 0 \<or> es mod 4 \<noteq> 0 then 2 else if es = 4 then 0 else 1)"

definition swapfunc :: "mem \<Rightarrow> addr \<Rightarrow> addr \<Rightarrow> u32 \<Rightarrow> nat \<Rightarrow> mem" where
  "swapfunc m a b n swaptype = (if swaptype \<le> 1 then swapcode 4 m a b (n div 4) else swapcode 1 m a b n)"

definition swap :: "u32 \<Rightarrow> nat \<Rightarrow> mem \<Rightarrow> addr \<Rightarrow> addr \<Rightarrow> mem" where
  "swap es swaptype m a b = (if swaptype = 0 then xchg 4 m a b else swapfunc m a b es swaptype)"

definition vecswap :: "nat \<Rightarrow> mem \<Rightarrow> addr \<Rightarrow> addr \<Rightarrow> u32 \<Rightarrow> mem" where
  "vecswap swaptype m a b n = (if n > 0 then swapfunc m a b n swaptype else m)"

section \<open>Sorting\<close>

definition med3 :: "compar \<Rightarrow> u32 \<Rightarrow> mem \<Rightarrow> addr \<Rightarrow> addr \<Rightarrow> addr \<Rightarrow> addr" where
  "med3 cmp es m a b c =
     (if cmp_at cmp es m a b < 0
      then if cmp_at cmp es m b c < 0 then b else if cmp_at cmp es m a c < 0 then c else a
      else if cmp_at cmp es m b c > 0 then b else if cmp_at cmp es m a c < 0 then a else c)"

partial_function (option) ins_inner :: "compar \<Rightarrow> u32 \<Rightarrow> nat \<Rightarrow> addr \<Rightarrow> mem \<Rightarrow> addr \<Rightarrow> mem option" where
  "ins_inner cmp es swaptype a m pl =
     (if pl > a \<and> cmp_at cmp es m (pl - es) pl > 0
      then ins_inner cmp es swaptype a (swap es swaptype m pl (pl - es)) (pl - es)
      else Some m)"

partial_function (option) ins_outer :: "compar \<Rightarrow> u32 \<Rightarrow> nat \<Rightarrow> addr \<Rightarrow> addr \<Rightarrow> mem \<Rightarrow> addr \<Rightarrow> mem option" where
  "ins_outer cmp es swaptype a pe m pm =
     (if pm < pe
      then do {
        m \<leftarrow> ins_inner cmp es swaptype a m pm;
        ins_outer cmp es swaptype a pe m (pm + es)
      }
      else Some m)"

definition insertion_sort :: "compar \<Rightarrow> u32 \<Rightarrow> nat \<Rightarrow> mem \<Rightarrow> addr \<Rightarrow> u32 \<Rightarrow> mem option" where
  "insertion_sort cmp es swaptype m a n = ins_outer cmp es swaptype a (a + n * es) m (a + es)"

text \<open>The choice of the pivot.\<close>

definition pivot :: "compar \<Rightarrow> u32 \<Rightarrow> mem \<Rightarrow> addr \<Rightarrow> u32 \<Rightarrow> addr" where
  "pivot cmp es m a n =
     (let pm = a + (n div 2) * es
      in if n > 7
         then let pl = a; pn = a + (n - 1) * es;
                (pl, pm, pn) =
                  (if n > 40
                   then let d = (n div 8) * es
                        in (med3 cmp es m pl (pl + d) (pl + 2 * d), med3 cmp es m (pm - d) pm (pm + d),
                            med3 cmp es m (pn - 2 * d) (pn - d) pn)
                   else (pl, pm, pn))
              in med3 cmp es m pl pm pn
         else pm)"

text \<open>The two loops that move \<^verbatim>\<open>pb\<close> up and \<^verbatim>\<open>pc\<close> down, and the one around them.\<close>

partial_function (option) scan_up ::
  "compar \<Rightarrow> u32 \<Rightarrow> nat \<Rightarrow> addr \<Rightarrow> addr \<Rightarrow> mem \<Rightarrow> addr \<Rightarrow> addr \<Rightarrow> nat \<Rightarrow> (mem \<times> addr \<times> addr \<times> nat) option" where
  "scan_up cmp es swaptype a pc m pa pb swap_cnt =
     (if pb \<le> pc \<and> cmp_at cmp es m pb a \<le> 0
      then if cmp_at cmp es m pb a = 0
           then scan_up cmp es swaptype a pc (swap es swaptype m pa pb) (pa + es) (pb + es) 1
           else scan_up cmp es swaptype a pc m pa (pb + es) swap_cnt
      else Some (m, pa, pb, swap_cnt))"

partial_function (option) scan_down ::
  "compar \<Rightarrow> u32 \<Rightarrow> nat \<Rightarrow> addr \<Rightarrow> addr \<Rightarrow> mem \<Rightarrow> addr \<Rightarrow> addr \<Rightarrow> nat \<Rightarrow> (mem \<times> addr \<times> addr \<times> nat) option" where
  "scan_down cmp es swaptype a pb m pc pd swap_cnt =
     (if pb \<le> pc \<and> cmp_at cmp es m pc a \<ge> 0
      then if cmp_at cmp es m pc a = 0
           then scan_down cmp es swaptype a pb (swap es swaptype m pc pd) (pc - es) (pd - es) 1
           else scan_down cmp es swaptype a pb m (pc - es) pd swap_cnt
      else Some (m, pc, pd, swap_cnt))"

partial_function (option) partition_loop ::
  "compar \<Rightarrow> u32 \<Rightarrow> nat \<Rightarrow> addr \<Rightarrow> mem \<Rightarrow> addr \<Rightarrow> addr \<Rightarrow> addr \<Rightarrow> addr \<Rightarrow> nat
     \<Rightarrow> (mem \<times> addr \<times> addr \<times> addr \<times> addr \<times> nat) option" where
  "partition_loop cmp es swaptype a m pa pb pc pd swap_cnt = do {
     (m, pa, pb, swap_cnt) \<leftarrow> scan_up cmp es swaptype a pc m pa pb swap_cnt;
     (m, pc, pd, swap_cnt) \<leftarrow> scan_down cmp es swaptype a pb m pc pd swap_cnt;
     if pb > pc then Some (m, pa, pb, pc, pd, swap_cnt)
     else partition_loop cmp es swaptype a (swap es swaptype m pb pc) pa (pb + es) (pc - es) pd 1
   }"

text \<open>The smaller one of two differences of pointers is computed on signed numbers, and the other one on
  unsigned ones, because \<^verbatim>\<open>es\<close> is a \<^verbatim>\<open>size_t\<close>.  The jump back to \<^verbatim>\<open>loop\<close> is the second recursive call.\<close>

partial_function (option) qsort :: "compar \<Rightarrow> u32 \<Rightarrow> mem \<Rightarrow> addr \<Rightarrow> u32 \<Rightarrow> mem option" where
  "qsort cmp es m a n =
     (let swaptype = SWAPINIT a es
      in if n < 7 then insertion_sort cmp es swaptype m a n
         else do {
           let m = swap es swaptype m a (pivot cmp es m a n);
           let pc = a + (n - 1) * es;
           (m, pa, pb, pc, pd, swap_cnt) \<leftarrow> partition_loop cmp es swaptype a m (a + es) (a + es) pc pc 0;
           if swap_cnt = 0 then insertion_sort cmp es swaptype m a n
           else do {
             let pn = a + n * es;
             let r = (if sint (pa - a) < sint (pb - pa) then pa - a else pb - pa);
             let m = vecswap swaptype m a (pb - r) r;
             let r = (if pd - pc < pn - pd - es then pd - pc else pn - pd - es);
             let m = vecswap swaptype m pb (pn - r) r;
             m \<leftarrow> (if pb - pa > es then qsort cmp es m a ((pb - pa) div es) else Some m);
             let r = pd - pc;
             if r > es then qsort cmp es m (pn - r) (r div es) else Some m
           }
         })"

section \<open>Searching\<close>

text \<open>\<open>cmp\<close> compares the key with an element; the result is a null pointer when there is none.  The bounds \<^verbatim>\<open>min\<close> and \<^verbatim>\<open>max\<close>
  are \<open>lo\<close> and \<open>hi\<close>.\<close>

partial_function (option) bsearch_loop :: "(bytes \<Rightarrow> int) \<Rightarrow> mem \<Rightarrow> addr \<Rightarrow> u32 \<Rightarrow> u32 \<Rightarrow> u32 \<Rightarrow> u32 \<Rightarrow> addr option" where
  "bsearch_loop cmp m base width lo hi cur =
     (if cur < hi
      then let ptr = base + cur * width; c = cmp (elem m ptr (unat width))
           in if c = 0 then Some ptr
              else let (lo, hi) = (if c \<le> 0 then (lo, cur) else (cur + 1, hi));
                       tmp = (hi + lo) div 2
                   in if cur = tmp then Some 0 else bsearch_loop cmp m base width lo hi tmp
      else Some 0)"

definition bsearch :: "(bytes \<Rightarrow> int) \<Rightarrow> mem \<Rightarrow> addr \<Rightarrow> u32 \<Rightarrow> u32 \<Rightarrow> addr option" where
  "bsearch cmp m base nel width = bsearch_loop cmp m base width 0 nel ((nel + 0) div 2)"

section \<open>Memory blocks\<close>

text \<open>Blocks are given by the number of their first address, so that they do not wrap around.
  \<open>arr m P e n\<close>: the \<open>n\<close> elements of \<open>e\<close> bytes from \<open>P\<close> on.  \<open>bswap\<close>: two blocks of \<open>K\<close> bytes exchanged.\<close>

definition arr :: "mem \<Rightarrow> nat \<Rightarrow> nat \<Rightarrow> nat \<Rightarrow> bytes list" where
  "arr m P e n = map (\<lambda>i. elem m (of_nat (P + i * e)) e) [0..<n]"

definition bswap :: "mem \<Rightarrow> nat \<Rightarrow> nat \<Rightarrow> nat \<Rightarrow> mem" where
  "bswap m P Q K = (\<lambda>x. if P \<le> unat x \<and> unat x < P + K then m (of_nat (Q + (unat x - P)))
     else if Q \<le> unat x \<and> unat x < Q + K then m (of_nat (P + (unat x - Q))) else m x)"

definition frame :: "mem \<Rightarrow> mem \<Rightarrow> nat \<Rightarrow> nat \<Rightarrow> bool" where
  "frame m m' lo hi \<longleftrightarrow> (\<forall>x. unat x < lo \<or> hi \<le> unat x \<longrightarrow> m' x = m x)"

lemma length_arr [simp]: "length (arr m P e n) = n"
  by (simp add: arr_def)

lemma arr_0 [simp]: "arr m P e 0 = []"
  by (simp add: arr_def)

lemma arr_append: "arr m P e (i + j) = arr m P e i @ arr m (P + i * e) e j"
  by (rule nth_equalityI) (auto simp: arr_def nth_append algebra_simps)

lemma arr_1: "arr m P e 1 = [elem m (of_nat P) e]"
  by (simp add: arr_def)

lemma arr_Suc: "arr m P e (Suc n) = elem m (of_nat P) e # arr m (P + e) e n"
  using arr_append [of m P e 1 n] arr_1 [of m P e] by simp

lemma elem_of_nat: "elem m (of_nat P) n = map (\<lambda>i. m (of_nat (P + i))) [0..<n]"
  by (simp add: elem_def)

lemma length_elem [simp]: "length (elem m p n) = n"
  by (simp add: elem_def)

lemma arr_shift:
  assumes "\<And>k. k < n * e \<Longrightarrow> m (of_nat (P + k)) = m' (of_nat (Q + k))"
  shows "arr m P e n = arr m' Q e n"
proof -
  have "m (of_nat (P + (i * e + j))) = m' (of_nat (Q + (i * e + j)))" if "i < n" "j < e" for i j
  proof (rule assms)
    have "i * e + j < Suc i * e"
      using that by simp
    also have "\<dots> \<le> n * e"
      using that by (intro mult_le_mono1) simp
    finally show "i * e + j < n * e" .
  qed
  then show ?thesis
    by (simp add: arr_def elem_of_nat add.assoc del: of_nat_add of_nat_mult)
qed

lemma unat_of_nat32: "P < 2 ^ 32 \<Longrightarrow> unat (of_nat P :: u32) = P"
  by (simp add: unat_of_nat)

lemma frame_refl [simp]: "frame m m lo hi"
  by (simp add: frame_def)

lemma frame_trans: "frame m m' lo hi \<Longrightarrow> frame m' m'' lo' hi' \<Longrightarrow> lo \<le> lo' \<Longrightarrow> hi' \<le> hi \<Longrightarrow> frame m m'' lo hi"
  by (auto simp: frame_def)

lemma arr_frame:
  assumes "frame m m' lo hi" "P + n * e \<le> lo \<or> hi \<le> P" "P + n * e \<le> 2 ^ 32"
  shows "arr m' P e n = arr m P e n"
proof (rule arr_shift)
  fix k assume "k < n * e"
  then show "m' (of_nat (P + k)) = m (of_nat (P + k))"
    using assms unat_of_nat32 [of "P + k"] by (auto simp: frame_def simp del: of_nat_add)
qed

lemma put_of_nat:
  assumes "P + length bs \<le> 2 ^ 32" "bs \<noteq> []"
  shows "put m (of_nat P) bs x = (if P \<le> unat x \<and> unat x < P + length bs then bs ! (unat x - P) else m x)"
proof -
  have P: "unat (of_nat P :: u32) = P"
    using assms by (intro unat_of_nat32) (cases bs, auto)
  show ?thesis
  proof (cases "P \<le> unat x")
    case True
    then have "unat (x - of_nat P) = unat x - P"
      using P by (subst unat_sub_le) (auto simp: word_le_nat_alt)
    then show ?thesis
      using True by (auto simp: put_def)
  next
    case False
    have "unat (x - of_nat P) = unat x + 2 ^ 32 - P"
      using False P by (simp add: unat_sub_if')
    then show ?thesis
      using False assms by (auto simp: put_def)
  qed
qed

lemma nth_elem: "i < n \<Longrightarrow> elem m (of_nat P) n ! i = m (of_nat (P + i))"
  by (simp add: elem_of_nat)

lemma bswap_self [simp]: "bswap m P P K = m"
  by (auto simp: bswap_def)

lemma bswap_commute: "P + K \<le> Q \<or> Q + K \<le> P \<Longrightarrow> bswap m P Q K = bswap m Q P K"
  by (auto simp: bswap_def)

lemma xchg_bswap:
  assumes "P + K \<le> Q \<or> Q + K \<le> P" "P + K \<le> 2 ^ 32" "Q + K \<le> 2 ^ 32" "0 < K"
  shows "xchg K m (of_nat P) (of_nat Q) = bswap m P Q K"
proof
  fix x
  have "elem m (of_nat P) K \<noteq> []" "elem m (of_nat Q) K \<noteq> []"
    using assms(4) by (metis length_elem less_numeral_extra(3) list.size(3))+
  then show "xchg K m (of_nat P) (of_nat Q) x = bswap m P Q K x"
    using assms by (auto simp: xchg_def Let_def put_of_nat bswap_def nth_elem simp del: of_nat_add)
qed

lemma bswap_at:
  "P \<le> unat x \<Longrightarrow> unat x < P + K \<Longrightarrow> bswap m P Q K x = m (of_nat (Q + (unat x - P)))"
  "\<not> (P \<le> unat x \<and> unat x < P + K) \<Longrightarrow> Q \<le> unat x \<Longrightarrow> unat x < Q + K \<Longrightarrow>
     bswap m P Q K x = m (of_nat (P + (unat x - Q)))"
  "\<not> (P \<le> unat x \<and> unat x < P + K) \<Longrightarrow> \<not> (Q \<le> unat x \<and> unat x < Q + K) \<Longrightarrow> bswap m P Q K x = m x"
  by (auto simp: bswap_def)

lemma bswap_bswap:
  assumes "P + (J + K) \<le> Q \<or> Q + (J + K) \<le> P" "P + (J + K) \<le> 2 ^ 32" "Q + (J + K) \<le> 2 ^ 32"
  shows "bswap (bswap m P Q J) (P + J) (Q + J) K = bswap m P Q (J + K)"
proof
  fix x :: u32
  let ?P = "of_nat (Q + J + (unat x - (P + J))) :: u32" and ?Q = "of_nat (P + J + (unat x - (Q + J))) :: u32"
  consider "P \<le> unat x" "unat x < P + J" | "P + J \<le> unat x" "unat x < P + J + K"
    | "Q \<le> unat x" "unat x < Q + J" | "Q + J \<le> unat x" "unat x < Q + J + K"
    | "\<not> (P \<le> unat x \<and> unat x < P + (J + K))" "\<not> (Q \<le> unat x \<and> unat x < Q + (J + K))"
    by linarith
  then show "bswap (bswap m P Q J) (P + J) (Q + J) K x = bswap m P Q (J + K) x"
  proof cases
    case 2
    then have "unat ?P = Q + (unat x - P)"
      using assms by (subst unat_of_nat32) auto
    then have "bswap m P Q J ?P = m ?P"
      using 2 assms by (intro bswap_at(3)) auto
    moreover have "Q + J + (unat x - (P + J)) = Q + (unat x - P)"
      using 2 by linarith
    ultimately show ?thesis
      using 2 assms by (simp add: bswap_at(1) del: of_nat_add)
  next
    case 4
    then have "unat ?Q = P + (unat x - Q)"
      using assms by (subst unat_of_nat32) auto
    then have "bswap m P Q J ?Q = m ?Q"
      using 4 assms by (intro bswap_at(3)) auto
    moreover have "P + J + (unat x - (Q + J)) = P + (unat x - Q)"
      using 4 by linarith
    moreover have "\<not> (P \<le> unat x \<and> unat x < P + (J + K))"
      using 4 assms by linarith
    moreover have "bswap (bswap m P Q J) (P + J) (Q + J) K x = bswap m P Q J ?Q"
      using 4 assms by (intro bswap_at(2)) auto
    moreover have "bswap m P Q (J + K) x = m (of_nat (P + (unat x - Q)))"
      using 4 calculation by (intro bswap_at(2)) auto
    ultimately show ?thesis
      by (simp only:)
  next
    case 1
    then have "bswap (bswap m P Q J) (P + J) (Q + J) K x = bswap m P Q J x"
      using assms by (intro bswap_at(3)) auto
    then show ?thesis
      using 1 by (simp add: bswap_at(1))
  next
    case 3
    then have "\<not> (P \<le> unat x \<and> unat x < P + (J + K))"
      using assms by linarith
    moreover have "bswap (bswap m P Q J) (P + J) (Q + J) K x = bswap m P Q J x"
      using 3 assms by (intro bswap_at(3)) auto
    moreover have "bswap m P Q J x = m (of_nat (P + (unat x - Q)))" "bswap m P Q (J + K) x = m (of_nat (P + (unat x - Q)))"
      using 3 assms by (intro bswap_at(2); linarith)+
    ultimately show ?thesis
      by simp
  next
    case 5
    then have "bswap (bswap m P Q J) (P + J) (Q + J) K x = bswap m P Q J x" "bswap m P Q J x = m x" "bswap m P Q (J + K) x = m x"
      by (intro bswap_at(3); linarith)+
    then show ?thesis
      by simp
  qed
qed

lemma swapcode_bswap:
  assumes "P + sz * k \<le> Q \<or> Q + sz * k \<le> P" "P + sz * k \<le> 2 ^ 32" "Q + sz * k \<le> 2 ^ 32" "0 < sz" "0 < k" "k < 2 ^ 32"
  shows "swapcode sz m (of_nat P) (of_nat Q) (of_nat k) = bswap m P Q (sz * k)"
  using assms
proof (induction k arbitrary: m P Q)
  case (Suc k)
  have x: "xchg sz m (of_nat P) (of_nat Q) = bswap m P Q sz"
    using Suc(2-) by (intro xchg_bswap) auto
  show ?case
  proof (cases "k = 0")
    case True
    then show ?thesis
      by (simp add: swapcode.simps [of sz m] x)
  next
    case False
    then have "0 < (of_nat k :: u32)"
      using Suc(7) unat_of_nat32 [of k] by (simp add: word_less_nat_alt)
    moreover have "swapcode sz (bswap m P Q sz) (of_nat (P + sz)) (of_nat (Q + sz)) (of_nat k)
      = bswap (bswap m P Q sz) (P + sz) (Q + sz) (sz * k)"
      using Suc.prems False by (intro Suc.IH) auto
    ultimately show ?thesis
      using Suc.prems bswap_bswap [of P sz "sz * k" Q m] by (simp add: swapcode.simps [of sz m] x)
  qed
qed simp

lemma xchg_self: "n \<le> 2 ^ 32 \<Longrightarrow> xchg n m p p = m"
  by (auto simp: xchg_def put_def elem_def Let_def)

lemma swapcode_self:
  assumes "sz \<le> 2 ^ 32"
  shows "swapcode sz m p p i = m"
proof -
  have "p = q \<Longrightarrow> swapcode sz m p q i = m" for q
    using assms
  proof (induction sz m p q i rule: swapcode.induct)
    case (1 sz m pi pj i)
    then have "xchg sz m pi pj = m"
      by (simp add: xchg_self)
    moreover from this have "0 < i - 1 \<Longrightarrow> swapcode sz m (pi + of_nat sz) (pj + of_nat sz) (i - 1) = m"
      using 1 by simp
    ultimately show ?case
      by (subst swapcode.simps) (simp only: Let_def if_cancel split: if_split, blast)
  qed
  then show ?thesis
    by simp
qed

text \<open>The kind of swapping is sound for elements of \<open>e\<close> bytes.\<close>

definition swaptype_ok :: "nat \<Rightarrow> nat \<Rightarrow> bool" where
  "swaptype_ok st e \<longleftrightarrow> (st = 0 \<longrightarrow> e = 4) \<and> (st \<le> 1 \<longrightarrow> e mod 4 = 0)"

lemma SWAPINIT_ok: "e < 2 ^ 32 \<Longrightarrow> swaptype_ok (SWAPINIT a (of_nat e)) e"
  by (auto simp: swaptype_ok_def SWAPINIT_def word_unat_eq_iff unat_mod_distrib unat_of_nat32)

lemma swapfunc_bswap:
  assumes "P + N \<le> Q \<or> Q + N \<le> P" "P + N \<le> 2 ^ 32" "Q + N \<le> 2 ^ 32" "0 < N" "N < 2 ^ 32"
    and "swaptype_ok st e" "N mod e = 0"
  shows "swapfunc m (of_nat P) (of_nat Q) (of_nat N) st = bswap m P Q N"
proof (cases "st \<le> 1")
  case True
  then have N: "4 * (N div 4) = N"
    using assms(6,7) unfolding swaptype_ok_def
    by (metis mod_0_imp_dvd dvd_trans dvd_mult_div_cancel)
  have "(of_nat N :: u32) div 4 = of_nat (N div 4)"
    using assms(5) by (simp add: word_unat_eq_iff unat_div_distrib unat_of_nat32)
  then show ?thesis
    using True swapcode_bswap [of P 4 "N div 4" Q m] assms N by (simp add: swapfunc_def)
next
  case False
  then show ?thesis
    using swapcode_bswap [of P 1 N Q m] assms by (simp add: swapfunc_def)
qed

lemma swap_bswap:
  assumes "P = Q \<or> P + e \<le> Q \<or> Q + e \<le> P" "P + e \<le> 2 ^ 32" "Q + e \<le> 2 ^ 32" "0 < e" "e < 2 ^ 32" "swaptype_ok st e"
  shows "swap (of_nat e) st m (of_nat P) (of_nat Q) = bswap m P Q e"
proof (cases "P = Q")
  case True
  then show ?thesis
    by (simp add: swap_def swapfunc_def xchg_self swapcode_self)
next
  case False
  then show ?thesis
    using assms xchg_bswap [of P 4 Q m] swapfunc_bswap [of P e Q st e m] by (auto simp: swap_def swaptype_ok_def)
qed

text \<open>\<open>holds m P e xs\<close>: the elements from \<open>P\<close> on are \<open>xs\<close>.  \<open>rep\<close>: and the rest of the memory is as in \<open>m0\<close>.\<close>

definition holds :: "mem \<Rightarrow> nat \<Rightarrow> nat \<Rightarrow> bytes list \<Rightarrow> bool" where
  "holds m P e xs \<longleftrightarrow> arr m P e (length xs) = xs"

definition rep :: "mem \<Rightarrow> mem \<Rightarrow> nat \<Rightarrow> nat \<Rightarrow> bytes list \<Rightarrow> bool" where
  "rep m0 m P e xs \<longleftrightarrow> holds m P e xs \<and> frame m0 m P (P + length xs * e)"

lemma holds_append:
  "holds m P e (xs @ ys) \<longleftrightarrow> holds m P e xs \<and> holds m (P + length xs * e) e ys"
  by (simp add: holds_def arr_append)

lemma holds_Cons: "holds m P e (x # xs) \<longleftrightarrow> elem m (of_nat P) e = x \<and> holds m (P + e) e xs"
  by (simp add: holds_def arr_Suc)

lemma holds_elem: "holds m P e (A @ x # C) \<Longrightarrow> elem m (of_nat (P + length A * e)) e = x"
  by (simp add: holds_append holds_Cons)

lemma holds_frame:
  "frame m m' lo hi \<Longrightarrow> holds m P e xs \<Longrightarrow> P + length xs * e \<le> lo \<or> hi \<le> P \<Longrightarrow> P + length xs * e \<le> 2 ^ 32 \<Longrightarrow> holds m' P e xs"
  using arr_frame [of m m' lo hi P "length xs" e] by (simp add: holds_def)

lemma holds_shift:
  assumes "holds m P e xs" "\<And>k. k < length xs * e \<Longrightarrow> m' (of_nat (Q + k)) = m (of_nat (P + k))"
  shows "holds m' Q e xs"
  using arr_shift [of "length xs" e m' Q m P] assms by (simp add: holds_def)

lemma bswap_frame: "P + K \<le> hi \<Longrightarrow> Q + K \<le> hi \<Longrightarrow> lo \<le> P \<Longrightarrow> lo \<le> Q \<Longrightarrow> frame m (bswap m P Q K) lo hi"
  unfolding frame_def by (intro allI impI bswap_at(3)) linarith+

lemma bswap_bytes:
  assumes "P + K \<le> Q" "Q + K \<le> 2 ^ 32"
  shows "k < K \<Longrightarrow> bswap m P Q K (of_nat (P + k)) = m (of_nat (Q + k))"
    "k < K \<Longrightarrow> bswap m P Q K (of_nat (Q + k)) = m (of_nat (P + k))"
    "P + K \<le> k \<Longrightarrow> k < Q \<Longrightarrow> bswap m P Q K (of_nat k) = m (of_nat k)"
  subgoal using assms unat_of_nat32 [of "P + k"] by (subst bswap_at(1)) (simp_all del: of_nat_add)
  subgoal using assms unat_of_nat32 [of "Q + k"] by (subst bswap_at(2)) (simp_all del: of_nat_add)
  subgoal using assms unat_of_nat32 [of k] by (subst bswap_at(3)) simp_all
  done

lemma bswap_holds:
  assumes "holds m P e (X @ Y @ Z)" "length Z = length X" "P + length (X @ Y @ Z) * e \<le> 2 ^ 32"
  shows "holds (bswap m P (P + (length X + length Y) * e) (length X * e)) P e (Z @ Y @ X)"
proof -
  let ?Q = "P + (length X + length Y) * e" and ?K = "length X * e"
  have b: "P + ?K \<le> ?Q" "?Q + ?K \<le> 2 ^ 32"
    using assms(2,3) by (simp_all add: algebra_simps)
  have h: "holds m P e X" "holds m (P + ?K) e Y" "holds m ?Q e Z"
    using assms(1) by (simp_all add: holds_append algebra_simps)
  have "holds (bswap m P ?Q ?K) P e Z"
    using holds_shift [OF h(3)] bswap_bytes(1) [OF b] assms(2) by metis
  moreover have "holds (bswap m P ?Q ?K) ?Q e X"
    using holds_shift [OF h(1)] bswap_bytes(2) [OF b] by metis
  moreover have "holds (bswap m P ?Q ?K) (P + ?K) e Y"
    by (rule holds_shift [OF h(2)], rule bswap_bytes(3) [OF b]) (simp_all add: algebra_simps)
  ultimately show ?thesis
    using assms(2) by (simp add: holds_append algebra_simps)
qed

lemma bswap_rep:
  assumes "rep m0 m P e (A @ X @ Y @ Z @ C)" "length Z = length X" "P + length (A @ X @ Y @ Z @ C) * e \<le> 2 ^ 32"
  shows "rep m0 (bswap m (P + length A * e) (P + (length A + length X + length Y) * e) (length X * e)) P e (A @ Z @ Y @ X @ C)"
proof -
  let ?I = "P + length A * e" and ?n = "(length X + length Y + length Z) * e"
  let ?m = "bswap m ?I (P + (length A + length X + length Y) * e) (length X * e)"
  have h: "holds m P e A" "holds m ?I e (X @ Y @ Z)" "holds m (?I + ?n) e C"
    using assms(1) by (simp_all add: rep_def holds_append algebra_simps)
  have fr: "frame m ?m ?I (?I + ?n)"
    using assms(2) by (intro bswap_frame) (simp_all add: algebra_simps)
  have "holds ?m ?I e (Z @ Y @ X)"
    using bswap_holds [OF h(2) assms(2)] assms(3) by (simp add: algebra_simps)
  moreover have "holds ?m P e A"
    using assms(3) by (intro holds_frame [OF fr h(1)]) (simp_all add: algebra_simps)
  moreover have "holds ?m (?I + ?n) e C"
    using assms(3) by (intro holds_frame [OF fr h(3)]) (simp_all add: algebra_simps)
  ultimately have "holds ?m P e (A @ Z @ Y @ X @ C)"
    using assms(2) by (simp add: holds_append algebra_simps)
  moreover have "frame m0 ?m P (P + length (A @ Z @ Y @ X @ C) * e)"
    using assms(1,2) by (intro frame_trans [OF _ fr]) (auto simp: rep_def algebra_simps)
  ultimately show ?thesis
    by (simp add: rep_def)
qed

text \<open>The pointer to an element; \<open>fits\<close>: the array does not wrap around, nor does the pointer behind it.\<close>

definition ptr :: "nat \<Rightarrow> nat \<Rightarrow> nat \<Rightarrow> addr" where
  "ptr P e i = of_nat (P + i * e)"

definition fits :: "nat \<Rightarrow> nat \<Rightarrow> nat \<Rightarrow> bool" where
  "fits P e n \<longleftrightarrow> 0 < e \<and> e < 2 ^ 32 \<and> P + n * e < 2 ^ 32"

lemma unat_ptr: "fits P e n \<Longrightarrow> i \<le> n \<Longrightarrow> unat (ptr P e i) = P + i * e"
  unfolding ptr_def fits_def using mult_le_mono1 [of i n e] by (intro unat_of_nat32) linarith

lemma ptr_less: "fits P e n \<Longrightarrow> i \<le> n \<Longrightarrow> j \<le> n \<Longrightarrow> ptr P e i < ptr P e j \<longleftrightarrow> i < j"
  by (simp add: word_less_nat_alt unat_ptr) (simp add: fits_def)

lemma ptr_le: "fits P e n \<Longrightarrow> i \<le> n \<Longrightarrow> j \<le> n \<Longrightarrow> ptr P e i \<le> ptr P e j \<longleftrightarrow> i \<le> j"
  by (simp add: word_le_nat_alt unat_ptr) (simp add: fits_def)

lemma ptr_add: "ptr P e i + of_nat e = ptr P e (Suc i)"
  by (simp add: ptr_def algebra_simps)

lemma ptr_sub: "0 < i \<Longrightarrow> ptr P e i - of_nat e = ptr P e (i - 1)"
  by (cases i) (simp_all add: ptr_def algebra_simps)

lemma ptr_0: "ptr P e 0 = of_nat P"
  by (simp add: ptr_def)

lemma ptr_plus: "of_nat P + of_nat i * of_nat e = ptr P e i"
  by (simp add: ptr_def)

lemma ptr_diff: "i \<le> j \<Longrightarrow> ptr P e j - ptr P e i = of_nat ((j - i) * e)"
  by (auto simp: ptr_def le_iff_add algebra_simps)

lemma ptr_back: "i \<le> j \<Longrightarrow> ptr P e j - of_nat (i * e) = ptr P e (j - i)"
  by (auto simp: ptr_def le_iff_add algebra_simps)

lemma fits_mono: "fits P e n \<Longrightarrow> k \<le> n \<Longrightarrow> fits P e k"
  unfolding fits_def using mult_le_mono1 [of k n e] by linarith

lemma swap_rep:
  assumes "rep m0 m P e (A @ x # B @ y # C)" "fits P e (length A + length B + length C + 2)" "swaptype_ok st e"
    and "i = length A" "j = length A + length B + 1"
  shows "rep m0 (swap (of_nat e) st m (ptr P e i) (ptr P e j)) P e (A @ y # B @ x # C)"
    "rep m0 (swap (of_nat e) st m (ptr P e j) (ptr P e i)) P e (A @ y # B @ x # C)"
proof -
  let ?I = "P + length A * e" and ?J = "P + (length A + length B + 1) * e"
  have r: "rep m0 (bswap m ?I ?J e) P e (A @ y # B @ x # C)"
    using bswap_rep [of m0 m P e A "[x]" B "[y]" C] assms(1,2) by (simp add: fits_def algebra_simps)
  have b: "?I + e \<le> ?J" "?I + e \<le> 2 ^ 32" "?J + e \<le> 2 ^ 32" "0 < e" "e < 2 ^ 32"
    using assms(2) by (simp_all add: fits_def algebra_simps)
  then show "rep m0 (swap (of_nat e) st m (ptr P e i) (ptr P e j)) P e (A @ y # B @ x # C)"
    unfolding ptr_def assms(4,5) using r swap_bswap [of ?I ?J e st m] assms(3) by (simp del: of_nat_add of_nat_mult)
  show "rep m0 (swap (of_nat e) st m (ptr P e j) (ptr P e i)) P e (A @ y # B @ x # C)"
    unfolding ptr_def assms(4,5) using b r swap_bswap [of ?J ?I e st m] bswap_commute [of ?I e ?J m] assms(3)
    by (simp del: of_nat_add of_nat_mult)
qed

lemma swap_same:
  assumes "fits P e n" "i < n" "swaptype_ok st e"
  shows "swap (of_nat e) st m (ptr P e i) (ptr P e i) = m"
  by (simp add: swap_def swapfunc_def xchg_self swapcode_self)

lemma vecswap_rep:
  assumes "rep m0 m P e (A @ X @ Y @ Z @ C)" "length Z = length X" "fits P e (length (A @ X @ Y @ Z @ C))" "swaptype_ok st e"
    and "i = length A" "j = length A + length X + length Y" "k = length X"
  shows "rep m0 (vecswap st m (ptr P e i) (ptr P e j) (of_nat (k * e))) P e (A @ Z @ Y @ X @ C)"
proof (cases "X = []")
  case True
  then show ?thesis
    using assms by (simp add: vecswap_def)
next
  case False
  let ?I = "P + i * e" and ?J = "P + j * e"
  have k: "0 < k * e"
    using False assms(3,7) by (simp add: fits_def)
  have b: "?I + k * e \<le> ?J" "?J + k * e < 2 ^ 32"
    using assms(2,3,5-7) by (simp_all add: fits_def algebra_simps)
  have "0 < (of_nat (k * e) :: u32)"
    using k b unat_of_nat32 [of "k * e"] by (simp add: word_less_nat_alt del: of_nat_mult)
  moreover have "swapfunc m (of_nat ?I) (of_nat ?J) (of_nat (k * e)) st = bswap m ?I ?J (k * e)"
    using b k by (intro swapfunc_bswap [OF _ _ _ _ _ assms(4)]) auto
  moreover have "rep m0 (bswap m ?I ?J (k * e)) P e (A @ Z @ Y @ X @ C)"
    using bswap_rep [OF assms(1,2)] assms(3,5-7) by (simp add: fits_def)
  ultimately show ?thesis
    by (simp add: vecswap_def ptr_def del: of_nat_add of_nat_mult)
qed

section \<open>Comparison functions\<close>

text \<open>What the sorting and searching functions need of a comparison function: it is the sign of a total preorder.\<close>

locale compar_order =
  fixes cmp :: "'a \<Rightarrow> 'a \<Rightarrow> int"
  assumes cmp_flip: "0 < cmp x y \<longleftrightarrow> cmp y x < 0"
    and cmp_trans: "cmp x y \<le> 0 \<Longrightarrow> cmp y z \<le> 0 \<Longrightarrow> cmp x z \<le> 0"
begin

lemma cmp_refl: "cmp x x = 0"
  using cmp_flip [of x x] by linarith

lemma cmp_le_flip: "cmp x y \<le> 0 \<longleftrightarrow> 0 \<le> cmp y x"
  using cmp_flip [of x y] cmp_flip [of y x] by linarith

lemma cmp_eq_flip: "cmp x y = 0 \<longleftrightarrow> cmp y x = 0"
  using cmp_flip [of x y] cmp_flip [of y x] by linarith

lemma sorted_insert:
  assumes "sorted_wrt (\<lambda>x y. cmp x y \<le> 0) (A @ B)" "A = [] \<or> cmp (last A) x \<le> 0" "\<forall>y \<in> set B. cmp y x > 0"
  shows "sorted_wrt (\<lambda>x y. cmp x y \<le> 0) (A @ x # B)"
proof -
  have "cmp a x \<le> 0" if "a \<in> set A" for a
  proof (cases "a = last A")
    case False
    have A: "A = butlast A @ [last A]"
      using that by (cases A) auto
    then have "a \<in> set (butlast A)"
      using that False by (metis Un_iff set_append set_ConsD empty_iff list.set(1))
    then have "cmp a (last A) \<le> 0"
      using assms(1) A by (metis sorted_wrt_append list.set_intros(1))
    then show ?thesis
      using assms(2) that cmp_trans by auto
  qed (use assms(2) that in auto)
  moreover have "cmp x y \<le> 0" if "y \<in> set B" for y
    using assms(3) that cmp_le_flip [of x y] by fastforce
  ultimately show ?thesis
    using assms(1) by (auto simp: sorted_wrt_append)
qed

lemma sorted_partition:
  assumes "sorted_wrt (\<lambda>x y. cmp x y \<le> 0) L" "sorted_wrt (\<lambda>x y. cmp x y \<le> 0) G"
    and "\<forall>x \<in> set L. cmp x v < 0" "\<forall>x \<in> set E. cmp x v = 0" "\<forall>x \<in> set G. cmp x v > 0"
  shows "sorted_wrt (\<lambda>x y. cmp x y \<le> 0) (L @ E @ G)"
proof -
  have le: "cmp x y \<le> 0" if "x \<in> set L \<union> set E" "y \<in> set E \<union> set G" for x y
  proof (rule cmp_trans)
    show "cmp x v \<le> 0"
      using that(1) assms(3,4) by (auto intro: less_imp_le)
    show "cmp v y \<le> 0"
      using that(2) assms(4,5) cmp_le_flip by (auto intro: less_imp_le)
  qed
  then have "sorted_wrt (\<lambda>x y. cmp x y \<le> 0) E"
    by (auto simp: sorted_wrt_iff_nth_less)
  then show ?thesis
    using assms(1,2) le by (auto simp: sorted_wrt_append)
qed

end

section \<open>The loops\<close>

lemma cmp_at_rep:
  assumes "rep m0 m P e (A @ x # C)" "rep m0 m P e (B @ y # D)" "fits P e n" "i = length A" "j = length B"
  shows "cmp_at cmp (of_nat e) m (ptr P e i) (ptr P e j) = cmp x y"
proof -
  have "elem m (ptr P e i) e = x" "elem m (ptr P e j) e = y"
    using assms holds_elem unfolding rep_def ptr_def by blast+
  moreover have "unat (of_nat e :: u32) = e"
    using assms(3) by (intro unat_of_nat32) (simp add: fits_def)
  ultimately show ?thesis
    by (simp add: cmp_at_def)
qed

lemma ins_inner_rep:
  assumes "rep m0 m P e (A @ x # B)" "fits P e (length A + length B + 1)" "swaptype_ok st e"
  shows "\<exists>m' A1 A2. ins_inner cmp (of_nat e) st (ptr P e 0) m (ptr P e (length A)) = Some m' \<and> A = A1 @ A2
    \<and> rep m0 m' P e (A1 @ x # A2 @ B) \<and> (A1 = [] \<or> cmp (last A1) x \<le> 0) \<and> (\<forall>y \<in> set A2. cmp y x > 0)"
  using assms(1,2)
proof (induction A arbitrary: m B rule: rev_induct)
  case Nil
  then show ?case
    by (intro exI [of _ m]) (simp add: ins_inner.simps)
next
  case (snoc y A)
  let ?i = "Suc (length A)"
  have r: "rep m0 m P e (A @ y # x # B)"
    using snoc(2) by simp
  have c: "cmp_at cmp (of_nat e) m (ptr P e ?i - of_nat e) (ptr P e ?i) = cmp y x"
    using cmp_at_rep [of m0 m P e A y "x # B" "A @ [y]" x B] r snoc(3) by (simp add: ptr_sub)
  have lt: "ptr P e 0 < ptr P e ?i"
    using ptr_less [OF snoc(3)] by simp
  show ?case
  proof (cases "cmp y x > 0")
    case True
    have f: "fits P e (length A + length (y # B) + 1)"
      using snoc(3) by simp
    have "rep m0 (swap (of_nat e) st m (ptr P e ?i) (ptr P e (length A))) P e (A @ x # y # B)"
      using swap_rep(2) [of m0 m P e A y "[]" x B st] r snoc(3) assms(3) by simp
    then obtain m' A1 A2 where "ins_inner cmp (of_nat e) st (ptr P e 0)
        (swap (of_nat e) st m (ptr P e ?i) (ptr P e (length A))) (ptr P e (length A)) = Some m'" "A = A1 @ A2"
      "rep m0 m' P e (A1 @ x # A2 @ y # B)" "A1 = [] \<or> cmp (last A1) x \<le> 0" "\<forall>y \<in> set A2. cmp y x > 0"
      using snoc.IH [OF _ f] by blast
    then show ?thesis
      using True c lt by (intro exI [of _ m'] exI [of _ A1] exI [of _ "A2 @ [y]"])
        (simp add: ins_inner.simps [of _ _ _ _ m] ptr_sub)
  next
    case False
    then show ?thesis
      using c r by (intro exI [of _ m] exI [of _ "A @ [y]"] exI [of _ "[]"]) (simp add: ins_inner.simps [of _ _ _ _ m])
  qed
qed

lemma ins_outer_rep:
  assumes "compar_order cmp" "rep m0 m P e (A @ C)" "fits P e (length A + length C)" "swaptype_ok st e"
    and "A \<noteq> [] \<or> C = []" "sorted_wrt (\<lambda>x y. cmp x y \<le> 0) A"
  shows "\<exists>m' S. ins_outer cmp (of_nat e) st (ptr P e 0) (ptr P e (length A + length C)) m (ptr P e (length A)) = Some m'
    \<and> rep m0 m' P e S \<and> sorted_wrt (\<lambda>x y. cmp x y \<le> 0) S \<and> mset S = mset (A @ C)"
  using assms(2,3,5,6)
proof (induction C arbitrary: m A)
  case Nil
  then show ?case
    by (intro exI [of _ m] exI [of _ A]) (simp add: ins_outer.simps)
next
  case (Cons x C)
  have lt: "ptr P e (length A) < ptr P e (length A + length (x # C))"
    using ptr_less [OF Cons(3), of "length A" "length A + length (x # C)"] by simp
  have f: "fits P e (length A + length C + 1)"
    using Cons(3) by simp
  obtain m1 A1 A2 where i: "ins_inner cmp (of_nat e) st (ptr P e 0) m (ptr P e (length A)) = Some m1" "A = A1 @ A2"
    "rep m0 m1 P e (A1 @ x # A2 @ C)" "A1 = [] \<or> cmp (last A1) x \<le> 0" "\<forall>y \<in> set A2. cmp y x > 0"
    using ins_inner_rep [OF Cons(2) f assms(4), of cmp] by blast
  have "sorted_wrt (\<lambda>x y. cmp x y \<le> 0) (A1 @ x # A2)"
    using compar_order.sorted_insert [OF assms(1)] Cons(5) i by blast
  then obtain m' S where "ins_outer cmp (of_nat e) st (ptr P e 0) (ptr P e (length A + length (x # C))) m1 (ptr P e (Suc (length A))) = Some m'"
    "rep m0 m' P e S" "sorted_wrt (\<lambda>x y. cmp x y \<le> 0) S" "mset S = mset (A @ x # C)"
    using Cons.IH [of m1 "A1 @ x # A2"] i Cons(3) by auto
  then show ?case
    using lt i(1) by (intro exI [of _ m'] exI [of _ S]) (simp add: ins_outer.simps [of _ _ _ _ _ m] ptr_add)
qed

text \<open>A permutation in order, in the same block.\<close>

definition sorts :: "compar \<Rightarrow> mem \<Rightarrow> nat \<Rightarrow> nat \<Rightarrow> bytes list \<Rightarrow> mem \<Rightarrow> bool" where
  "sorts cmp m0 P e xs m' \<longleftrightarrow> (\<exists>ys. rep m0 m' P e ys \<and> sorted_wrt (\<lambda>x y. cmp x y \<le> 0) ys \<and> mset ys = mset xs)"

lemma insertion_sort_rep:
  assumes "compar_order cmp" "rep m0 m P e xs" "fits P e (length xs)" "xs = [] \<longrightarrow> fits P e 1" "swaptype_ok st e"
  shows "\<exists>m'. insertion_sort cmp (of_nat e) st m (of_nat P) (of_nat (length xs)) = Some m' \<and> sorts cmp m0 P e xs m'"
proof (cases xs)
  case Nil
  then have "\<not> ptr P e 1 < ptr P e 0"
    using ptr_less [of P e 1 1 0] assms(4) by simp
  then show ?thesis
    using Nil assms(2) by (simp add: insertion_sort_def ins_outer.simps ptr_def sorts_def)
next
  case (Cons x C)
  then show ?thesis
    using ins_outer_rep [of cmp m0 m P e "[x]" C st] assms by (simp add: insertion_sort_def sorts_def ptr_def algebra_simps)
qed

text \<open>An element equal to the pivot is swapped to the end of the equal ones, and goes around the smaller or the larger ones.\<close>

lemma swap_around:
  assumes "rep m0 m P e (A @ L @ x # C)" "fits P e n" "length A + length L + length C < n" "swaptype_ok st e"
    and "i = length A" "j = length A + length L"
  shows "\<exists>L'. rep m0 (swap (of_nat e) st m (ptr P e i) (ptr P e j)) P e (A @ x # L' @ C) \<and> mset L' = mset L"
proof (cases L)
  case Nil
  then show ?thesis
    using assms swap_same [OF assms(2) _ assms(4)] by simp
next
  case (Cons l L0)
  then show ?thesis
    using swap_rep(1) [of m0 m P e A l L0 x C st i j] fits_mono [OF assms(2)] assms by (intro exI [of _ "L0 @ [l]"]) simp
qed

lemma swap_around_down:
  assumes "rep m0 m P e (A @ x # G @ C)" "fits P e n" "length A + length G + length C < n" "swaptype_ok st e"
    and "i = length A" "j = length A + length G"
  shows "\<exists>G'. rep m0 (swap (of_nat e) st m (ptr P e i) (ptr P e j)) P e (A @ G' @ x # C) \<and> mset G' = mset G"
proof (cases G rule: rev_cases)
  case Nil
  then show ?thesis
    using assms swap_same [OF assms(2) _ assms(4)] by simp
next
  case (snoc G0 g)
  then show ?thesis
    using swap_rep(1) [of m0 m P e A x G0 g C st i j] fits_mono [OF assms(2)] assms by (intro exI [of _ "g # G0"]) simp
qed

text \<open>The array between the loops: the pivot \<open>v\<close> and the elements \<open>E\<close> equal to it, the smaller ones \<open>L\<close>, the ones
  to look at \<open>M\<close>, the larger ones \<open>G\<close>, and other equal ones \<open>F\<close>.\<close>

definition low :: "compar \<Rightarrow> bytes \<Rightarrow> bytes list \<Rightarrow> bytes list \<Rightarrow> bool" where
  "low cmp v E L \<longleftrightarrow> (\<forall>x \<in> set E. cmp x v = 0) \<and> (\<forall>x \<in> set L. cmp x v < 0)"

definition high :: "compar \<Rightarrow> bytes \<Rightarrow> bytes list \<Rightarrow> bytes list \<Rightarrow> bool" where
  "high cmp v G F \<longleftrightarrow> (\<forall>x \<in> set G. cmp x v > 0) \<and> (\<forall>x \<in> set F. cmp x v = 0)"

lemma scan_up_rep:
  assumes "rep m0 m P e (v # E @ L @ M @ R)" "fits P e n" "n = 1 + length E + length L + length M + length R"
    and "swaptype_ok st e" "low cmp v E L" "length M \<le> k"
  shows "\<exists>m' E' L' M' c'. scan_up cmp (of_nat e) st (ptr P e 0) (ptr P e (length E + length L + length M)) m
      (ptr P e (1 + length E)) (ptr P e (1 + length E + length L)) c
      = Some (m', ptr P e (1 + length E'), ptr P e (1 + length E' + length L'), c')
    \<and> rep m0 m' P e (v # E' @ L' @ M' @ R) \<and> length M' \<le> k \<and> low cmp v E' L'
    \<and> (M' = [] \<or> 0 < cmp (hd M') v) \<and> mset (E' @ L' @ M') = mset (E @ L @ M)"
  using assms(1,3,5,6)
proof (induction M arbitrary: m E L c)
  case Nil
  then have "\<not> ptr P e (1 + length E + length L) \<le> ptr P e (length E + length L)"
    using ptr_le [OF assms(2)] by simp
  then show ?case
    using Nil by (intro exI [of _ m] exI [of _ E] exI [of _ L] exI [of _ "[]"] exI [of _ c]) (simp add: scan_up.simps)
next
  case (Cons x M)
  let ?pb = "1 + length E + length L" and ?pc = "length E + length L + length (x # M)"
  have le: "ptr P e ?pb \<le> ptr P e ?pc"
    using ptr_le [OF assms(2), of ?pb ?pc] Cons(3) by simp
  have c: "cmp_at cmp (of_nat e) m (ptr P e ?pb) (ptr P e 0) = cmp x v"
    using cmp_at_rep [of m0 m P e "v # E @ L" x "M @ R" "[]" v _ n ?pb 0 cmp] Cons(2) assms(2) by simp
  consider "cmp x v = 0" | "cmp x v < 0" | "cmp x v > 0"
    by linarith
  then show ?case
  proof cases
    case 1
    let ?m = "swap (of_nat e) st m (ptr P e (1 + length E)) (ptr P e ?pb)"
    obtain L1 where L1: "rep m0 ?m P e ((v # E) @ x # L1 @ M @ R)" "mset L1 = mset L"
      using swap_around [of m0 m P e "v # E" L x "M @ R" n st] Cons(2,3) assms(2,4) by auto
    have len: "length L1 = length L" and "set L1 = set L"
      using L1(2) by (metis size_mset, metis set_mset_mset)
    then have "low cmp v (E @ [x]) L1"
      using Cons(4) 1 by (auto simp: low_def)
    then show ?thesis
      using Cons.IH [of ?m "E @ [x]" L1 1] L1 len 1 Cons(3,5) le c
      by (simp add: scan_up.simps [of _ _ _ _ _ m] ptr_add)
  next
    case 2
    then have "low cmp v E (L @ [x])"
      using Cons(4) by (auto simp: low_def)
    then show ?thesis
      using Cons.IH [of m E "L @ [x]" c] Cons(2,3,5) 2 le c
      by (simp add: scan_up.simps [of _ _ _ _ _ m] ptr_add)
  next
    case 3
    then show ?thesis
      using Cons(2,4,5) c
      by (intro exI [of _ m] exI [of _ E] exI [of _ L] exI [of _ "x # M"] exI [of _ c]) (simp add: scan_up.simps)
  qed
qed

lemma scan_down_rep:
  assumes "rep m0 m P e (v # T @ M @ G @ F)" "fits P e n" "n = 1 + length T + length M + length G + length F"
    and "swaptype_ok st e" "high cmp v G F" "take (length M) K = M"
  shows "\<exists>m' M' G' F' c'. scan_down cmp (of_nat e) st (ptr P e 0) (ptr P e (1 + length T)) m
      (ptr P e (length T + length M)) (ptr P e (length T + length M + length G)) c
      = Some (m', ptr P e (length T + length M'), ptr P e (length T + length M' + length G'), c')
    \<and> rep m0 m' P e (v # T @ M' @ G' @ F') \<and> take (length M') K = M' \<and> high cmp v G' F'
    \<and> (M' = [] \<or> cmp (last M') v < 0) \<and> mset (M' @ G' @ F') = mset (M @ G @ F)"
  using assms(1,3,5,6)
proof (induction M arbitrary: m G F c rule: rev_induct)
  case Nil
  then have "\<not> ptr P e (1 + length T) \<le> ptr P e (length T)"
    using ptr_le [OF assms(2)] by simp
  then show ?case
    using Nil by (intro exI [of _ m] exI [of _ "[]"] exI [of _ G] exI [of _ F] exI [of _ c]) (simp add: scan_down.simps)
next
  case (snoc x M)
  have K: "take (length M) K = M"
    using arg_cong [OF snoc(5), of "take (length M)"] by (simp add: min_absorb1)
  let ?pb = "1 + length T" and ?pc = "length T + length (M @ [x])"
  have le: "ptr P e ?pb \<le> ptr P e ?pc"
    using ptr_le [OF assms(2), of ?pb ?pc] snoc(3) by simp
  have c: "cmp_at cmp (of_nat e) m (ptr P e ?pc) (ptr P e 0) = cmp x v"
    using cmp_at_rep [of m0 m P e "v # T @ M" x "G @ F" "[]" v _ n ?pc 0 cmp] snoc(2) assms(2) by simp
  consider "cmp x v = 0" | "cmp x v > 0" | "cmp x v < 0"
    by linarith
  then show ?case
  proof cases
    case 1
    let ?m = "swap (of_nat e) st m (ptr P e ?pc) (ptr P e (?pc + length G))"
    obtain G1 where G1: "rep m0 ?m P e ((v # T @ M) @ G1 @ x # F)" "mset G1 = mset G"
      using swap_around_down [of m0 m P e "v # T @ M" x G F n st] snoc(2,3) assms(2,4) by auto
    have len: "length G1 = length G" and "set G1 = set G"
      using G1(2) by (metis size_mset, metis set_mset_mset)
    then have "high cmp v G1 (x # F)"
      using snoc(4) 1 by (auto simp: high_def)
    then show ?thesis
      using snoc.IH [of ?m G1 "x # F" 1] G1 len 1 snoc(3) K le c
      by (simp add: scan_down.simps [of _ _ _ _ _ m] ptr_sub)
  next
    case 2
    then have "high cmp v (x # G) F"
      using snoc(4) by (auto simp: high_def)
    then show ?thesis
      using snoc.IH [of m "x # G" F c] snoc(2,3) K 2 le c
      by (simp add: scan_down.simps [of _ _ _ _ _ m] ptr_sub)
  next
    case 3
    then show ?thesis
      using snoc(2,4,5) c
      by (intro exI [of _ m] exI [of _ "M @ [x]"] exI [of _ G] exI [of _ F] exI [of _ c]) (simp add: scan_down.simps)
  qed
qed

lemma partition_rep:
  assumes "rep m0 m P e (v # E @ L @ M @ G @ F)" "fits P e n"
    and "n = 1 + length E + length L + length M + length G + length F"
    and "swaptype_ok st e" "low cmp v E L" "high cmp v G F"
  shows "\<exists>m' E' L' G' F' c'. partition_loop cmp (of_nat e) st (ptr P e 0) m
      (ptr P e (1 + length E)) (ptr P e (1 + length E + length L))
      (ptr P e (length E + length L + length M)) (ptr P e (length E + length L + length M + length G)) c
      = Some (m', ptr P e (1 + length E'), ptr P e (1 + length E' + length L'), ptr P e (length E' + length L'),
          ptr P e (length E' + length L' + length G'), c')
    \<and> rep m0 m' P e (v # E' @ L' @ G' @ F') \<and> low cmp v E' L' \<and> high cmp v G' F'
    \<and> mset (E' @ L' @ G' @ F') = mset (E @ L @ M @ G @ F)"
  using assms(1,3,5,6)
proof (induction "length M" arbitrary: m E L M G F c rule: less_induct)
  case less
  have n: "n = 1 + length E + length L + length M + length (G @ F)"
    using less(3) by simp
  obtain m1 E1 L1 M1 c1 where up: "scan_up cmp (of_nat e) st (ptr P e 0) (ptr P e (length E + length L + length M)) m
      (ptr P e (1 + length E)) (ptr P e (1 + length E + length L)) c
      = Some (m1, ptr P e (1 + length E1), ptr P e (1 + length E1 + length L1), c1)"
    "rep m0 m1 P e (v # E1 @ L1 @ M1 @ G @ F)" "length M1 \<le> length M" "low cmp v E1 L1"
    "M1 = [] \<or> 0 < cmp (hd M1) v" "mset (E1 @ L1 @ M1) = mset (E @ L @ M)"
    using scan_up_rep [OF less(2) assms(2) n assms(4) less(4) order_refl, of c] by blast
  have len1: "length E + length L + length M = length (E1 @ L1) + length M1"
    using arg_cong [OF up(6), of size] by simp
  have "rep m0 m1 P e (v # (E1 @ L1) @ M1 @ G @ F)" "n = 1 + length (E1 @ L1) + length M1 + length G + length F"
    "take (length M1) M1 = M1"
    using up(2) less(3) len1 by simp_all
  from scan_down_rep [OF this(1) assms(2) this(2) assms(4) less(5) this(3), of c1]
  obtain m2 M2 G2 F2 c2 where dn: "scan_down cmp (of_nat e) st (ptr P e 0) (ptr P e (1 + length (E1 @ L1))) m1
      (ptr P e (length (E1 @ L1) + length M1)) (ptr P e (length (E1 @ L1) + length M1 + length G)) c1
      = Some (m2, ptr P e (length (E1 @ L1) + length M2), ptr P e (length (E1 @ L1) + length M2 + length G2), c2)"
    "rep m0 m2 P e (v # (E1 @ L1) @ M2 @ G2 @ F2)" "take (length M2) M1 = M2" "high cmp v G2 F2"
    "M2 = [] \<or> cmp (last M2) v < 0" "mset (M2 @ G2 @ F2) = mset (M1 @ G @ F)"
    by blast
  have ms: "mset (E1 @ L1 @ M2 @ G2 @ F2) = mset (E @ L @ M @ G @ F)"
    using up(6) dn(6) by (simp add: union_assoc [symmetric])
  have len2: "n = 1 + length (E1 @ L1) + length M2 + length G2 + length F2"
    using arg_cong [OF ms, of size] less(3) by simp
  have gt: "ptr P e (length (E1 @ L1) + length M2) < ptr P e (1 + length (E1 @ L1)) \<longleftrightarrow> M2 = []"
    using ptr_less [OF assms(2), of "length (E1 @ L1) + length M2" "1 + length (E1 @ L1)"] len2 by (cases M2) auto
  let ?r = "\<lambda>m L M G c. partition_loop cmp (of_nat e) st (ptr P e 0) m (ptr P e (1 + length E1)) (ptr P e (1 + length E1 + length L))
    (ptr P e (length E1 + length L + length M)) (ptr P e (length E1 + length L + length M + length G)) c"
  show ?case
  proof (cases "M2 = []")
    case True
    then show ?thesis
      using up(1,4) dn len1 gt ms
      by (intro exI [of _ m2] exI [of _ E1] exI [of _ L1] exI [of _ G2] exI [of _ F2] exI [of _ c2])
        (simp add: partition_loop.simps [of _ _ _ _ m])
  next
    case False
    then have hd: "0 < cmp (hd M2) v" "cmp (last M2) v < 0"
      using up(5) dn(3,5) by (metis hd_take length_greater_0_conv take_Nil, simp)
    then obtain x M3 y where M2: "M2 = x # M3 @ [y]" "0 < cmp x v" "cmp y v < 0"
      using False by (cases M2; cases "tl M2" rule: rev_cases) auto
    let ?m = "swap (of_nat e) st m2 (ptr P e (1 + length E1 + length L1)) (ptr P e (length E1 + length L1 + length M2))"
    have "rep m0 ?m P e ((v # E1 @ L1) @ y # M3 @ x # G2 @ F2)"
      using dn(2) M2 len2 fits_mono [OF assms(2)] assms(4)
      by (intro swap_rep(1)) (simp_all add: algebra_simps)
    moreover have "low cmp v E1 (L1 @ [y])" "high cmp v (x # G2) F2"
      using up(4) dn(4) M2 by (auto simp: low_def high_def)
    moreover have "length M3 < length M"
      using arg_cong [OF dn(3), of length] M2(1) up(3) by simp
    ultimately obtain m' E' L' G' F' c' where "?r ?m (L1 @ [y]) M3 (x # G2) 1
      = Some (m', ptr P e (1 + length E'), ptr P e (1 + length E' + length L'), ptr P e (length E' + length L'),
          ptr P e (length E' + length L' + length G'), c')"
      "rep m0 m' P e (v # E' @ L' @ G' @ F')" "low cmp v E' L'" "high cmp v G' F'"
      "mset (E' @ L' @ G' @ F') = mset (E1 @ (L1 @ [y]) @ M3 @ (x # G2) @ F2)"
      using less(1) [of M3 ?m E1 "L1 @ [y]" "x # G2" F2 1] len2 M2 by auto
    then show ?thesis
      using up(1) dn(1) len1 gt False ms M2
      by (intro exI [of _ m'] exI [of _ E'] exI [of _ L'] exI [of _ G'] exI [of _ F'] exI [of _ c'])
        (simp add: partition_loop.simps [of _ _ _ _ m] ptr_add ptr_sub add_mset_commute)
  qed
qed

end
