(* ===== verification/Libc_Qsort.thy ===== *)
theory Libc_Qsort
  imports Libc_Sort
begin

text \<open>
  The correctness of \<^verbatim>\<open>qsort\<close> and \<^verbatim>\<open>bsearch\<close>, from the lemmas on their loops in \<^verbatim>\<open>Libc_Sort\<close>: the choice of the pivot, the
  exchange of the runs after the partition and the recursion for the one, the halving for the other.  The order of
  the bytes that \<^verbatim>\<open>memcmp\<close> computes is an instance of the comparison functions they need.
\<close>

section \<open>One call\<close>

lemma of_nat_div32:
  assumes "n < 2 ^ 32" "k < 2 ^ 32"
  shows "(of_nat n :: u32) div of_nat k = of_nat (n div k)"
proof (rule word_unat_eq_iff [THEN iffD2])
  have "unat (of_nat (n div k) :: u32) = n div k"
    using assms(1) by (intro unat_of_nat32 le_less_trans [OF div_le_dividend])
  then show "unat ((of_nat n :: u32) div of_nat k) = unat (of_nat (n div k) :: u32)"
    using assms by (simp only: unat_div_distrib unat_of_nat32)
qed

lemma of_nat_less32: "n < 2 ^ 32 \<Longrightarrow> k < 2 ^ 32 \<Longrightarrow> (of_nat n :: u32) < of_nat k \<longleftrightarrow> n < k"
  by (simp add: word_less_nat_alt unat_of_nat32)

lemma of_nat_eq32: "n < 2 ^ 32 \<Longrightarrow> k < 2 ^ 32 \<Longrightarrow> (of_nat n :: u32) = of_nat k \<longleftrightarrow> n = k"
  by (metis unat_of_nat32)

lemma med3_choice: "med3 cmp es m a b c \<in> {a, b, c}"
  by (simp add: med3_def)

lemma fits_length: "fits P e n \<Longrightarrow> n < 2 ^ 32"
  unfolding fits_def using mult_le_mono [of n n 1 e] by linarith

lemma pivot_ptr:
  assumes "fits P e n" "7 \<le> n"
  shows "\<exists>i < n. pivot cmp (of_nat e) m (of_nat P) (of_nat n) = ptr P e i"
proof -
  let ?d = "n div 8"
  have n: "n < 2 ^ 32"
    using fits_length [OF assms(1)] .
  have w: "(of_nat n :: u32) div 2 = of_nat (n div 2)" "(of_nat n :: u32) div 8 = of_nat ?d" "(of_nat n :: u32) - 1 = of_nat (n - 1)"
    "(7 :: u32) < of_nat n \<longleftrightarrow> 7 < n" "(40 :: u32) < of_nat n \<longleftrightarrow> 40 < n"
    using of_nat_div32 [OF n, of 2] of_nat_div32 [OF n, of 8] of_nat_less32 [OF _ n, of 7] of_nat_less32 [OF _ n, of 40] assms(2)
    by auto
  have p: "of_nat P = ptr P e 0" "of_nat P + of_nat (n div 2) * of_nat e = ptr P e (n div 2)"
    "of_nat P + of_nat (n - 1) * of_nat e = ptr P e (n - 1)"
    by (simp_all only: ptr_0 ptr_plus)
  have d: "ptr P e i + of_nat ?d * of_nat e = ptr P e (i + ?d)" "ptr P e i + 2 * (of_nat ?d * of_nat e) = ptr P e (i + 2 * ?d)" for i
    by (simp_all add: ptr_def algebra_simps)
  have d': "k \<le> i \<Longrightarrow> ptr P e i - of_nat k * of_nat e = ptr P e (i - k)" for i k
    using ptr_back [of k i P e] by simp
  have s: "ptr P e (n div 2) - of_nat ?d * of_nat e = ptr P e (n div 2 - ?d)"
    "ptr P e (n - 1) - of_nat ?d * of_nat e = ptr P e (n - 1 - ?d)"
    "ptr P e (n - 1) - 2 * (of_nat ?d * of_nat e) = ptr P e (n - 1 - 2 * ?d)"
    using d' [of ?d "n div 2"] d' [of ?d "n - 1"] d' [of "2 * ?d" "n - 1"] assms(2) by (simp_all add: mult.assoc)
  define S where "S = ptr P e ` {..<n}"
  have S: "i < n \<Longrightarrow> ptr P e i \<in> S" for i
    by (simp add: S_def)
  have med: "a \<in> S \<Longrightarrow> b \<in> S \<Longrightarrow> c \<in> S \<Longrightarrow> med3 cmp (of_nat e) m a b c \<in> S" for a b c
    using med3_choice [of cmp "of_nat e" m a b c] by auto
  have "pivot cmp (of_nat e) m (of_nat P) (of_nat n) \<in> S"
    using assms(2) unfolding pivot_def w Let_def p(2,3)
    unfolding p(1) d s by (auto intro!: med S)
  then show ?thesis
    by (auto simp: S_def)
qed

lemma swap_any:
  assumes "rep m0 m P e xs" "fits P e (length xs)" "swaptype_ok st e" "i < length xs"
  shows "\<exists>ys. rep m0 (swap (of_nat e) st m (ptr P e 0) (ptr P e i)) P e ys \<and> mset ys = mset xs"
proof -
  obtain B y C where xs: "xs = B @ y # C" "length B = i"
    by (rule that [of "take i xs" "xs ! i" "drop (Suc i) xs"]) (use assms(4) in \<open>simp_all add: Cons_nth_drop_Suc\<close>)
  have "rep m0 m P e ([] @ B @ y # C)" "length [] + length B + length C < length xs"
    using assms(1) xs by simp_all
  from swap_around [OF this(1) assms(2) this(2) assms(3), of 0 i] xs(2)
  obtain L' where "rep m0 (swap (of_nat e) st m (ptr P e 0) (ptr P e i)) P e ([] @ y # L' @ C)" "mset L' = mset B"
    by (metis add_0 list.size(3))
  then show ?thesis
    using xs by (intro exI [of _ "y # L' @ C"]) simp
qed

text \<open>The first \<open>r\<close> and the last \<open>r\<close> of two runs exchanged, for the length \<open>r\<close> of the shorter one, exchange the runs.\<close>

lemma swap_ends:
  "\<exists>X Y Z A' B'. A @ B = X @ Y @ Z \<and> length X = min (length A) (length B) \<and> length Z = length X
    \<and> Z @ Y @ X = B' @ A' \<and> mset A' = mset A \<and> mset B' = mset B"
proof (cases "length A \<le> length B")
  case True
  let ?k = "length B - length A"
  have "mset (drop ?k B @ take ?k B) = mset B"
    by (metis append_take_drop_id mset_append union_commute)
  then show ?thesis
    using True
    by (intro exI [of _ A] exI [of _ "take ?k B"] exI [of _ "drop ?k B"] exI [of _ A] exI [of _ "drop ?k B @ take ?k B"])
      simp
next
  case False
  let ?k = "length B"
  have "mset (drop ?k A @ take ?k A) = mset A"
    by (metis append_take_drop_id mset_append union_commute)
  then show ?thesis
    using False
    by (intro exI [of _ "take ?k A"] exI [of _ "drop ?k A"] exI [of _ B] exI [of _ "drop ?k A @ take ?k A"] exI [of _ B])
      simp
qed

lemma rep_sub:
  assumes "rep m0 m P e (A @ B @ C)" "rep m m' (P + length A * e) e B'" "length B' = length B" "fits P e (length (A @ B @ C))"
  shows "rep m0 m' P e (A @ B' @ C)"
proof -
  let ?I = "P + length A * e"
  have fr: "frame m m' ?I (?I + length B * e)"
    using assms(2,3) by (simp add: rep_def)
  have h: "holds m P e A" "holds m (?I + length B * e) e C"
    using assms(1) by (simp_all add: rep_def holds_append)
  have "holds m' P e A" "holds m' (?I + length B * e) e C"
    using assms(4) by (intro holds_frame [OF fr h(1)] holds_frame [OF fr h(2)]; simp add: fits_def algebra_simps)+
  moreover have "frame m0 m' P (P + length (A @ B' @ C) * e)"
    using assms(1,3) by (intro frame_trans [OF _ fr]) (auto simp: rep_def algebra_simps)
  ultimately show ?thesis
    using assms(2,3) by (simp add: rep_def holds_append)
qed

lemma exchange_rep:
  assumes "rep m0 m P e (A @ B1 @ B2 @ C)" "fits P e (length (A @ B1 @ B2 @ C))" "swaptype_ok st e"
    and "k = min (length B1) (length B2)" "i = length A" "j = length A + length B1 + length B2 - k"
  shows "\<exists>B1' B2'. rep m0 (vecswap st m (ptr P e i) (ptr P e j) (of_nat (k * e))) P e (A @ B2' @ B1' @ C)
    \<and> mset B1' = mset B1 \<and> mset B2' = mset B2"
proof -
  obtain X Y Z B1' B2' where s: "B1 @ B2 = X @ Y @ Z" "length X = k" "length Z = length X" "Z @ Y @ X = B2' @ B1'"
    "mset B1' = mset B1" "mset B2' = mset B2"
    using swap_ends [of B1 B2] assms(4) by blast
  have len: "length B1 + length B2 = length X + length Y + length Z"
    using arg_cong [OF s(1), of length] by simp
  have "A @ B1 @ B2 @ C = A @ X @ Y @ Z @ C"
    using arg_cong [OF s(1), of "\<lambda>zs. A @ zs @ C"] by simp
  then have "rep m0 m P e (A @ X @ Y @ Z @ C)" "fits P e (length (A @ X @ Y @ Z @ C))"
    using assms(1,2) by (simp_all only:)
  moreover have "j = length A + length X + length Y"
    using assms(6) s(2,3) len by simp
  ultimately have "rep m0 (vecswap st m (ptr P e i) (ptr P e j) (of_nat (k * e))) P e (A @ Z @ Y @ X @ C)"
    using vecswap_rep [OF _ s(3)] assms(3,5) s(2) by blast
  moreover have "A @ Z @ Y @ X @ C = A @ B2' @ B1' @ C"
    using arg_cong [OF s(4), of "\<lambda>zs. A @ zs @ C"] by simp
  ultimately show ?thesis
    using s(5,6) by auto
qed

lemma min_bytes:
  assumes "x * e < 2 ^ 32" "y * e < 2 ^ 32" "0 < e"
  shows "(if (of_nat (x * e) :: u32) < of_nat (y * e) then of_nat (x * e) else of_nat (y * e) :: u32) = of_nat (min x y * e)"
  using of_nat_less32 [OF assms(1,2)] assms(3) by (auto simp: min_def simp del: of_nat_mult)

lemma sint_small: "k < 2 ^ 31 \<Longrightarrow> sint (of_nat k :: u32) = int k"
  by (simp add: signed_of_nat signed_take_bit_int_eq_self)

lemma min_bytes_signed:
  assumes "x * e < 2 ^ 31" "y * e < 2 ^ 31" "0 < e"
  shows "(if sint (of_nat (x * e) :: u32) < sint (of_nat (y * e) :: u32) then of_nat (x * e) else of_nat (y * e) :: u32)
    = of_nat (min x y * e)"
  unfolding sint_small [OF assms(1)] sint_small [OF assms(2)] using assms(3) by (auto simp: min_def simp del: of_nat_mult)

definition qsort_ok :: "compar \<Rightarrow> nat \<Rightarrow> bytes list \<Rightarrow> bool" where
  "qsort_ok cmp e xs \<longleftrightarrow> (\<forall>m P. holds m P e xs \<longrightarrow> fits P e (length xs) \<longrightarrow> length xs * e < 2 ^ 31 \<longrightarrow>
     (\<exists>m'. qsort cmp (of_nat e) m (of_nat P) (of_nat (length xs)) = Some m' \<and> sorts cmp m P e xs m'))"

lemma rec_call:
  assumes ok: "2 \<le> length B \<Longrightarrow> qsort_ok cmp e B" and rep: "rep m0 m P e (A @ B @ C)"
    and n: "length (A @ B @ C) = n" and fitsn: "fits P e n" and smalln: "n * e < 2 ^ 31"
    and r: "r = of_nat (length B * e)" and a: "i = length A"
  shows "\<exists>m' B'. (if of_nat e < r then qsort cmp (of_nat e) m (ptr P e i) (r div of_nat e) else Some m) = Some m'
    \<and> rep m0 m' P e (A @ B' @ C) \<and> sorted_wrt (\<lambda>x y. cmp x y \<le> 0) B' \<and> mset B' = mset B"
proof -
  note fits = fitsn [folded n] and small = smalln [folded n]
  have bounds: "e < 2 ^ 32" "length B * e < 2 ^ 31" "0 < e"
    using fits small by (simp_all add: fits_def algebra_simps)
  then have lt: "of_nat e < r \<longleftrightarrow> 2 \<le> length B"
    unfolding r by (subst of_nat_less32) auto
  show ?thesis
  proof (cases "2 \<le> length B")
    case True
    have "holds m (P + length A * e) e B" "fits (P + length A * e) e (length B)"
      using rep fits by (simp_all add: rep_def holds_append fits_def algebra_simps)
    then obtain m' where m': "qsort cmp (of_nat e) m (of_nat (P + length A * e)) (of_nat (length B)) = Some m'"
      "sorts cmp m (P + length A * e) e B m'"
      using ok [OF True] bounds(2) unfolding qsort_ok_def by blast
    then obtain B' where B': "rep m m' (P + length A * e) e B'" "sorted_wrt (\<lambda>x y. cmp x y \<le> 0) B'" "mset B' = mset B"
      unfolding sorts_def by blast
    have "rep m0 m' P e (A @ B' @ C)"
      using rep_sub [OF rep B'(1) _ fits] B'(3) by (metis size_mset)
    moreover have "r div of_nat e = of_nat (length B)"
      unfolding r using bounds by (subst of_nat_div32) auto
    ultimately show ?thesis
      using m'(1) B' True lt by (auto simp: a ptr_def)
  next
    case False
    then have "sorted_wrt (\<lambda>x y. cmp x y \<le> 0) B"
      by (cases B; cases "tl B") auto
    then show ?thesis
      using False lt rep by auto
  qed
qed

lemma sorts_mset: "sorts cmp m0 P e xs m' \<Longrightarrow> mset ys = mset xs \<Longrightarrow> sorts cmp m0 P e ys m'"
  by (simp add: sorts_def)

text \<open>What happens after the partition: the pointers, the exchanges, and the recursive calls.\<close>

lemma partition_pointers:
  assumes fits: "fits P e n" and n: "n = 1 + lE + lL + lG + lF" and small: "n * e < 2 ^ 31"
    and a: "a = ptr P e 0" and pa: "pa = ptr P e (1 + lE)" and pb: "pb = ptr P e (1 + lE + lL)"
    and pc: "pc = ptr P e (lE + lL)" and pd: "pd = ptr P e (lE + lL + lG)" and pn: "pn = ptr P e n"
  shows "pb - pa = of_nat (lL * e)" "pd - pc = of_nat (lG * e)"
    "(if sint (pa - a) < sint (pb - pa) then pa - a else pb - pa) = of_nat (min (1 + lE) lL * e)"
    "(if pd - pc < pn - pd - of_nat e then pd - pc else pn - pd - of_nat e) = of_nat (min lG lF * e)"
    "pb - of_nat (min (1 + lE) lL * e) = ptr P e (1 + lE + lL - min (1 + lE) lL)"
    "pn - of_nat (min lG lF * e) = ptr P e (n - min lG lF)" "pn - (pd - pc) = ptr P e (n - lG)"
proof -
  have e: "0 < e"
    using fits by (simp add: fits_def)
  have small': "k \<le> n \<Longrightarrow> k * e < 2 ^ 31" for k
    using small mult_le_mono1 [of k n e] by linarith
  then have small32: "k \<le> n \<Longrightarrow> k * e < 2 ^ 32" for k
    by (rule less_trans) simp_all
  have d1: "pa - a = of_nat ((1 + lE) * e)"
    unfolding pa a by (simp add: ptr_diff del: of_nat_mult)
  show d: "pb - pa = of_nat (lL * e)" "pd - pc = of_nat (lG * e)"
    unfolding pa pb pc pd by (simp_all add: ptr_diff del: of_nat_mult)
  have d4: "pn - pd - of_nat e = of_nat (lF * e)"
    unfolding pn pd n by (subst ptr_diff) (simp_all add: algebra_simps)
  show "(if sint (pa - a) < sint (pb - pa) then pa - a else pb - pa) = of_nat (min (1 + lE) lL * e)"
    unfolding d1 d using min_bytes_signed [OF small' small' e, of "1 + lE" lL] n by linarith
  show "(if pd - pc < pn - pd - of_nat e then pd - pc else pn - pd - of_nat e) = of_nat (min lG lF * e)"
    unfolding d d4 using min_bytes [OF small32 small32 e, of lG lF] n by linarith
  show "pb - of_nat (min (1 + lE) lL * e) = ptr P e (1 + lE + lL - min (1 + lE) lL)"
    "pn - of_nat (min lG lF * e) = ptr P e (n - min lG lF)" "pn - (pd - pc) = ptr P e (n - lG)"
    unfolding pb pn d by (rule ptr_back; simp add: n)+
qed

lemma exchange_both:
  assumes rep: "rep m0 m P e (v # E @ L @ G @ F)" and fits: "fits P e n" and st: "swaptype_ok st e"
    and n: "n = 1 + length E + length L + length G + length F"
    and k: "k = min (1 + length E) (length L)" and l: "l = min (length G) (length F)"
    and m1: "m1 = vecswap st m (ptr P e 0) (ptr P e (1 + length E + length L - k)) (of_nat (k * e))"
    and m2: "m2 = vecswap st m1 (ptr P e (1 + length E + length L)) (ptr P e (n - l)) (of_nat (l * e))"
  shows "\<exists>E' L' G' F'. rep m0 m2 P e (L' @ E' @ F' @ G') \<and> mset E' = mset (v # E) \<and> mset L' = mset L
    \<and> mset G' = mset G \<and> mset F' = mset F"
proof -
  have "rep m0 m P e ([] @ (v # E) @ L @ G @ F)" "fits P e (length ([] @ (v # E) @ L @ G @ F))"
    using rep fits n by (simp_all add: add.assoc)
  from exchange_rep [OF this st refl, of 0]
  obtain E' L' where 1: "rep m0 m1 P e (L' @ E' @ G @ F)" "mset E' = mset (v # E)" "mset L' = mset L"
    unfolding m1 k by auto
  have len: "length E' = 1 + length E" "length L' = length L"
    using arg_cong [OF 1(2), of size] arg_cong [OF 1(3), of size] by simp_all
  have "rep m0 m1 P e ((L' @ E') @ G @ F @ [])" "fits P e (length ((L' @ E') @ G @ F @ []))"
    "1 + length E + length L = length (L' @ E')" "n - l = length (L' @ E') + length G + length F - l"
    using 1(1) fits n len by (simp_all add: add_ac)
  from exchange_rep [OF this(1,2) st l this(3,4)]
  show ?thesis
    unfolding m2 using 1(2,3) by auto
qed

lemma qsort_finish:
  assumes ord: "compar_order cmp" and rep: "rep m0 m P e (v # E @ L @ G @ F)" and fits: "fits P e n"
    and n: "n = 1 + length E + length L + length G + length F" and small: "n * e < 2 ^ 31" and st: "swaptype_ok st e"
    and low: "low cmp v E L" and high: "high cmp v G F"
    and ok: "\<And>ys. length ys < n \<Longrightarrow> 2 \<le> length ys \<Longrightarrow> qsort_ok cmp e ys"
    and pa: "pa = ptr P e (1 + length E)" and pb: "pb = ptr P e (1 + length E + length L)"
    and pc: "pc = ptr P e (length E + length L)" and pd: "pd = ptr P e (length E + length L + length G)"
    and a: "a = ptr P e 0" and pn: "pn = ptr P e n"
  shows "\<exists>m'. (do {
      let r = (if sint (pa - a) < sint (pb - pa) then pa - a else pb - pa);
      let m = vecswap st m a (pb - r) r;
      let r = (if pd - pc < pn - pd - of_nat e then pd - pc else pn - pd - of_nat e);
      let m = vecswap st m pb (pn - r) r;
      m \<leftarrow> (if pb - pa > of_nat e then qsort cmp (of_nat e) m a ((pb - pa) div of_nat e) else Some m);
      let r = pd - pc;
      if r > of_nat e then qsort cmp (of_nat e) m (pn - r) (r div of_nat e) else Some m
    }) = Some m' \<and> sorts cmp m0 P e (v # E @ L @ G @ F) m'"
proof -
  note ptrs = partition_pointers [OF fits n small a pa pb pc pd pn]
  let ?k = "min (1 + length E) (length L)" and ?l = "min (length G) (length F)"
  define m1 where "m1 = vecswap st m a (ptr P e (1 + length E + length L - ?k)) (of_nat (?k * e))"
  define m2 where "m2 = vecswap st m1 pb (ptr P e (n - ?l)) (of_nat (?l * e))"
  obtain E' L' G' F' where m2: "rep m0 m2 P e (L' @ E' @ F' @ G')" "mset E' = mset (v # E)" "mset L' = mset L"
    "mset G' = mset G" "mset F' = mset F"
    using exchange_both [OF rep fits st n refl refl m1_def [unfolded a] m2_def [unfolded pb]] by blast
  have len: "length E' = 1 + length E" "length L' = length L" "length G' = length G" "length F' = length F"
    using m2(2-5) [THEN arg_cong, of size] by simp_all
  have m2': "rep m0 m2 P e ([] @ L' @ E' @ F' @ G')" "length ([] @ L' @ E' @ F' @ G') = n" "pb - pa = of_nat (length L' * e)"
    "0 = length []" "length L' < n"
    using m2(1) ptrs(1) len n by simp_all
  obtain m3 L'' where m3: "(if of_nat e < pb - pa then qsort cmp (of_nat e) m2 a ((pb - pa) div of_nat e) else Some m2) = Some m3"
    "rep m0 m3 P e (L'' @ E' @ F' @ G')" "sorted_wrt (\<lambda>x y. cmp x y \<le> 0) L''" "mset L'' = mset L'"
    using rec_call [OF ok m2'(1) m2'(2) fits small m2'(3) m2'(4)] m2'(5) a by auto
  have m3': "rep m0 m3 P e ((L'' @ E' @ F') @ G' @ [])" "length ((L'' @ E' @ F') @ G' @ []) = n" "pd - pc = of_nat (length G' * e)"
    "n - length G = length (L'' @ E' @ F')" "length G' < n"
    using m3(2) arg_cong [OF m3(4), of size] ptrs(2) len n by simp_all
  obtain m4 G'' where m4: "(if of_nat e < pd - pc then qsort cmp (of_nat e) m3 (ptr P e (n - length G)) ((pd - pc) div of_nat e) else Some m3) = Some m4"
    "rep m0 m4 P e (L'' @ E' @ F' @ G'')" "sorted_wrt (\<lambda>x y. cmp x y \<le> 0) G''" "mset G'' = mset G'"
    using rec_call [OF ok m3'(1) m3'(2) fits small m3'(3) m3'(4)] m3'(5) by auto
  have "sorted_wrt (\<lambda>x y. cmp x y \<le> 0) (L'' @ (E' @ F') @ G'')"
  proof (rule compar_order.sorted_partition [OF ord m3(3) m4(3), of v])
    have "set L'' = set L" "set E' = set (v # E)" "set F' = set F" "set G'' = set G"
      using m2 m3 m4 by (metis set_mset_mset)+
    then show "\<forall>x \<in> set L''. cmp x v < 0" "\<forall>x \<in> set (E' @ F'). cmp x v = 0" "\<forall>x \<in> set G''. 0 < cmp x v"
      using low high compar_order.cmp_refl [OF ord] by (auto simp: low_def high_def)
  qed
  then have "sorts cmp m0 P e (v # E @ L @ G @ F) m4"
    unfolding sorts_def using m2 m3 m4 by (intro exI [of _ "L'' @ E' @ F' @ G''"]) simp
  then show ?thesis
    unfolding Let_def ptrs(3-7) m1_def [symmetric] m2_def [symmetric] m3(1) using m4(1) by (auto split: if_splits)
qed

lemma qsort_rep:
  assumes "compar_order cmp" "holds m P e xs" "fits P e (length xs)" "length xs * e < 2 ^ 31" "xs = [] \<longrightarrow> fits P e 1"
  shows "\<exists>m'. qsort cmp (of_nat e) m (of_nat P) (of_nat (length xs)) = Some m' \<and> sorts cmp m P e xs m'"
  using assms(2-)
proof (induction "length xs" arbitrary: m P xs rule: less_induct)
  case less
  define st where "st = SWAPINIT (of_nat P) (of_nat e)"
  let ?n = "length xs"
  have st: "swaptype_ok st e"
    unfolding st_def using less(3) by (intro SWAPINIT_ok) (simp add: fits_def)
  have rep: "rep m m P e xs"
    using less(2) by (simp add: rep_def)
  have lt7: "(of_nat ?n :: u32) < 7 \<longleftrightarrow> ?n < 7"
    using of_nat_less32 [of ?n 7] fits_length [OF less(3)] by simp
  show ?case
  proof (cases "?n < 7")
    case True
    then show ?thesis
      using insertion_sort_rep [OF assms(1) rep less(3) less(5) st] lt7 by (simp add: qsort.simps [of cmp _ m] st_def [symmetric])
  next
    case False
    obtain i where i: "i < ?n" "pivot cmp (of_nat e) m (of_nat P) (of_nat ?n) = ptr P e i"
      using pivot_ptr [OF less(3)] False by (meson not_less)
    let ?m = "swap (of_nat e) st m (ptr P e 0) (ptr P e i)"
    obtain v M where ys: "rep m ?m P e (v # M)" "mset (v # M) = mset xs"
      using swap_any [OF rep less(3) st i(1)] i(1) by (metis length_0_conv list.exhaust not_less0 size_mset)
    have n: "?n = Suc (length M)"
      using arg_cong [OF ys(2), of size] by simp
    obtain m1 E L G F c where part: "partition_loop cmp (of_nat e) st (ptr P e 0) ?m (ptr P e 1) (ptr P e 1)
        (ptr P e (length M)) (ptr P e (length M)) 0
      = Some (m1, ptr P e (1 + length E), ptr P e (1 + length E + length L), ptr P e (length E + length L),
          ptr P e (length E + length L + length G), c)"
      "rep m m1 P e (v # E @ L @ G @ F)" "low cmp v E L" "high cmp v G F" "mset (E @ L @ G @ F) = mset M"
      using partition_rep [of m ?m P e v "[]" "[]" M "[]" "[]" ?n st cmp 0] ys(1) less(3) st n
      by (auto simp: low_def high_def)
    have ms: "mset xs = mset (v # E @ L @ G @ F)"
      using ys(2) part(5) by simp
    have len: "?n = 1 + length E + length L + length G + length F" "?n = length (v # E @ L @ G @ F)"
      using arg_cong [OF ms, of size] by simp_all
    have p: "of_nat P + of_nat e = ptr P e 1" "of_nat P + (of_nat ?n - 1) * of_nat e = ptr P e (length M)"
      "of_nat P + of_nat ?n * of_nat e = ptr P e ?n" "of_nat P = ptr P e 0"
      using n by (simp_all add: ptr_def algebra_simps)
    have ins: "\<exists>m'. insertion_sort cmp (of_nat e) st m1 (of_nat P) (of_nat ?n) = Some m' \<and> sorts cmp m P e xs m'"
      using insertion_sort_rep [OF assms(1) part(2) _ _ st] less(3) sorts_mset [OF _ ms] len(2) by auto
    have "qsort_ok cmp e ys" if "length ys < ?n" "2 \<le> length ys" for ys
      unfolding qsort_ok_def using less(1) [OF that(1)] that(2) by fastforce
    from qsort_finish [OF assms(1) part(2) less(3) len(1) less(4) st part(3,4) this refl refl refl refl refl refl]
    have fin: "c \<noteq> 0 \<Longrightarrow> ?thesis"
      unfolding qsort.simps [of cmp _ m] Let_def st_def [symmetric] p(1-3) i(2)
      unfolding p(4) part(1) using False lt7 sorts_mset [OF _ ms] by (auto simp: Let_def)
    have "c = 0 \<Longrightarrow> ?thesis"
      using ins unfolding qsort.simps [of cmp _ m] Let_def st_def [symmetric] p(1-3) i(2)
      unfolding p(4) part(1) using False lt7 by simp
    then show ?thesis
      using fin by blast
  qed
qed

section \<open>Comparison of bytes\<close>

text \<open>What \<^verbatim>\<open>memcmp\<close> computes on the two elements; on elements of one length it is a comparison function.\<close>

fun bytes_diff :: "bytes \<Rightarrow> bytes \<Rightarrow> int" where
  "bytes_diff [] [] = 0"
| "bytes_diff [] (y # ys) = - 1"
| "bytes_diff (x # xs) [] = 1"
| "bytes_diff (x # xs) (y # ys) = (let r = uint x - uint y in if r \<noteq> 0 then r else bytes_diff xs ys)"

lemma elem_Suc: "elem m p (Suc n) = m p # elem m (p + 1) n"
  by (simp add: elem_def upt_conv_Cons add.assoc comp_def del: upt_Suc flip: map_Suc_upt)

lemma memcmp_bytes_diff: "memcmp m p q n = bytes_diff (elem m p n) (elem m q n)"
  by (induction n arbitrary: p q) (simp_all add: elem_Suc elem_def [of _ _ 0] Let_def)

lemma bytes_diff_flip: "0 < bytes_diff x y \<longleftrightarrow> bytes_diff y x < 0"
  by (induction x y rule: bytes_diff.induct) (auto simp: Let_def)

lemma bytes_diff_trans: "bytes_diff x y \<le> 0 \<Longrightarrow> bytes_diff y z \<le> 0 \<Longrightarrow> bytes_diff x z \<le> 0"
proof (induction x y arbitrary: z rule: bytes_diff.induct)
  case (4 x xs y ys)
  then show ?case
    by (cases z) (auto simp: Let_def split: if_splits)
next
  case (1)
  then show ?case
    by (cases z) auto
next
  case (2 y ys)
  then show ?case
    by (cases z) auto
qed simp

interpretation memcmp_order: compar_order bytes_diff
  by unfold_locales (fact bytes_diff_flip, fact bytes_diff_trans)

section \<open>Searching\<close>

text \<open>The signs of the comparisons of a key with the elements of a sorted array: first positive, then zero, then negative.\<close>

definition descends :: "(bytes \<Rightarrow> int) \<Rightarrow> bytes list \<Rightarrow> bool" where
  "descends k xs \<longleftrightarrow> (\<forall>i j. i \<le> j \<longrightarrow> j < length xs \<longrightarrow> (k (xs ! i) < 0 \<longrightarrow> k (xs ! j) < 0) \<and> (0 < k (xs ! j) \<longrightarrow> 0 < k (xs ! i)))"

lemma sorted_descends:
  assumes "compar_order cmp" "sorted_wrt (\<lambda>x y. cmp x y \<le> 0) xs"
  shows "descends (cmp key) xs"
proof -
  have le: "cmp (xs ! i) (xs ! j) \<le> 0" if "i \<le> j" "j < length xs" for i j
    using that assms(2) compar_order.cmp_refl [OF assms(1)] by (cases "i = j") (auto simp: sorted_wrt_iff_nth_less)
  have "(cmp key x < 0 \<longrightarrow> cmp key y < 0) \<and> (0 < cmp key y \<longrightarrow> 0 < cmp key x)" if "cmp x y \<le> 0" for x y
    using that compar_order.cmp_trans [OF assms(1), of x y key] compar_order.cmp_trans [OF assms(1), of key x y]
      compar_order.cmp_le_flip [OF assms(1), of y key] compar_order.cmp_le_flip [OF assms(1), of x key]
    by linarith
  then show ?thesis
    using le by (auto simp: descends_def)
qed

text \<open>What a search returns.\<close>

definition found :: "(bytes \<Rightarrow> int) \<Rightarrow> addr \<Rightarrow> u32 \<Rightarrow> bytes list \<Rightarrow> addr \<Rightarrow> bool" where
  "found k base width xs p \<longleftrightarrow>
     (if \<exists>x \<in> set xs. k x = 0 then \<exists>i < length xs. p = base + of_nat i * width \<and> k (xs ! i) = 0 else p = 0)"

lemma found_none: "(\<And>i. i < length xs \<Longrightarrow> k (xs ! i) \<noteq> 0) \<Longrightarrow> found k base width xs 0"
  by (auto simp: found_def in_set_conv_nth)

lemma bsearch_loop_found:
  assumes xs: "xs = arr m (unat base) (unat width) n" and n: "n < 2 ^ 31" and desc: "descends k xs"
  shows "lo \<le> hi \<Longrightarrow> hi \<le> n \<Longrightarrow> \<forall>i < lo. 0 < k (xs ! i) \<Longrightarrow> \<forall>i. hi \<le> i \<and> i < n \<longrightarrow> k (xs ! i) < 0 \<Longrightarrow>
    \<exists>p. bsearch_loop k m base width (of_nat lo) (of_nat hi) (of_nat ((hi + lo) div 2)) = Some p \<and> found k base width xs p"
proof (induction "hi - lo" arbitrary: lo hi rule: less_induct)
  case less
  let ?cur = "(hi + lo) div 2"
  have len: "length xs = n"
    using xs by simp
  have cur: "(of_nat ?cur :: u32) < of_nat hi \<longleftrightarrow> lo < hi"
    using less(2,3) n by (subst of_nat_less32) auto
  have mid: "(of_nat h + of_nat l :: u32) div 2 = of_nat ((h + l) div 2)" if "h \<le> n" "l \<le> n" for h l
    using of_nat_div32 [of "h + l" 2] that n by simp
  show ?case
  proof (cases "lo < hi")
    case False
    have "k (xs ! i) \<noteq> 0" if "i < length xs" for i
      using False less(4) less(5) [rule_format, of i] len that by (cases "i < lo") auto
    then have "found k base width xs 0"
      by (rule found_none)
    then show ?thesis
      using False cur by (simp add: bsearch_loop.simps)
  next
    case True
    let ?c = "k (xs ! ?cur)"
    have c: "?cur < n" "?cur < hi" "lo \<le> ?cur"
      using True less(3) by auto
    then have el: "k (elem m (base + of_nat ?cur * width) (unat width)) = ?c"
      using xs by (simp add: arr_def)
    have d: "(k (xs ! i) < 0 \<longrightarrow> k (xs ! j) < 0) \<and> (0 < k (xs ! j) \<longrightarrow> 0 < k (xs ! i))" if "i \<le> j" "j < n" for i j
      using desc that len by (auto simp: descends_def)
    consider "?c = 0" | "?c < 0" | "0 < ?c"
      by linarith
    then show ?thesis
    proof cases
      case 1
      then have "\<exists>x \<in> set xs. k x = 0"
        using c(1) len nth_mem [of ?cur xs] by blast
      then have "found k base width xs (base + of_nat ?cur * width)"
        using 1 c(1) len by (auto simp: found_def)
      then show ?thesis
        using 1 el True cur by (simp add: bsearch_loop.simps Let_def)
    next
      case 2
      then have neg: "\<forall>i. ?cur \<le> i \<and> i < n \<longrightarrow> k (xs ! i) < 0"
        using d by blast
      have tmp: "of_nat ?cur = (of_nat ((?cur + lo) div 2) :: u32) \<longleftrightarrow> lo = ?cur"
        using c n by (subst of_nat_eq32) auto
      have step: "bsearch_loop k m base width (of_nat lo) (of_nat hi) (of_nat ?cur)
        = (if lo = ?cur then Some 0 else bsearch_loop k m base width (of_nat lo) (of_nat ?cur) (of_nat ((?cur + lo) div 2)))"
        using 2 el True cur tmp mid [of ?cur lo] c less(2,3)
        by (subst bsearch_loop.simps) (simp add: Let_def)
      show ?thesis
      proof (cases "lo = ?cur")
        case True
        have "k (xs ! i) \<noteq> 0" if "i < length xs" for i
          using True less(4) neg [rule_format, of i] len that by (cases "i < lo") auto
        then have "found k base width xs 0"
          by (rule found_none)
        then show ?thesis
          using step True by simp
      next
        case False
        then show ?thesis
          using step less(1) [of ?cur lo] less(4) neg c by auto
      qed
    next
      case 3
      then have pos: "\<forall>i < ?cur + 1. 0 < k (xs ! i)"
        using d c(1) by (metis Suc_eq_plus1 less_Suc_eq_le)
      have tmp: "of_nat ?cur \<noteq> (of_nat ((hi + (?cur + 1)) div 2) :: u32)"
        using c n less(3) by (subst of_nat_eq32) auto
      have "bsearch_loop k m base width (of_nat lo) (of_nat hi) (of_nat ?cur)
        = bsearch_loop k m base width (of_nat (?cur + 1)) (of_nat hi) (of_nat ((hi + (?cur + 1)) div 2))"
        using 3 el True cur tmp mid [of hi "?cur + 1"] c less(2,3)
        by (subst bsearch_loop.simps) (simp add: Let_def add_ac)
      then show ?thesis
        using less(1) [of hi "?cur + 1"] less(3,5) pos c by auto
    qed
  qed
qed

lemma bsearch_found:
  assumes "unat nel < 2 ^ 31" "descends k (arr m (unat base) (unat width) (unat nel))"
  shows "\<exists>p. bsearch k m base nel width = Some p \<and> found k base width (arr m (unat base) (unat width) (unat nel)) p"
proof -
  have "nel div 2 = of_nat ((unat nel + 0) div 2)"
    using of_nat_div32 [of "unat nel" 2] assms(1) by simp
  then show ?thesis
    using bsearch_loop_found [OF refl assms, of 0 "unat nel"] by (simp add: bsearch_def)
qed

lemma qsort_sorts:
  assumes "compar_order cmp" "0 < es" "unat a + max 1 (unat n) * unat es < 2 ^ 32" "unat n * unat es < 2 ^ 31"
  shows "\<exists>m'. qsort cmp es m a n = Some m'
    \<and> mset (arr m' (unat a) (unat es) (unat n)) = mset (arr m (unat a) (unat es) (unat n))
    \<and> sorted_wrt (\<lambda>x y. cmp x y \<le> 0) (arr m' (unat a) (unat es) (unat n))
    \<and> (\<forall>x. unat x < unat a \<or> unat a + unat n * unat es \<le> unat x \<longrightarrow> m' x = m x)"
proof -
  let ?xs = "arr m (unat a) (unat es) (unat n)"
  have le: "fits (unat a) (unat es) k" if "k \<le> max 1 (unat n)" for k
    unfolding fits_def
  proof (intro conjI)
    show "unat a + k * unat es < 2 ^ 32"
      using assms(3) mult_le_mono1 [OF that, of "unat es"] by linarith
  qed (use assms(2) u32_unat_bound [of es] in \<open>simp_all add: word_gt_0 unat_gt_0\<close>)
  have "\<exists>m'. qsort cmp (of_nat (unat es)) m (of_nat (unat a)) (of_nat (length ?xs)) = Some m' \<and> sorts cmp m (unat a) (unat es) ?xs m'"
    using assms(4) le by (intro qsort_rep [OF assms(1)]) (auto simp: holds_def)
  then obtain m' ys where "qsort cmp es m a n = Some m'" "rep m m' (unat a) (unat es) ys"
    "sorted_wrt (\<lambda>x y. cmp x y \<le> 0) ys" "mset ys = mset ?xs"
    by (auto simp: sorts_def)
  moreover from this have "length ys = unat n"
    by (metis length_arr size_mset)
  ultimately show ?thesis
    by (intro exI [of _ m']) (auto simp: rep_def holds_def frame_def)
qed

section \<open>Properties\<close>

text \<open> C11: \<^verbatim>\<open>qsort\<close> always returns; the array then holds the same elements, in order, and no other byte of the memory has changed.
  The comparison function orders the elements, and the array neither wraps around nor has more bytes than a difference of
  pointers can count.\<close>

theorem qsort_correct:
  assumes "compar_order cmp" "0 < es" "unat a + max 1 (unat n) * unat es < 2 ^ 32" "unat n * unat es < 2 ^ 31"
  shows "\<exists>m'. qsort cmp es m a n = Some m'
    \<and> mset (arr m' (unat a) (unat es) (unat n)) = mset (arr m (unat a) (unat es) (unat n))
    \<and> sorted_wrt (\<lambda>x y. cmp x y \<le> 0) (arr m' (unat a) (unat es) (unat n))
    \<and> (\<forall>x. unat x < unat a \<or> unat a + unat n * unat es \<le> unat x \<longrightarrow> m' x = m x)"
  by (rule qsort_sorts [OF assms])

theorem qsort_correct_witness:
  "\<exists>m'. qsort bytes_diff 1 ((\<lambda>_. 0)(0x100 := 7, 0x101 := 9, 0x102 := 5)) 0x100 3 = Some m'
    \<and> mset (arr m' (unat (0x100 :: addr)) (unat (1 :: u32)) (unat (3 :: u32)))
      = mset (arr ((\<lambda>_. 0)(0x100 := 7, 0x101 := 9, 0x102 := 5)) (unat (0x100 :: addr)) (unat (1 :: u32)) (unat (3 :: u32)))
    \<and> sorted_wrt (\<lambda>x y. bytes_diff x y \<le> 0) (arr m' (unat (0x100 :: addr)) (unat (1 :: u32)) (unat (3 :: u32)))
    \<and> (\<forall>x. unat x < unat (0x100 :: addr) \<or> unat (0x100 :: addr) + unat (3 :: u32) * unat (1 :: u32) \<le> unat x
        \<longrightarrow> m' x = ((\<lambda>_. 0)(0x100 := 7, 0x101 := 9, 0x102 := 5)) x)"
  by (rule qsort_correct [OF memcmp_order.compar_order_axioms]) simp_all

text \<open> C23: after \<^verbatim>\<open>qsort\<close>, \<^verbatim>\<open>bsearch\<close> with the same comparison function returns for every key: a pointer to an element of
  the sorted array equal to the key when the array had such an element before it was sorted, and a null pointer otherwise.\<close>

theorem qsort_bsearch:
  assumes "compar_order cmp" "0 < es" "unat a + max 1 (unat n) * unat es < 2 ^ 32" "unat n * unat es < 2 ^ 31"
  shows "\<exists>m' p. qsort cmp es m a n = Some m' \<and> bsearch (cmp key) m' a n es = Some p
    \<and> (if \<exists>x \<in> set (arr m (unat a) (unat es) (unat n)). cmp key x = 0
       then \<exists>i < unat n. p = a + of_nat i * es \<and> cmp key (elem m' p (unat es)) = 0
       else p = 0)"
proof -
  let ?xs = "arr m (unat a) (unat es) (unat n)"
  obtain m' where m': "qsort cmp es m a n = Some m'" "mset (arr m' (unat a) (unat es) (unat n)) = mset ?xs"
    "sorted_wrt (\<lambda>x y. cmp x y \<le> 0) (arr m' (unat a) (unat es) (unat n))"
    using qsort_sorts [OF assms] by blast
  have "unat n * 1 \<le> unat n * unat es"
    using assms(2) by (intro mult_le_mono2) (simp add: Suc_le_eq word_gt_0 unat_gt_0)
  then have "unat n < 2 ^ 31"
    using assms(4) by linarith
  then obtain p where p: "bsearch (cmp key) m' a n es = Some p" "found (cmp key) a es (arr m' (unat a) (unat es) (unat n)) p"
    using bsearch_found sorted_descends [OF assms(1) m'(3)] by blast
  have "set (arr m' (unat a) (unat es) (unat n)) = set ?xs"
    using m'(2) by (metis set_mset_mset)
  moreover have "arr m' (unat a) (unat es) (unat n) ! i = elem m' (a + of_nat i * es) (unat es)" if "i < unat n" for i
    using that by (simp add: arr_def)
  ultimately show ?thesis
    using m'(1) p by (intro exI [of _ m'] exI [of _ p]) (auto simp: found_def split: if_splits)
qed

theorem qsort_bsearch_witness:
  "\<exists>m' p. qsort bytes_diff 1 ((\<lambda>_. 0)(0x100 := 7, 0x101 := 9, 0x102 := 5)) 0x100 3 = Some m'
    \<and> bsearch (bytes_diff [9]) m' 0x100 3 1 = Some p \<and> (\<exists>i < unat (3 :: u32). p = 0x100 + of_nat i * 1 \<and> bytes_diff [9] (elem m' p (unat (1 :: u32))) = 0)"
proof -
  let ?m = "(\<lambda>_. 0)(0x100 := 7, 0x101 := 9, 0x102 := 5) :: mem"
  have "[9] \<in> set (arr ?m (unat (0x100 :: addr)) (unat (1 :: u32)) (unat (3 :: u32)))"
    by (simp add: arr_def elem_def upt_rec)
  then have "\<exists>x \<in> set (arr ?m (unat (0x100 :: addr)) (unat (1 :: u32)) (unat (3 :: u32))). bytes_diff [9] x = 0"
    using memcmp_order.cmp_refl by blast
  then show ?thesis
    using qsort_bsearch [OF memcmp_order.compar_order_axioms, of 1 "0x100" 3 ?m "[9]"] by simp
qed

end
