(* ===== verification/Scheduler.thy ===== *)
theory Scheduler
  imports Mutek_Prelude "HOL-Library.Multiset" "HOL-Library.Monad_Syntax"
begin

text \<open>
  \<^verbatim>\<open>mutek/scheduler.c\<close> in the build with one run queue for all processors and inter-processor interrupts
  (\<^verbatim>\<open>CONFIG_MUTEK_SCHEDULER_MIGRATION\<close>, \<^verbatim>\<open>CONFIG_HEXO_IPI\<close>, \<^verbatim>\<open>CONFIG_ARCH_SMP\<close>) and without candidate functions
  (\<^verbatim>\<open>CONFIG_MUTEK_SCHEDULER_CANDIDATE_FCN\<close>).  A queue is the list of the contexts in
  it; what the pointer structure of \<^verbatim>\<open>sched_queue\<close> does to that list is the subject of \<^verbatim>\<open>Gpct_Dlist\<close>.  Each
  function holds the lock of the run queue from its first access to the queue to the context switch,
  so that it is one step here.  The lemmas show that every context is at one place at a time and that
  no processor sleeps over a runnable context without an interrupt on its way.
\<close>

section \<open>State\<close>

text \<open>
  \<open>cur\<close> has for each processor the context that runs, \<open>None\<close> for the idle context of the processor; \<open>wait\<close> has
  the wait queues of the kernel objects; \<open>ipi\<close> the processors to which an interrupt was posted and that
  have not polled the run queue since.
\<close>

record sched_state =
  root :: "nat list"
  idle_cpu :: "nat list"
  cur :: "nat option list"
  wait :: "nat list list"
  ipi :: "nat list"

section \<open>Operations\<close>

definition sched_candidate_noidle :: "nat list \<Rightarrow> nat option \<times> nat list" where
  "sched_candidate_noidle q = (case q of [] \<Rightarrow> (None, []) | t # q \<Rightarrow> (Some t, q))"

text \<open>The idle context of processor \<open>c\<close> goes on in its loop: it declares the processor idle and sleeps.\<close>

definition sched_idle_sleep :: "nat \<Rightarrow> sched_state \<Rightarrow> sched_state" where
  "sched_idle_sleep c s = s\<lparr>cur := (cur s)[c := None], idle_cpu := c # idle_cpu s\<rparr>"

text \<open>\<^verbatim>\<open>__sched_candidate\<close> and the switch to the context it gives.\<close>

definition sched_candidate_switch :: "nat \<Rightarrow> sched_state \<Rightarrow> sched_state" where
  "sched_candidate_switch c s =
     (case sched_candidate_noidle (root s) of
        (Some t, q) \<Rightarrow> s\<lparr>root := q, cur := (cur s)[c := Some t]\<rparr>
      | (None, q) \<Rightarrow> sched_idle_sleep c s)"

definition sched_context_push :: "nat \<Rightarrow> sched_state \<Rightarrow> sched_state" where
  "sched_context_push t s =
     (let s = s\<lparr>root := root s @ [t]\<rparr>
      in case idle_cpu s of
           [] \<Rightarrow> s
         | i # is \<Rightarrow> s\<lparr>idle_cpu := is, ipi := ipi s @ [i]\<rparr>)"

text \<open>
  One turn of the loop of the idle context on \<open>c\<close>, after an interrupt: still asleep when the processor is
  still in the idle list, otherwise the run queue is polled.
\<close>

definition sched_context_idle :: "nat \<Rightarrow> sched_state \<Rightarrow> sched_state" where
  "sched_context_idle c s =
     (if c \<in> set (idle_cpu s) then s
      else sched_candidate_switch c (s\<lparr>ipi := remove1 c (ipi s)\<rparr>))"

text \<open>The current context of a processor; the functions below are called by a context, not by the idle one.\<close>

definition sched_get_current :: "nat \<Rightarrow> sched_state \<Rightarrow> nat option" where
  "sched_get_current c s = (if c < length (cur s) then cur s ! c else None)"

definition sched_context_switch :: "nat \<Rightarrow> sched_state \<Rightarrow> sched_state option" where
  "sched_context_switch c s = do {
     t \<leftarrow> sched_get_current c s;
     case sched_candidate_noidle (root s) of
       (Some n, q) \<Rightarrow> Some (s\<lparr>root := q @ [t], cur := (cur s)[c := Some n]\<rparr>)
     | (None, q) \<Rightarrow> Some s
   }"

definition sched_context_exit :: "nat \<Rightarrow> sched_state \<Rightarrow> sched_state option" where
  "sched_context_exit c s = do { t \<leftarrow> sched_get_current c s; Some (sched_candidate_switch c s) }"

definition sched_context_start :: "nat \<Rightarrow> sched_state \<Rightarrow> sched_state" where
  "sched_context_start t s = sched_context_push t s"

definition queue_push :: "nat \<Rightarrow> nat \<Rightarrow> sched_state \<Rightarrow> sched_state" where
  "queue_push q t s = s\<lparr>wait := (wait s)[q := wait s ! q @ [t]]\<rparr>"

definition sched_wait_callback ::
    "(sched_state \<Rightarrow> sched_state) \<Rightarrow> nat \<Rightarrow> nat \<Rightarrow> sched_state \<Rightarrow> sched_state option" where
  "sched_wait_callback callback c q s = do {
     t \<leftarrow> sched_get_current c s;
     let s = queue_push q t s;
     let s = callback s;
     Some (sched_candidate_switch c s)
   }"

definition sched_wait_unlock :: "nat \<Rightarrow> nat \<Rightarrow> sched_state \<Rightarrow> sched_state option" where
  "sched_wait_unlock c q s = do {
     t \<leftarrow> sched_get_current c s;
     Some (sched_candidate_switch c (queue_push q t s))
   }"

definition sched_context_stop :: "nat \<Rightarrow> sched_state \<Rightarrow> sched_state option" where
  "sched_context_stop c s = do { t \<leftarrow> sched_get_current c s; Some (sched_candidate_switch c s) }"

definition sched_context_stop_unlock ::
    "(sched_state \<Rightarrow> sched_state) \<Rightarrow> nat \<Rightarrow> sched_state \<Rightarrow> sched_state option" where
  "sched_context_stop_unlock release c s = do {
     t \<leftarrow> sched_get_current c s;
     Some (sched_candidate_switch c (release s))
   }"

text \<open>The contexts that wait in queue \<open>q\<close>; there is none in a queue that does not exist.\<close>

definition waiting :: "nat \<Rightarrow> sched_state \<Rightarrow> nat list" where
  "waiting q s = (if q < length (wait s) then wait s ! q else [])"

definition sched_wake :: "nat \<Rightarrow> sched_state \<Rightarrow> nat option \<times> sched_state" where
  "sched_wake q s =
     (case waiting q s of
        t # rest \<Rightarrow> (Some t, sched_context_push t (s\<lparr>wait := (wait s)[q := rest]\<rparr>))
      | [] \<Rightarrow> (None, s))"

text \<open>The state after \<^verbatim>\<open>sched_global_init\<close>, with \<open>n\<close> processors that run their boot contexts and \<open>k\<close> wait queues.\<close>

definition sched_global_init :: "nat \<Rightarrow> nat \<Rightarrow> sched_state" where
  "sched_global_init n k =
     \<lparr>root = [], idle_cpu = [], cur = map Some [0..<n], wait = replicate k [], ipi = []\<rparr>"

section \<open>Invariant\<close>

definition running :: "nat option list \<Rightarrow> nat list" where
  "running cs = List.map_filter id cs"

definition contexts :: "sched_state \<Rightarrow> nat list" where
  "contexts s = root s @ concat (wait s) @ running (cur s)"

definition cpu_inv :: "sched_state \<Rightarrow> bool" where
  "cpu_inv s \<longleftrightarrow> distinct (idle_cpu s @ ipi s) \<and> set (idle_cpu s @ ipi s) \<subseteq> {..<length (cur s)}
     \<and> (\<forall>c < length (cur s). cur s ! c = None \<longleftrightarrow> c \<in> set (idle_cpu s @ ipi s))"

definition wake_inv :: "sched_state \<Rightarrow> bool" where
  "wake_inv s \<longleftrightarrow> (idle_cpu s \<noteq> [] \<longrightarrow> length (root s) \<le> length (ipi s))"

definition sched_inv :: "sched_state \<Rightarrow> bool" where
  "sched_inv s \<longleftrightarrow> distinct (contexts s) \<and> cpu_inv s \<and> wake_inv s"

text \<open>
  The steps of the system: a context calls a function of the scheduler, an idle processor handles an
  interrupt.  A context is started when it is at no place yet.
\<close>

inductive sched_step :: "sched_state \<Rightarrow> sched_state \<Rightarrow> bool" where
  switch: "sched_context_switch c s = Some s' \<Longrightarrow> sched_step s s'"
| exit: "sched_context_exit c s = Some s' \<Longrightarrow> sched_step s s'"
| stop: "sched_context_stop c s = Some s' \<Longrightarrow> sched_step s s'"
| wait: "q < length (wait s) \<Longrightarrow> sched_wait_unlock c q s = Some s' \<Longrightarrow> sched_step s s'"
| wake: "q < length (wait s) \<Longrightarrow> sched_wake q s = (r, s') \<Longrightarrow> sched_step s s'"
| start: "t \<notin> set (contexts s) \<Longrightarrow> sched_step s (sched_context_start t s)"
| idle: "c < length (cur s) \<Longrightarrow> cur s ! c = None \<Longrightarrow> sched_step s (sched_context_idle c s)"

text \<open>The steps of the rest of the system, seen from a kernel object with the wait queues \<open>Q\<close>.\<close>

inductive other_step :: "nat set \<Rightarrow> sched_state \<Rightarrow> sched_state \<Rightarrow> bool" for Q where
  switch: "sched_context_switch c s = Some s' \<Longrightarrow> other_step Q s s'"
| exit: "sched_context_exit c s = Some s' \<Longrightarrow> other_step Q s s'"
| stop: "sched_context_stop c s = Some s' \<Longrightarrow> other_step Q s s'"
| wait: "q < length (wait s) \<Longrightarrow> q \<notin> Q \<Longrightarrow> sched_wait_unlock c q s = Some s' \<Longrightarrow> other_step Q s s'"
| wake: "q < length (wait s) \<Longrightarrow> q \<notin> Q \<Longrightarrow> sched_wake q s = (r, s') \<Longrightarrow> other_step Q s s'"
| start: "t \<notin> set (contexts s) \<Longrightarrow> other_step Q s (sched_context_start t s)"
| idle: "c < length (cur s) \<Longrightarrow> cur s ! c = None \<Longrightarrow> other_step Q s (sched_context_idle c s)"

inductive sched_reach :: "sched_state \<Rightarrow> bool" where
  init: "sched_reach (sched_global_init n k)"
| step: "sched_reach s \<Longrightarrow> sched_step s s' \<Longrightarrow> sched_reach s'"

section \<open>Lemmas\<close>

lemmas sched_defs = sched_candidate_noidle_def sched_idle_sleep_def sched_candidate_switch_def
  sched_get_current_def queue_push_def

subsection \<open>Places of a context\<close>

definition opt_mset :: "nat option \<Rightarrow> nat multiset" where
  "opt_mset x = (case x of None \<Rightarrow> {#} | Some t \<Rightarrow> {#t#})"

lemma opt_mset_simps [simp]: "opt_mset None = {#}" "opt_mset (Some t) = {#t#}"
  by (simp_all add: opt_mset_def)

lemma running_simps [simp]: "running [] = []" "running (None # cs) = running cs" "running (Some t # cs) = t # running cs"
  by (simp_all add: running_def List.map_filter_simps)

lemma mset_running_update:
  "c < length cs \<Longrightarrow> mset (running (cs[c := x])) + opt_mset (cs ! c) = mset (running cs) + opt_mset x"
proof (induction cs arbitrary: c)
  case (Cons a cs)
  then show ?case
    by (cases c; cases a; cases x) auto
qed simp

lemma mset_concat_update:
  "q < length ws \<Longrightarrow> mset (concat (ws[q := x])) + mset (ws ! q) = mset (concat ws) + mset x"
proof (induction ws arbitrary: q)
  case (Cons w ws)
  then show ?case
    by (cases q) (auto simp: ac_simps)
qed simp

lemma set_running: "t \<in> set (running cs) \<longleftrightarrow> Some t \<in> set cs"
  by (induction cs) (auto split: option.splits, case_tac a, auto, case_tac a, auto)

text \<open>What an operation does to the contexts as a whole.\<close>

lemma contexts_candidate_switch:
  assumes "c < length (cur s)"
  shows "mset (contexts (sched_candidate_switch c s)) + opt_mset (cur s ! c) = mset (contexts s)"
  using mset_running_update [OF assms] by (auto simp: sched_defs contexts_def ac_simps split: list.splits)

lemma contexts_push: "mset (contexts (sched_context_push t s)) = add_mset t (mset (contexts s))"
  by (auto simp: sched_context_push_def contexts_def Let_def split: list.splits)

lemma contexts_queue_push:
  "q < length (wait s) \<Longrightarrow> mset (contexts (queue_push q t s)) = add_mset t (mset (contexts s))"
  using mset_concat_update [of q "wait s" "wait s ! q @ [t]"] by (simp add: queue_push_def contexts_def)

lemma distinct_mset_le:
  assumes "distinct ys" "mset xs \<subseteq># mset ys"
  shows "distinct xs"
proof -
  have "count (mset xs) x \<le> 1" for x
    using assms(2) assms(1) distinct_count_atmost_1 [of ys]
    by (metis (no_types, lifting) le_trans mset_subset_eq_count not_in_iff set_mset_mset zero_le_one order_refl)
  then show ?thesis
    by (metis distinct_count_atmost_1 count_mset_0_iff count_greater_eq_one_iff le_antisym in_multiset_in_set)
qed

subsection \<open>Idle processors\<close>

lemma cpu_inv_candidate_switch:
  assumes "c < length (cur s)" "c \<notin> set (idle_cpu s @ ipi s)" "distinct (idle_cpu s @ ipi s)"
    "set (idle_cpu s @ ipi s) \<subseteq> {..<length (cur s)}"
    "\<And>d. d < length (cur s) \<Longrightarrow> d \<noteq> c \<Longrightarrow> cur s ! d = None \<longleftrightarrow> d \<in> set (idle_cpu s @ ipi s)"
  shows "cpu_inv (sched_candidate_switch c s)"
  using assms by (auto simp: cpu_inv_def sched_defs nth_list_update split: list.splits)

lemma cpu_inv_running:
  assumes "cpu_inv s" "sched_get_current c s = Some t"
  shows "cpu_inv (sched_candidate_switch c s)"
  using assms by (intro cpu_inv_candidate_switch) (auto simp: cpu_inv_def sched_get_current_def split: if_splits)

lemma cpu_inv_push: "cpu_inv s \<Longrightarrow> cpu_inv (sched_context_push t s)"
  by (cases "idle_cpu s") (auto simp: cpu_inv_def sched_context_push_def Let_def)

lemma cpu_inv_idle:
  assumes "cpu_inv s" "c < length (cur s)" "cur s ! c = None"
  shows "cpu_inv (sched_context_idle c s)"
proof (cases "c \<in> set (idle_cpu s)")
  case False
  then have "c \<in> set (ipi s)"
    using assms by (auto simp: cpu_inv_def)
  then have "cpu_inv (sched_candidate_switch c (s\<lparr>ipi := remove1 c (ipi s)\<rparr>))"
    using assms False by (intro cpu_inv_candidate_switch) (auto simp: cpu_inv_def set_remove1_eq)
  then show ?thesis
    using False by (simp add: sched_context_idle_def)
qed (use assms in \<open>simp add: sched_context_idle_def\<close>)

lemma cpu_inv_queue [simp]:
  "cpu_inv (queue_push q t s) = cpu_inv s" "cpu_inv (s\<lparr>wait := w\<rparr>) = cpu_inv s"
  by (simp_all add: cpu_inv_def queue_push_def)

subsection \<open>Interrupts on their way\<close>

lemma wake_inv_candidate_switch: "wake_inv s \<Longrightarrow> wake_inv (sched_candidate_switch c s)"
  by (auto simp: wake_inv_def sched_defs split: list.splits)

lemma wake_inv_push: "wake_inv s \<Longrightarrow> wake_inv (sched_context_push t s)"
  by (cases "idle_cpu s") (auto simp: wake_inv_def sched_context_push_def Let_def)

lemma wake_inv_idle: "wake_inv s \<Longrightarrow> wake_inv (sched_context_idle c s)"
  by (auto simp: wake_inv_def sched_context_idle_def sched_defs length_remove1 split: list.splits)

lemma wake_inv_queue [simp]:
  "wake_inv (queue_push q t s) = wake_inv s" "wake_inv (s\<lparr>wait := w\<rparr>) = wake_inv s"
  by (simp_all add: wake_inv_def queue_push_def)

subsection \<open>Every step keeps the invariant\<close>

lemma sched_get_current_queue [simp]: "sched_get_current c (queue_push q t s) = sched_get_current c s"
  by (simp add: sched_get_current_def queue_push_def)

lemma contexts_leave:
  assumes "sched_get_current c s = Some t"
  shows "add_mset t (mset (contexts (sched_candidate_switch c s))) = mset (contexts s)"
  using assms contexts_candidate_switch [of c s] by (auto simp: sched_get_current_def split: if_splits)

lemma contexts_switch:
  assumes "sched_context_switch c s = Some s'"
  shows "mset (contexts s') = mset (contexts s)"
proof -
  from assms obtain t where t: "c < length (cur s)" "cur s ! c = Some t"
    by (auto simp: sched_context_switch_def sched_get_current_def split: bind_splits if_splits)
  show ?thesis
    using assms t mset_running_update [OF t(1), of "Some n" for n]
    by (auto simp: sched_context_switch_def sched_defs contexts_def split: list.splits)
qed

lemma contexts_wait:
  assumes "q < length (wait s)" "sched_wait_unlock c q s = Some s'"
  shows "mset (contexts s') = mset (contexts s)"
proof -
  from assms(2) obtain t where t: "sched_get_current c s = Some t"
    "s' = sched_candidate_switch c (queue_push q t s)"
    by (auto simp: sched_wait_unlock_def split: bind_splits)
  then show ?thesis
    using contexts_leave [of c "queue_push q t s" t] contexts_queue_push [OF assms(1), of t] by simp
qed

lemma contexts_wake:
  assumes "q < length (wait s)" "sched_wake q s = (r, s')"
  shows "mset (contexts s') = mset (contexts s)"
proof (cases "wait s ! q")
  case (Cons t ts)
  have "mset (concat ((wait s)[q := ts])) + mset (t # ts) = mset (concat (wait s)) + mset ts"
    using mset_concat_update [OF assms(1), of ts] Cons by simp
  then have "add_mset t (mset (concat ((wait s)[q := ts]))) = mset (concat (wait s))"
    by simp
  then have "add_mset t (mset (contexts (s\<lparr>wait := (wait s)[q := ts]\<rparr>))) = mset (contexts s)"
    by (simp add: contexts_def)
  then show ?thesis
    using assms Cons by (auto simp: sched_wake_def waiting_def contexts_push)
qed (use assms in \<open>auto simp: sched_wake_def waiting_def\<close>)

lemma contexts_idle:
  assumes "c < length (cur s)" "cur s ! c = None"
  shows "mset (contexts (sched_context_idle c s)) = mset (contexts s)"
  using assms contexts_candidate_switch [of c "s\<lparr>ipi := remove1 c (ipi s)\<rparr>"]
  by (auto simp: sched_context_idle_def contexts_def)

lemma sched_inv_leave:
  assumes "sched_inv s" "sched_get_current c s = Some t"
  shows "sched_inv (sched_candidate_switch c s)"
proof -
  have "mset (contexts (sched_candidate_switch c s)) \<subseteq># mset (contexts s)"
    using contexts_leave [OF assms(2)] by (metis mset_subset_eq_add_right add_mset_add_single mset_subset_eq_add_left)
  then show ?thesis
    using assms distinct_mset_le cpu_inv_running wake_inv_candidate_switch unfolding sched_inv_def by blast
qed

lemma cpu_inv_switch:
  assumes "cpu_inv s" "sched_context_switch c s = Some s'"
  shows "cpu_inv s'"
proof -
  from assms(2) obtain t where t: "c < length (cur s)" "cur s ! c = Some t"
    by (auto simp: sched_context_switch_def sched_get_current_def split: bind_splits if_splits)
  then have "c \<notin> set (idle_cpu s @ ipi s)"
    using assms(1) unfolding cpu_inv_def by fastforce
  then show ?thesis
    using assms t
    by (auto simp: cpu_inv_def sched_context_switch_def sched_defs nth_list_update split: list.splits if_splits)
qed

lemma wake_inv_switch:
  assumes "wake_inv s" "sched_context_switch c s = Some s'"
  shows "wake_inv s'"
  using assms by (auto simp: wake_inv_def sched_context_switch_def sched_defs split: list.splits if_splits bind_splits)

lemma sched_step_inv: "sched_step s s' \<Longrightarrow> sched_inv s \<Longrightarrow> sched_inv s'"
proof (induction rule: sched_step.induct)
  case (switch c s s')
  then show ?case
    using contexts_switch cpu_inv_switch wake_inv_switch mset_eq_imp_distinct_iff unfolding sched_inv_def by blast
next
  case (exit c s s')
  then show ?case
    using sched_inv_leave by (auto simp: sched_context_exit_def split: bind_splits)
next
  case (stop c s s')
  then show ?case
    using sched_inv_leave by (auto simp: sched_context_stop_def split: bind_splits)
next
  case (wait q s c s')
  then obtain t where t: "sched_get_current c s = Some t" "s' = sched_candidate_switch c (queue_push q t s)"
    by (auto simp: sched_wait_unlock_def split: bind_splits)
  then show ?case
    using wait contexts_wait [OF wait(1,2)] mset_eq_imp_distinct_iff
      cpu_inv_running [of "queue_push q t s" c t] wake_inv_candidate_switch [of "queue_push q t s" c]
    by (auto simp: sched_inv_def)
next
  case (wake q s r s')
  have "cpu_inv s' \<and> wake_inv s'"
    using wake by (auto simp: sched_inv_def sched_wake_def waiting_def cpu_inv_push wake_inv_push
        split: list.splits)
  then show ?case
    using wake contexts_wake [OF wake(1,2)] mset_eq_imp_distinct_iff unfolding sched_inv_def by blast
next
  case (start t s)
  have "distinct (contexts (sched_context_push t s))"
    using start contexts_push [of t s] mset_eq_imp_distinct_iff [of "contexts (sched_context_push t s)" "t # contexts s"]
    by (simp add: sched_inv_def)
  then show ?case
    using start by (simp add: sched_inv_def sched_context_start_def cpu_inv_push wake_inv_push)
next
  case (idle c s)
  then show ?case
    using contexts_idle [OF idle(1,2)] mset_eq_imp_distinct_iff cpu_inv_idle wake_inv_idle unfolding sched_inv_def by blast
qed

lemma running_map_Some [simp]: "running (map Some xs) = xs"
  by (induction xs) auto

lemma sched_init_inv: "sched_inv (sched_global_init n k)"
proof -
  have "concat (replicate k []) = ([] :: nat list)"
    by (induction k) auto
  then show ?thesis
    by (simp add: sched_inv_def contexts_def cpu_inv_def wake_inv_def sched_global_init_def)
qed

lemma sched_reach_inv: "sched_reach s \<Longrightarrow> sched_inv s"
  by (induction rule: sched_reach.induct) (auto intro: sched_init_inv sched_step_inv)

subsection \<open>Wait queues\<close>

lemma waiting_candidate_switch [simp]: "waiting q (sched_candidate_switch c s) = waiting q s"
  by (auto simp: waiting_def sched_defs split: list.splits)

lemma waiting_push [simp]: "waiting q (sched_context_push t s) = waiting q s"
  by (auto simp: waiting_def sched_context_push_def Let_def split: list.splits)

lemma waiting_queue_push:
  "waiting q (queue_push p t s) = (if q = p \<and> p < length (wait s) then waiting q s @ [t] else waiting q s)"
  by (auto simp: waiting_def queue_push_def)

text \<open>The state after the first \<open>k\<close> contexts of queue \<open>q\<close> are woken up.\<close>

definition woken :: "nat \<Rightarrow> nat \<Rightarrow> sched_state \<Rightarrow> sched_state" where
  "woken q k s = s\<lparr>root := root s @ take k (waiting q s), wait := (wait s)[q := drop k (waiting q s)],
     idle_cpu := drop (min k (length (waiting q s))) (idle_cpu s),
     ipi := ipi s @ take (min k (length (waiting q s))) (idle_cpu s)\<rparr>"

lemma wait_waiting: "(wait s)[q := waiting q s] = wait s"
  by (auto simp: waiting_def not_less list_update_beyond)

lemma woken_0 [simp]: "woken q 0 s = s"
  by (simp add: woken_def wait_waiting)

lemma woken_empty: "waiting q s = [] \<Longrightarrow> woken q k s = s"
  using wait_waiting [of s q] by (simp add: woken_def)

lemma sched_wake_woken:
  "sched_wake q s = (case waiting q s of [] \<Rightarrow> (None, s) | t # ts \<Rightarrow> (Some t, woken q 1 s))"
  by (auto simp: sched_wake_def sched_context_push_def woken_def Let_def split: list.splits)

lemma waiting_woken: "waiting p (woken q k s) = (if p = q then drop k (waiting q s) else waiting p s)"
  by (auto simp: waiting_def woken_def)

lemma woken_Suc: "woken q k (woken q 1 s) = woken q (Suc k) s"
proof (cases "waiting q s")
  case (Cons t ts)
  then have "waiting q (woken q 1 s) = ts"
    by (simp add: waiting_woken)
  then show ?thesis
    using Cons by (cases "idle_cpu s") (auto simp: woken_def)
qed (simp add: woken_empty)

lemma woken_reach: "sched_reach s \<Longrightarrow> sched_reach (woken q k s)"
proof (induction k arbitrary: s)
  case (Suc k)
  show ?case
  proof (cases "waiting q s")
    case (Cons t ts)
    then have "q < length (wait s)" "sched_wake q s = (Some t, woken q 1 s)"
      by (auto simp: sched_wake_woken waiting_def split: if_splits)
    then have "sched_reach (woken q 1 s)"
      using Suc.prems sched_reach.step sched_step.wake by blast
    then have "sched_reach (woken q k (woken q 1 s))"
      by (rule Suc.IH)
    then show ?thesis
      by (simp only: woken_Suc)
  qed (use Suc.prems in \<open>simp add: woken_empty\<close>)
qed simp

lemma length_wait_step:
  shows "sched_context_switch c s = Some s' \<Longrightarrow> length (wait s') = length (wait s)"
    and "sched_context_exit c s = Some s' \<Longrightarrow> length (wait s') = length (wait s)"
    and "sched_context_stop c s = Some s' \<Longrightarrow> length (wait s') = length (wait s)"
    and "sched_wait_unlock c p s = Some s' \<Longrightarrow> length (wait s') = length (wait s)"
    and "sched_wake p s = (r, s') \<Longrightarrow> length (wait s') = length (wait s)"
    and "length (wait (sched_context_idle c s)) = length (wait s)"
    and "length (wait (sched_context_start t s)) = length (wait s)"
  by (auto simp: sched_context_switch_def sched_context_stop_def sched_context_exit_def sched_wait_unlock_def sched_context_idle_def
      sched_context_start_def sched_context_push_def sched_wake_woken woken_def sched_defs Let_def
      split: bind_splits list.splits)

lemma other_step_sched: "other_step Q s s' \<Longrightarrow> sched_step s s'"
  by (induction rule: other_step.induct) (blast intro: sched_step.intros)+

lemma other_step_length: "other_step Q s s' \<Longrightarrow> length (wait s') = length (wait s)"
  by (induction rule: other_step.induct) (simp_all add: length_wait_step)

lemma waiting_other:
  assumes "other_step Q s s'" "q \<in> Q"
  shows "waiting q s' = waiting q s"
  using assms
proof (induction rule: other_step.induct)
  case (wake p s r s')
  then have "p \<noteq> q"
    by auto
  then show ?case
    using wake by (auto simp: sched_wake_woken waiting_woken split: list.splits)
next
  case (switch c s s')
  then show ?case
    by (auto simp: sched_context_switch_def sched_candidate_noidle_def waiting_def split: bind_splits list.splits)
qed (auto simp: sched_context_stop_def sched_context_exit_def sched_wait_unlock_def sched_context_idle_def
    sched_context_start_def waiting_queue_push split: bind_splits, auto simp: waiting_def)

text \<open>What the rest of the system does to a kernel object: nothing.\<close>

lemma other_step_frame:
  assumes "other_step Q s s'"
  shows "sched_reach s \<Longrightarrow> sched_reach s'" "length (wait s') = length (wait s)"
    "q \<in> Q \<Longrightarrow> waiting q s' = waiting q s"
  using assms other_step_sched sched_reach.step other_step_length waiting_other by blast+

lemma waiting_wait_unlock:
  assumes "sched_wait_unlock c q s = Some s'" "q < length (wait s)"
  shows "\<exists>t. sched_get_current c s = Some t \<and> waiting q s' = waiting q s @ [t] \<and> length (wait s') = length (wait s)"
proof -
  from assms(1) obtain t where t: "sched_get_current c s = Some t"
    "s' = sched_candidate_switch c (queue_push q t s)"
    by (auto simp: sched_wait_unlock_def split: bind_splits)
  then show ?thesis
    using assms(2) by (auto simp: waiting_queue_push) (auto simp: sched_defs split: list.splits)
qed

lemma wait_frame:
  assumes "sched_wait_unlock c q s = Some s'" "q < length (wait s)" "sched_reach s"
  shows "sched_reach s'" "length (wait s') = length (wait s)" "waiting q s' \<noteq> []"
    "p \<noteq> q \<Longrightarrow> waiting p s' = waiting p s"
proof -
  show "sched_reach s'"
    using assms sched_reach.step sched_step.wait by blast
  show "length (wait s') = length (wait s)" "waiting q s' \<noteq> []"
    using waiting_wait_unlock [OF assms(1,2)] by auto
  show "waiting p s' = waiting p s" if "p \<noteq> q"
    using waiting_other [OF other_step.wait [OF assms(2) _ assms(1)], of "{p}" p] that by simp
qed

subsection \<open>Waking up in a loop\<close>

text \<open>
  \<open>while (sched_wake(&wait)) count++;\<close>, with which \<^verbatim>\<open>rwlock_unlock\<close> wakes up the readers and
  \<^verbatim>\<open>pthread_barrier_wait\<close> the contexts at a barrier.
\<close>

function wake_counting :: "nat \<Rightarrow> int \<Rightarrow> sched_state \<Rightarrow> (int \<times> sched_state) option" where
  "wake_counting q n s =
     (case sched_wake q s of
        (Some t, s') \<Rightarrow> do { n' \<leftarrow> c_int (n + 1); wake_counting q n' s' }
      | (None, s') \<Rightarrow> Some (n, s'))"
  by auto
termination
  by (relation "measure (\<lambda>(q, n, s). length (waiting q s))")
    (auto simp: sched_wake_woken waiting_woken split: list.splits)

declare wake_counting.simps [simp del]

lemma wake_counting_woken:
  assumes "- (2 ^ 31) \<le> n" "n + int (length (waiting q s)) < 2 ^ 31"
  shows "wake_counting q n s = Some (n + int (length (waiting q s)), woken q (length (waiting q s)) s)"
  using assms
proof (induction q n s rule: wake_counting.induct)
  case (1 q n s)
  show ?case
  proof (cases "waiting q s")
    case Nil
    then show ?thesis
      by (simp add: wake_counting.simps [of q n] sched_wake_woken)
  next
    case (Cons t ts)
    then have w: "sched_wake q s = (Some t, woken q 1 s)" and ts: "waiting q (woken q 1 s) = ts"
      by (simp_all add: sched_wake_woken waiting_woken)
    have n: "c_int (n + 1) = Some (n + 1)"
      using 1(2,3) Cons by (simp add: c_int_def)
    have "wake_counting q (n + 1) (woken q 1 s) = Some (n + 1 + int (length ts), woken q (length ts) (woken q 1 s))"
      using 1(1) [OF w [symmetric] refl n] 1(2,3) Cons unfolding ts by simp
    then show ?thesis
      using w Cons n woken_Suc [of q "length ts" s] by (simp add: wake_counting.simps [of q n])
  qed
qed

lemma wake_counting_Some:
  assumes "wake_counting q n s = Some (m, s')"
  shows "m = n + int (length (waiting q s)) \<and> s' = woken q (length (waiting q s)) s"
  using assms
proof (induction q n s rule: wake_counting.induct)
  case (1 q n s)
  show ?case
  proof (cases "waiting q s")
    case Nil
    then show ?thesis
      using 1(2) by (simp add: wake_counting.simps [of q n] sched_wake_woken)
  next
    case (Cons t ts)
    then have w: "sched_wake q s = (Some t, woken q 1 s)" and ts: "waiting q (woken q 1 s) = ts"
      by (simp_all add: sched_wake_woken waiting_woken)
    obtain n' where n': "c_int (n + 1) = Some n'" "wake_counting q n' (woken q 1 s) = Some (m, s')"
      using 1(2) w by (auto simp: wake_counting.simps [of q n] split: bind_splits)
    then have "m = n' + int (length ts) \<and> s' = woken q (length ts) (woken q 1 s)"
      using 1(1) [OF w [symmetric] refl n'(1)] unfolding ts by blast
    then show ?thesis
      using Cons n'(1) woken_Suc [of q "length ts" s] by (simp add: c_int_Some)
  qed
qed

text \<open>\<open>while (sched_wake(&wait));\<close>\<close>

function sched_wake_all :: "nat \<Rightarrow> sched_state \<Rightarrow> sched_state" where
  "sched_wake_all q s = (case sched_wake q s of (Some t, s') \<Rightarrow> sched_wake_all q s' | (None, s') \<Rightarrow> s')"
  by auto
termination
  by (relation "measure (\<lambda>(q, s). length (waiting q s))")
    (auto simp: sched_wake_woken waiting_woken split: list.splits)

declare sched_wake_all.simps [simp del]

lemma sched_wake_all_woken: "sched_wake_all q s = woken q (length (waiting q s)) s"
proof (induction q s rule: sched_wake_all.induct)
  case (1 q s)
  show ?case
  proof (cases "waiting q s")
    case Nil
    then show ?thesis
      by (simp add: sched_wake_all.simps [of q s] sched_wake_woken)
  next
    case (Cons t ts)
    then have w: "sched_wake q s = (Some t, woken q 1 s)"
      by (simp add: sched_wake_woken)
    have "sched_wake_all q (woken q 1 s) = woken q (Suc (length ts)) s"
      using 1 [OF w [symmetric] refl] woken_Suc [of q "length ts" s] Cons by (simp add: waiting_woken)
    then show ?thesis
      using Cons by (simp add: sched_wake_all.simps [of q s] sched_wake_woken)
  qed
qed

subsection \<open>Round robin\<close>

text \<open>\<open>k\<close> calls of \<^verbatim>\<open>sched_context_switch\<close> on processor \<open>c\<close>.\<close>

primrec sched_switches :: "nat \<Rightarrow> nat \<Rightarrow> sched_state \<Rightarrow> sched_state option" where
  "sched_switches 0 c s = Some s"
| "sched_switches (Suc k) c s = do { s \<leftarrow> sched_switches k c s; sched_context_switch c s }"

lemma sched_context_switch_rotate:
  assumes "c < length (cur s)" "cur s ! c = Some t"
  shows "\<exists>s' t'. sched_context_switch c s = Some s' \<and> length (cur s') = length (cur s)
    \<and> cur s' ! c = Some t' \<and> t' # root s' = rotate1 (t # root s)"
  using assms by (cases "root s") (auto simp: sched_context_switch_def sched_defs)

section \<open>Properties\<close>

text \<open>
  C3: In every state the scheduler can reach, each context is at exactly one place (the run queue, one
  wait queue or one processor, and once there), a processor is idle exactly when it is either declared
  idle or has an interrupt on its way (never both), and while some processor is declared idle there are
  at least as many interrupts on their way as contexts in the run queue.
\<close>

theorem sched_reach_invariant:
  assumes "sched_reach s"
  shows "distinct (root s @ concat (wait s) @ running (cur s)) \<and> distinct (idle_cpu s @ ipi s)
    \<and> (\<forall>c. c < length (cur s) \<longrightarrow> (cur s ! c = None \<longleftrightarrow> c \<in> set (idle_cpu s) \<union> set (ipi s)))
    \<and> (idle_cpu s \<noteq> [] \<longrightarrow> length (root s) \<le> length (ipi s))"
  using sched_reach_inv [OF assms] by (auto simp: sched_inv_def contexts_def cpu_inv_def wake_inv_def)

text \<open>
  C4: No wakeup is lost: in a reachable state with a runnable context and an idle processor, some idle
  processor has an interrupt on its way, and when it handles the interrupt it runs the oldest runnable
  context.
\<close>

theorem sched_no_lost_wakeup:
  assumes "sched_reach s" "root s = t # q" "c < length (cur s)" "cur s ! c = None"
  shows "\<exists>d < length (cur s). cur s ! d = None \<and> d \<in> set (ipi s)
    \<and> cur (sched_context_idle d s) ! d = Some t \<and> root (sched_context_idle d s) = q"
proof -
  have inv: "cpu_inv s" "wake_inv s"
    using sched_reach_inv [OF assms(1)] by (simp_all add: sched_inv_def)
  have "ipi s \<noteq> []"
  proof (cases "idle_cpu s")
    case Nil
    then show ?thesis
      using inv(1) assms(3,4) by (auto simp: cpu_inv_def)
  qed (use inv(2) assms(2) in \<open>auto simp: wake_inv_def\<close>)
  then obtain d where d: "d \<in> set (ipi s)"
    by (meson last_in_set)
  then have "d < length (cur s)" "cur s ! d = None" "d \<notin> set (idle_cpu s)"
    using inv(1) by (auto simp: cpu_inv_def)
  then show ?thesis
    using d assms(2) by (intro exI [of _ d]) (simp add: sched_context_idle_def sched_defs)
qed

text \<open>
  C35: The scheduler is fair: \<open>k\<close> calls of \<^verbatim>\<open>sched_context_switch\<close> on a processor always succeed and rotate the running
  context and the run queue by \<open>k\<close> positions, so that the context at position \<open>i\<close> of the queue runs after
  \<open>i + 1\<close> calls and a context runs again after one call per runnable context.
\<close>

theorem sched_round_robin:
  assumes "c < length (cur s)" "cur s ! c = Some t"
  shows "\<exists>s' t'. sched_switches k c s = Some s' \<and> cur s' ! c = Some t'
    \<and> t' # root s' = rotate k (t # root s)"
proof -
  have "\<exists>s' t'. sched_switches k c s = Some s' \<and> length (cur s') = length (cur s) \<and> cur s' ! c = Some t'
    \<and> t' # root s' = rotate k (t # root s)"
  proof (induction k)
    case (Suc k)
    then obtain s' t' where s': "sched_switches k c s = Some s'" "length (cur s') = length (cur s)"
      "cur s' ! c = Some t'" "t' # root s' = rotate k (t # root s)"
      by blast
    then show ?case
      using sched_context_switch_rotate [of c s' t'] assms(1) by auto
  qed (use assms in simp)
  then show ?thesis
    by blast
qed

text \<open>
  A wait and a wake move a context without losing it: \<^verbatim>\<open>sched_wait_unlock\<close> puts the calling context at the end of
  the wait queue, \<^verbatim>\<open>sched_wake\<close> moves the context that waits longest to the end of the run queue and posts
  an interrupt to one processor declared idle, and neither changes the contexts as a whole.
\<close>

theorem sched_wait_wake:
  assumes "q < length (wait s)" "c < length (cur s)" "cur s ! c = Some t"
  shows "(\<exists>s'. sched_wait_unlock c q s = Some s' \<and> wait s' = (wait s)[q := wait s ! q @ [t]]
      \<and> cur s' ! c = (case root s of [] \<Rightarrow> None | n # r \<Rightarrow> Some n)
      \<and> mset (contexts s') = mset (contexts s))
    \<and> (case wait s ! q of
         [] \<Rightarrow> sched_wake q s = (None, s)
       | w # ws \<Rightarrow> \<exists>s'. sched_wake q s = (Some w, s') \<and> wait s' = (wait s)[q := ws]
           \<and> root s' = root s @ [w] \<and> cur s' = cur s \<and> idle_cpu s' = tl (idle_cpu s)
           \<and> ipi s' = ipi s @ take 1 (idle_cpu s) \<and> mset (contexts s') = mset (contexts s))"
    (is "?wait \<and> ?wake")
proof
  have "sched_get_current c s = Some t"
    using assms by (simp add: sched_get_current_def)
  then have w: "sched_wait_unlock c q s = Some (sched_candidate_switch c (queue_push q t s))"
    by (simp add: sched_wait_unlock_def)
  then show ?wait
    using contexts_wait [OF assms(1) w] assms(2) by (simp add: sched_defs split: list.splits)
  show ?wake
  proof (cases "wait s ! q")
    case (Cons w ws)
    then have e: "sched_wake q s = (Some w, sched_context_push w (s\<lparr>wait := (wait s)[q := ws]\<rparr>))"
      using assms(1) by (simp add: sched_wake_def waiting_def)
    then show ?thesis
      using Cons contexts_wake [OF assms(1) e] by (auto simp: sched_context_push_def Let_def split: list.splits)
  qed (simp add: sched_wake_def waiting_def)
qed

section \<open>Witnesses\<close>

text \<open>Two processors, one wait queue: the context of processor 1 waits, so that the processor goes idle; a wake makes it runnable.\<close>

definition example_sleeping :: sched_state where
  "example_sleeping = \<lparr>root = [], idle_cpu = [1], cur = [Some 0, None], wait = [[1]], ipi = []\<rparr>"

definition example_woken :: sched_state where
  "example_woken = \<lparr>root = [1], idle_cpu = [], cur = [Some 0, None], wait = [[]], ipi = [1]\<rparr>"

lemma example_sleeping_reach: "sched_reach example_sleeping"
proof -
  have "sched_wait_unlock 1 0 (sched_global_init 2 1) = Some example_sleeping"
    by (simp add: sched_wait_unlock_def sched_defs sched_global_init_def example_sleeping_def numeral_2_eq_2)
  then show ?thesis
    by (intro sched_reach.step [OF sched_reach.init [of 2 1]] sched_step.wait [of 0 _ 1])
      (simp_all add: sched_global_init_def)
qed

lemma example_woken_reach: "sched_reach example_woken"
proof -
  have "sched_wake 0 example_sleeping = (Some 1, example_woken)"
    by (simp add: sched_wake_def waiting_def sched_context_push_def example_sleeping_def example_woken_def)
  then show ?thesis
    by (intro sched_reach.step [OF example_sleeping_reach] sched_step.wake [of 0])
      (simp_all add: example_sleeping_def)
qed

theorem sched_reach_invariant_witness:
  "sched_reach example_woken \<and> distinct (idle_cpu example_woken @ ipi example_woken)
    \<and> length (root example_woken) \<le> 1"
  using sched_reach_invariant [OF example_woken_reach] example_woken_reach by (simp add: example_woken_def)

theorem sched_no_lost_wakeup_witness:
  "\<exists>d < 2. d \<in> set (ipi example_woken) \<and> cur (sched_context_idle d example_woken) ! d = Some 1"
  using sched_no_lost_wakeup [OF example_woken_reach, of 1 "[]" 1] by (auto simp: example_woken_def)

theorem sched_round_robin_witness:
  "\<exists>s' t'. sched_switches 5 0 example_woken = Some s' \<and> cur s' ! 0 = Some t' \<and> t' # root s' = [1, 0]"
  using sched_round_robin [of 0 example_woken 0 5] by (simp add: example_woken_def rotate_def numeral_eq_Suc)

theorem sched_wait_wake_witness:
  "\<exists>s'. sched_wake 0 example_sleeping = (Some 1, s') \<and> root s' = [1] \<and> ipi s' = [1]"
  using sched_wait_wake [of 0 example_sleeping 0 0] by (auto simp: example_sleeping_def)

end
