(* ===== verification/Semaphore.thy ===== *)
theory Semaphore
  imports Scheduler
begin

text \<open>
  \<^verbatim>\<open>mutek/semaphore.c\<close>.  A semaphore has its count and the number of its wait queue in the state of the
  scheduler; its operations run with the queue locked and interrupts disabled, so that each is one
  step.  The count is a signed machine integer of the 32 bits that \<^verbatim>\<open>int_fast8_t\<close> has on the modelled processors without
  \<^verbatim>\<open>CONFIG_HEXO_INTTYPES_SMALL\<close>: a computation that overflows gives \<open>None\<close>, as does a call
  that may wait on a processor without a current context.  The lemmas show which contexts
  \<^verbatim>\<open>semaphore_give\<close> wakes up and that the count together with the waiting contexts is an exact ledger.
\<close>

section \<open>Operations\<close>

record semaphore_s =
  sem_count :: int
  sem_wait :: nat

definition semaphore_init :: "int \<Rightarrow> nat \<Rightarrow> sched_state \<Rightarrow> error_t \<times> semaphore_s \<times> sched_state" where
  "semaphore_init value q s = (0, \<lparr>sem_count = value, sem_wait = q\<rparr>, s\<lparr>wait := (wait s)[q := []]\<rparr>)"

definition semaphore_take :: "nat \<Rightarrow> int \<Rightarrow> semaphore_s \<Rightarrow> sched_state \<Rightarrow> (semaphore_s \<times> sched_state) option" where
  "semaphore_take c value sem s = do {
     n \<leftarrow> c_int (sem_count sem - value);
     if n < 0 then do {
       n \<leftarrow> c_int (n + 1);
       s \<leftarrow> sched_wait_unlock c (sem_wait sem) s;
       Some (sem\<lparr>sem_count := n\<rparr>, s)
     }
     else Some (sem\<lparr>sem_count := n\<rparr>, s)
   }"

definition semaphore_try_take :: "int \<Rightarrow> semaphore_s \<Rightarrow> (error_t \<times> semaphore_s) option" where
  "semaphore_try_take value sem = do {
     n \<leftarrow> c_int (sem_count sem - value);
     if n < 0 then Some (EBUSY, sem)
     else Some (0, sem\<lparr>sem_count := n\<rparr>)
   }"

function semaphore_give_loop :: "nat \<Rightarrow> int \<Rightarrow> sched_state \<Rightarrow> int \<times> sched_state" where
  "semaphore_give_loop q n s =
     (if n > 0 then
        (case sched_wake q s of
           (Some t, s') \<Rightarrow> semaphore_give_loop q (n - 1) s'
         | (None, s') \<Rightarrow> (n, s'))
      else (n, s))"
  by auto
termination
  by (relation "measure (\<lambda>(q, n, s). nat n)") auto

definition semaphore_give :: "int \<Rightarrow> semaphore_s \<Rightarrow> sched_state \<Rightarrow> (semaphore_s \<times> sched_state) option" where
  "semaphore_give value sem s = do {
     n \<leftarrow> c_int (sem_count sem + value);
     let (n, s) = semaphore_give_loop (sem_wait sem) n s;
     Some (sem\<lparr>sem_count := n\<rparr>, s)
   }"

definition semaphore_value :: "semaphore_s \<Rightarrow> int" where
  "semaphore_value sem = sem_count sem"

section \<open>The ledger\<close>

text \<open>
  Steps of a system with one semaphore on queue \<open>q\<close>, paired with the number of units given so far minus the
  units taken or waited for.  The other steps are the scheduler's, on other queues.
\<close>

inductive sem_step ::
    "semaphore_s \<times> sched_state \<times> int \<Rightarrow> semaphore_s \<times> sched_state \<times> int \<Rightarrow> bool" where
  take: "value \<ge> 0 \<Longrightarrow> semaphore_take c value sem s = Some (sem', s') \<Longrightarrow> sem_step (sem, s, b) (sem', s', b - value)"
| try_take: "value \<ge> 0 \<Longrightarrow> semaphore_try_take value sem = Some (0, sem') \<Longrightarrow> sem_step (sem, s, b) (sem', s, b - value)"
| busy: "value \<ge> 0 \<Longrightarrow> semaphore_try_take value sem = Some (EBUSY, sem') \<Longrightarrow> sem_step (sem, s, b) (sem', s, b)"
| give: "value \<ge> 0 \<Longrightarrow> semaphore_give value sem s = Some (sem', s') \<Longrightarrow> sem_step (sem, s, b) (sem', s', b + value)"
| other: "other_step {sem_wait sem} s s' \<Longrightarrow> sem_step (sem, s, b) (sem, s', b)"

inductive sem_reach :: "semaphore_s \<times> sched_state \<times> int \<Rightarrow> bool" where
  init: "sched_reach s \<Longrightarrow> q < length (wait s) \<Longrightarrow> waiting q s = [] \<Longrightarrow> semaphore_init v q s = (0, sem, s') \<Longrightarrow>
    sem_reach (sem, s', v)"
| step: "sem_reach x \<Longrightarrow> sem_step x y \<Longrightarrow> sem_reach y"

section \<open>Lemmas\<close>

declare semaphore_give_loop.simps [simp del]

lemma give_loop_woken:
  "semaphore_give_loop q n s = (n - int (min (nat n) (length (waiting q s))), woken q (nat n) s)"
proof (induction q n s rule: semaphore_give_loop.induct)
  case (1 q n s)
  show ?case
  proof (cases "0 < n")
    case pos: True
    then have n: "nat n = Suc (nat (n - 1))"
      by simp
    show ?thesis
    proof (cases "waiting q s")
      case Nil
      then show ?thesis
        using pos by (simp add: semaphore_give_loop.simps [of q n] sched_wake_woken woken_empty)
    next
      case (Cons t ts)
      then have w: "sched_wake q s = (Some t, woken q 1 s)"
        by (simp add: sched_wake_woken)
      have "semaphore_give_loop q (n - 1) (woken q 1 s)
          = (n - 1 - int (min (nat (n - 1)) (length ts)), woken q (Suc (nat (n - 1))) s)"
        using 1 [OF pos w [symmetric] refl] Cons woken_Suc [of q "nat (n - 1)" s] by (simp add: waiting_woken)
      then show ?thesis
        using pos w Cons n by (simp add: semaphore_give_loop.simps [of q n])
    qed
  qed (simp add: semaphore_give_loop.simps [of q n])
qed

definition sem_inv :: "semaphore_s \<times> sched_state \<times> int \<Rightarrow> bool" where
  "sem_inv = (\<lambda>(sem, s, b). sched_reach s \<and> sem_wait sem < length (wait s)
     \<and> b = sem_count sem - int (length (waiting (sem_wait sem) s))
     \<and> (waiting (sem_wait sem) s \<noteq> [] \<longrightarrow> sem_count sem \<le> 0))"

lemma sem_take_inv:
  assumes "sem_inv (sem, s, b)" "value \<ge> 0" "semaphore_take c value sem s = Some (sem', s')"
  shows "sem_inv (sem', s', b - value)"
proof (cases "sem_count sem - value < 0")
  case True
  then have s': "sched_wait_unlock c (sem_wait sem) s = Some s'" "sem' = sem\<lparr>sem_count := sem_count sem - value + 1\<rparr>"
    using assms(3) by (auto simp: semaphore_take_def c_int_Some split: bind_splits if_splits)
  have q: "sched_reach s" "sem_wait sem < length (wait s)"
    using assms(1) by (simp_all add: sem_inv_def)
  then have "sched_reach s'"
    using s'(1) sched_step.wait sched_reach.step by blast
  then show ?thesis
    using waiting_wait_unlock [OF s'(1) q(2)] assms(1) s'(2) True by (auto simp: sem_inv_def)
next
  case False
  then show ?thesis
    using assms by (auto simp: semaphore_take_def c_int_Some sem_inv_def split: bind_splits if_splits)
qed

lemma sem_give_inv:
  assumes "sem_inv (sem, s, b)" "value \<ge> 0" "semaphore_give value sem s = Some (sem', s')"
  shows "sem_inv (sem', s', b + value)"
proof -
  let ?n = "sem_count sem + value" and ?w = "waiting (sem_wait sem) s"
  have e: "sem' = sem\<lparr>sem_count := ?n - int (min (nat ?n) (length ?w))\<rparr>" "s' = woken (sem_wait sem) (nat ?n) s"
    using assms(3) by (auto simp: semaphore_give_def c_int_Some give_loop_woken split: bind_splits)
  have "sched_reach s'" "length (wait s') = length (wait s)"
    using woken_reach assms(1) e(2) by (auto simp: sem_inv_def woken_def)
  then show ?thesis
    using assms(1) e by (auto simp: sem_inv_def waiting_woken min_def split: if_splits)
qed

lemma sem_step_inv: "sem_step x y \<Longrightarrow> sem_inv x \<Longrightarrow> sem_inv y"
proof (induction rule: sem_step.induct)
  case (take v c sem s sem' s' b)
  then show ?case by (blast intro: sem_take_inv)
next
  case (give v sem s sem' s' b)
  then show ?case by (blast intro: sem_give_inv)
next
  case (try_take v sem sem' s b)
  then show ?case
    by (auto simp: semaphore_try_take_def sem_inv_def c_int_Some errno_defs split: bind_splits if_splits)
next
  case (busy v sem sem' s b)
  then show ?case
    by (auto simp: semaphore_try_take_def sem_inv_def c_int_Some errno_defs split: bind_splits if_splits)
next
  case (other sem s s' b)
  then show ?case
    using other_step_frame [OF other(1)] by (simp add: sem_inv_def)
qed

lemma sem_reach_inv: "sem_reach x \<Longrightarrow> sem_inv x"
proof (induction rule: sem_reach.induct)
  case (init s q v sem s')
  then have "s' = s" "sem = \<lparr>sem_count = v, sem_wait = q\<rparr>"
    using wait_waiting [of s q] by (auto simp: semaphore_init_def)
  then show ?case
    using init by (simp add: sem_inv_def)
qed (rule sem_step_inv)

section \<open>Properties\<close>

text \<open>
  C26: \<^verbatim>\<open>semaphore_give\<close> of \<open>value\<close> units returns whenever the count does not overflow, wakes up exactly as many
  contexts as the new count is positive (all of them when fewer wait), those that wait longest, in the
  order they came, sends interrupts to as many sleeping processors, and leaves the rest in the count.
\<close>

theorem semaphore_give_correct:
  assumes "- (2 ^ 31) \<le> sem_count sem + value" "sem_count sem + value < 2 ^ 31"
    and "q = sem_wait sem" "k = min (nat (sem_count sem + value)) (length (waiting q s))"
  shows "\<exists>s'. semaphore_give value sem s = Some (sem\<lparr>sem_count := sem_count sem + value - int k\<rparr>, s')
    \<and> waiting q s' = drop k (waiting q s) \<and> root s' = root s @ take k (waiting q s)
    \<and> idle_cpu s' = drop k (idle_cpu s) \<and> ipi s' = ipi s @ take k (idle_cpu s) \<and> cur s' = cur s"
proof -
  have "semaphore_give value sem s
      = Some (sem\<lparr>sem_count := sem_count sem + value - int k\<rparr>, woken q (nat (sem_count sem + value)) s)"
    using assms by (simp add: semaphore_give_def c_int_def give_loop_woken)
  then show ?thesis
    using assms(4) by (auto simp: waiting_woken min_def) (simp_all add: woken_def min_def)
qed

theorem semaphore_give_correct_witness:
  "\<exists>s'. semaphore_give 2 \<lparr>sem_count = 0, sem_wait = 0\<rparr> example_sleeping = Some (\<lparr>sem_count = 1, sem_wait = 0\<rparr>, s')
    \<and> root s' = [1] \<and> ipi s' = [1]"
  using semaphore_give_correct [of "\<lparr>sem_count = 0, sem_wait = 0\<rparr>" 2 0 1 example_sleeping]
  by (auto simp: example_sleeping_def waiting_def)

text \<open>
  C25: However the contexts, the processors and other kernel objects interleave, the count of a semaphore
  minus the number of the contexts that wait on it is the initial value plus all units given minus all
  units taken or waited for, contexts wait only while the count is not positive, and the scheduler
  stays in a reachable state.
\<close>

theorem semaphore_ledger:
  assumes "sem_reach (sem, s, balance)"
  shows "sem_count sem - int (length (waiting (sem_wait sem) s)) = balance
    \<and> (waiting (sem_wait sem) s \<noteq> [] \<longrightarrow> sem_count sem \<le> 0) \<and> sched_reach s"
  using sem_reach_inv [OF assms] by (simp add: sem_inv_def)

theorem semaphore_ledger_witness:
  "sem_reach (\<lparr>sem_count = 0, sem_wait = 0\<rparr>, example_sleeping, -1)
    \<and> (0 :: int) - int (length (waiting 0 example_sleeping)) = -1"
proof -
  let ?sem = "\<lparr>sem_count = 0, sem_wait = 0\<rparr>"
  have "sem_reach (?sem, sched_global_init 2 1, 0)"
    by (rule sem_reach.init [OF sched_reach.init [of 2 1], of 0])
      (simp_all add: sched_global_init_def waiting_def semaphore_init_def)
  moreover have "semaphore_take 1 1 ?sem (sched_global_init 2 1) = Some (?sem, example_sleeping)"
    by (simp add: semaphore_take_def c_int_def sched_wait_unlock_def sched_defs sched_global_init_def
        example_sleeping_def numeral_2_eq_2)
  ultimately have r: "sem_reach (?sem, example_sleeping, 0 - 1)"
    by (intro sem_reach.step [OF _ sem_step.take]) auto
  then show ?thesis
    using semaphore_ledger [OF r] by simp
qed

end
