(* ===== verification/Rwlock.thy ===== *)
theory Rwlock
  imports Scheduler
begin

text \<open>
  \<^verbatim>\<open>mutek/rwlock.c\<close>.  A lock has its count (negative: write locked, positive: the number of readers) and the
  numbers of its two wait queues in the state of the scheduler; each operation runs with the queue of
  the writers locked and interrupts disabled and is one step.  The lemmas show mutual exclusion and
  that nobody waits for a free lock, for every interleaving with the rest of the system.  A context
  holds the lock when an operation of it has changed the count, whatever that operation returned.  The count has the 32 bits
  that \<^verbatim>\<open>int_fast8_t\<close> has on the modelled processors without \<^verbatim>\<open>CONFIG_HEXO_INTTYPES_SMALL\<close>.
\<close>

section \<open>Operations\<close>

record rwlock_s =
  rw_count :: int
  wait_rd :: nat
  wait_wr :: nat

text \<open>\<open>err_rd\<close> and \<open>err_wr\<close> are what the initialisation of the two queues returns.\<close>

definition rwlock_init ::
    "error_t \<Rightarrow> error_t \<Rightarrow> nat \<Rightarrow> nat \<Rightarrow> sched_state \<Rightarrow> error_t \<times> rwlock_s \<times> sched_state" where
  "rwlock_init err_rd err_wr rd wr s =
     (let rw = \<lparr>rw_count = 0, wait_rd = rd, wait_wr = wr\<rparr>;
          s = s\<lparr>wait := (wait s)[rd := []]\<rparr>
      in if err_rd = 0 then
           let s = s\<lparr>wait := (wait s)[wr := []]\<rparr>
           in if err_wr = 0 then (0, rw, s) else (- ENOMEM, rw, s)
         else (- ENOMEM, rw, s))"

definition rd_blocked :: "rwlock_s \<Rightarrow> sched_state \<Rightarrow> bool" where
  "rd_blocked rw s \<longleftrightarrow> rw_count rw < 0 \<or> waiting (wait_wr rw) s \<noteq> []"

definition rwlock_rdlock :: "nat \<Rightarrow> rwlock_s \<Rightarrow> sched_state \<Rightarrow> (error_t \<times> rwlock_s \<times> sched_state) option" where
  "rwlock_rdlock c rw s =
     (if rd_blocked rw s then do {
        s \<leftarrow> sched_wait_unlock c (wait_rd rw) s;
        Some (0, rw, s)
      }
      else do {
        n \<leftarrow> c_int (rw_count rw + 1);
        Some (0, rw\<lparr>rw_count := n\<rparr>, s)
      })"

definition rwlock_tryrdlock :: "rwlock_s \<Rightarrow> sched_state \<Rightarrow> (error_t \<times> rwlock_s) option" where
  "rwlock_tryrdlock rw s =
     (if rd_blocked rw s then Some (- EBUSY, rw)
      else do {
        n \<leftarrow> c_int (rw_count rw + 1);
        Some (0, rw\<lparr>rw_count := n\<rparr>)
      })"

definition rwlock_wrlock :: "nat \<Rightarrow> rwlock_s \<Rightarrow> sched_state \<Rightarrow> (error_t \<times> rwlock_s \<times> sched_state) option" where
  "rwlock_wrlock c rw s =
     (if rw_count rw \<noteq> 0 then do {
        s \<leftarrow> sched_wait_unlock c (wait_wr rw) s;
        Some (0, rw, s)
      }
      else do {
        n \<leftarrow> c_int (rw_count rw - 1);
        Some (0, rw\<lparr>rw_count := n\<rparr>, s)
      })"

text \<open>The result the function computes in \<^verbatim>\<open>res\<close> is not the one it returns.\<close>

definition rwlock_trywrlock :: "rwlock_s \<Rightarrow> (error_t \<times> rwlock_s) option" where
  "rwlock_trywrlock rw = do {
     (res, rw) \<leftarrow>
       (if rw_count rw \<noteq> 0 then Some (- EBUSY, rw)
        else do {
          n \<leftarrow> c_int (rw_count rw - 1);
          Some (0, rw\<lparr>rw_count := n\<rparr>)
        });
     Some (0, rw)
   }"

definition rwlock_unlock :: "bool \<Rightarrow> rwlock_s \<Rightarrow> sched_state \<Rightarrow> (error_t \<times> rwlock_s \<times> sched_state) option" where
  "rwlock_unlock CONFIG_DEBUG rw s =
     (if rw_count rw = 1 \<or> rw_count rw = -1 then
        (case sched_wake (wait_wr rw) s of
           (Some t, s) \<Rightarrow> Some (0, rw\<lparr>rw_count := -1\<rparr>, s)
         | (None, s) \<Rightarrow> do {
             (n, s) \<leftarrow> wake_counting (wait_rd rw) 0 s;
             Some (0, rw\<lparr>rw_count := n\<rparr>, s)
           })
      else if CONFIG_DEBUG \<and> rw_count rw = 0 then Some (- EPERM, rw, s)
      else do {
        n \<leftarrow> c_int (rw_count rw - 1);
        Some (0, rw\<lparr>rw_count := n\<rparr>, s)
      })"

section \<open>The contexts that hold the lock\<close>

text \<open>
  Steps of a system with one lock, with the contexts that hold it for reading and for writing: the caller
  of a locking function that changed the count, and the contexts an unlock moved to the run queue.
  Only a context that holds the lock unlocks it.
\<close>

type_synonym rw_sys = "rwlock_s \<times> sched_state \<times> nat multiset \<times> nat multiset"

definition unlocked_by :: "nat \<Rightarrow> rwlock_s \<Rightarrow> nat list \<Rightarrow> nat multiset \<times> nat multiset \<Rightarrow> nat multiset \<times> nat multiset" where
  "unlocked_by t rw' new = (\<lambda>(R, W).
     let (R, W) = (if t \<in># W then (R, W - {#t#}) else (R - {#t#}, W))
     in if rw_count rw' < 0 then (R, W + mset new) else (R + mset new, W))"

inductive rw_step :: "rw_sys \<Rightarrow> rw_sys \<Rightarrow> bool" where
  rdlock: "sched_get_current c s = Some t \<Longrightarrow> rwlock_rdlock c rw s = Some (0, rw', s') \<Longrightarrow>
    rw_step (rw, s, R, W) (rw', s', if rw' = rw then R else add_mset t R, W)"
| tryrdlock: "rwlock_tryrdlock rw s = Some (e, rw') \<Longrightarrow>
    rw_step (rw, s, R, W) (rw', s, if rw' = rw then R else add_mset t R, W)"
| wrlock: "sched_get_current c s = Some t \<Longrightarrow> rwlock_wrlock c rw s = Some (0, rw', s') \<Longrightarrow>
    rw_step (rw, s, R, W) (rw', s', R, if rw' = rw then W else add_mset t W)"
| trywrlock: "rwlock_trywrlock rw = Some (e, rw') \<Longrightarrow>
    rw_step (rw, s, R, W) (rw', s, R, if rw' = rw then W else add_mset t W)"
| unlock: "t \<in># R + W \<Longrightarrow> rwlock_unlock debug rw s = Some (0, rw', s') \<Longrightarrow>
    rw_step (rw, s, R, W) (rw', s', unlocked_by t rw' (drop (length (root s)) (root s')) (R, W))"
| other: "other_step {wait_rd rw, wait_wr rw} s s' \<Longrightarrow> rw_step (rw, s, R, W) (rw, s', R, W)"

inductive rw_reach :: "rw_sys \<Rightarrow> bool" where
  init: "sched_reach s \<Longrightarrow> rd < length (wait s) \<Longrightarrow> wr < length (wait s) \<Longrightarrow> rd \<noteq> wr \<Longrightarrow>
    waiting rd s = [] \<Longrightarrow> waiting wr s = [] \<Longrightarrow> rwlock_init 0 0 rd wr s = (0, rw, s') \<Longrightarrow>
    rw_reach (rw, s', {#}, {#})"
| step: "rw_reach x \<Longrightarrow> rw_step x y \<Longrightarrow> rw_reach y"

section \<open>Lemmas\<close>

text \<open>The invariant: the count tells who holds the lock, and nobody waits without reason.\<close>

definition rw_inv :: "rw_sys \<Rightarrow> bool" where
  "rw_inv = (\<lambda>(rw, s, R, W). sched_reach s
     \<and> wait_rd rw < length (wait s) \<and> wait_wr rw < length (wait s) \<and> wait_rd rw \<noteq> wait_wr rw
     \<and> (rw_count rw = -1 \<and> R = {#} \<and> size W = 1 \<or> rw_count rw = int (size R) \<and> W = {#})
     \<and> (waiting (wait_wr rw) s \<noteq> [] \<longrightarrow> rw_count rw \<noteq> 0)
     \<and> (waiting (wait_rd rw) s \<noteq> [] \<longrightarrow> rd_blocked rw s))"

lemma rdlock_inv:
  assumes "rw_inv (rw, s, R, W)" "rwlock_rdlock c rw s = Some (e, rw', s')"
  shows "rw_inv (rw', s', if rw' = rw then R else add_mset t R, W)"
proof (cases "rd_blocked rw s")
  case True
  then have e: "rw' = rw" "sched_wait_unlock c (wait_rd rw) s = Some s'"
    using assms(2) by (auto simp: rwlock_rdlock_def split: bind_splits)
  then show ?thesis
    using assms(1) True wait_frame [OF e(2)] by (auto simp: rw_inv_def rd_blocked_def)
next
  case False
  then have "s' = s" "rw' = rw\<lparr>rw_count := rw_count rw + 1\<rparr>"
    using assms(2) by (auto simp: rwlock_rdlock_def c_int_Some split: bind_splits)
  moreover have "rw\<lparr>rw_count := rw_count rw + 1\<rparr> \<noteq> rw"
    by (metis add_cancel_right_right rwlock_s.select_convs(1) rwlock_s.surjective rwlock_s.update_convs(1) zero_neq_one)
  ultimately show ?thesis
    using assms(1) False by (auto simp: rw_inv_def rd_blocked_def)
qed

lemma rw_count_update_neq: "n \<noteq> rw_count rw \<Longrightarrow> rw\<lparr>rw_count := n\<rparr> \<noteq> rw"
  by (cases rw) simp

lemma tryrdlock_inv:
  assumes "rw_inv (rw, s, R, W)" "rwlock_tryrdlock rw s = Some (e, rw')"
  shows "rw_inv (rw', s, if rw' = rw then R else add_mset t R, W)"
  using assms rw_count_update_neq [of "rw_count rw + 1" rw]
  by (auto simp: rwlock_tryrdlock_def rw_inv_def rd_blocked_def c_int_Some split: bind_splits if_splits)

lemma wrlock_inv:
  assumes "rw_inv (rw, s, R, W)" "rwlock_wrlock c rw s = Some (e, rw', s')"
  shows "rw_inv (rw', s', R, if rw' = rw then W else add_mset t W)"
proof (cases "rw_count rw = 0")
  case False
  then have e: "rw' = rw" "sched_wait_unlock c (wait_wr rw) s = Some s'"
    using assms(2) by (auto simp: rwlock_wrlock_def split: bind_splits)
  then show ?thesis
    using assms(1) False wait_frame [OF e(2)] by (auto simp: rw_inv_def rd_blocked_def)
next
  case True
  then have "s' = s" "rw' = rw\<lparr>rw_count := -1\<rparr>"
    using assms(2) by (auto simp: rwlock_wrlock_def c_int_Some split: bind_splits)
  then show ?thesis
    using assms(1) True rw_count_update_neq [of "-1" rw] by (auto simp: rw_inv_def rd_blocked_def)
qed

lemma trywrlock_inv:
  assumes "rw_inv (rw, s, R, W)" "rwlock_trywrlock rw = Some (e, rw')"
  shows "rw_inv (rw', s, R, if rw' = rw then W else add_mset t W)"
  using assms rw_count_update_neq [of "-1" rw]
  by (auto simp: rwlock_trywrlock_def rw_inv_def rd_blocked_def c_int_Some split: bind_splits if_splits)

text \<open>The last holder leaves: the lock is handed over to the first writer, or else to all readers.\<close>

lemma unlock_last:
  assumes "rw_count rw = 1 \<or> rw_count rw = -1" "rwlock_unlock debug rw s = Some (e, rw', s')"
  shows "case waiting (wait_wr rw) s of
      t # ts \<Rightarrow> rw' = rw\<lparr>rw_count := -1\<rparr> \<and> s' = woken (wait_wr rw) 1 s
    | [] \<Rightarrow> rw' = rw\<lparr>rw_count := int (length (waiting (wait_rd rw) s))\<rparr>
        \<and> s' = woken (wait_rd rw) (length (waiting (wait_rd rw) s)) s"
proof (cases "waiting (wait_wr rw) s")
  case Nil
  then have "sched_wake (wait_wr rw) s = (None, s)"
    by (simp add: sched_wake_woken)
  then show ?thesis
    using assms Nil by (auto simp: rwlock_unlock_def dest!: wake_counting_Some split: bind_splits)
next
  case (Cons t ts)
  then have "sched_wake (wait_wr rw) s = (Some t, woken (wait_wr rw) 1 s)"
    by (simp add: sched_wake_woken)
  then show ?thesis
    using assms Cons by (auto simp: rwlock_unlock_def)
qed

lemma singleton_mset: "size M = Suc 0 \<Longrightarrow> t \<in># M \<Longrightarrow> M = {#t#}"
  using size_1_singleton_mset [of M] by auto

lemma unlock_inv:
  assumes inv: "rw_inv (rw, s, R, W)" and t: "t \<in># R + W" and u: "rwlock_unlock debug rw s = Some (0, rw', s')"
  shows "rw_inv (rw', s', unlocked_by t rw' (drop (length (root s)) (root s')) (R, W))"
proof (cases "rw_count rw = 1 \<or> rw_count rw = -1")
  case True
  then have last: "R = {#t#} \<and> W = {#} \<or> R = {#} \<and> W = {#t#}"
    using inv t by (auto simp: rw_inv_def singleton_mset)
  show ?thesis
  proof (cases "waiting (wait_wr rw) s")
    case Nil
    then show ?thesis
      using unlock_last [OF True u] last inv
      by (auto simp: rw_inv_def unlocked_by_def rd_blocked_def waiting_woken woken_reach) (auto simp: woken_def)
  next
    case (Cons w ws)
    then show ?thesis
      using unlock_last [OF True u] last inv
      by (auto simp: rw_inv_def unlocked_by_def rd_blocked_def waiting_woken woken_reach) (auto simp: woken_def)
  qed
next
  case False
  then have c: "rw_count rw = int (size R)" "W = {#}" "size R \<noteq> 1"
    using inv by (auto simp: rw_inv_def)
  moreover have "size R \<noteq> 0"
    using t c(2) by auto
  ultimately have "rw_count rw > 1"
    by linarith
  note c = c this
  then have "rw' = rw\<lparr>rw_count := rw_count rw - 1\<rparr>" "s' = s"
    using u False by (auto simp: rwlock_unlock_def c_int_Some errno_defs split: bind_splits if_splits)
  then show ?thesis
    using c inv t by (auto simp: rw_inv_def unlocked_by_def rd_blocked_def size_Diff_singleton)
qed

lemma rw_step_inv: "rw_step x y \<Longrightarrow> rw_inv x \<Longrightarrow> rw_inv y"
proof (induction rule: rw_step.induct)
  case (other rw s s' R W)
  then show ?case
    using other_step_frame [OF other(1)] by (auto simp: rw_inv_def rd_blocked_def)
qed (blast intro: rdlock_inv tryrdlock_inv wrlock_inv trywrlock_inv unlock_inv)+

lemma rw_reach_inv: "rw_reach x \<Longrightarrow> rw_inv x"
proof (induction rule: rw_reach.induct)
  case (init s rd wr rw s')
  then have "s' = s" "rw = \<lparr>rw_count = 0, wait_rd = rd, wait_wr = wr\<rparr>"
    using wait_waiting [of s rd] wait_waiting [of s wr] by (auto simp: rwlock_init_def Let_def)
  then show ?case
    using init by (simp add: rw_inv_def rd_blocked_def)
qed (rule rw_step_inv)

section \<open>Properties\<close>

text \<open>
  C10: However the contexts and the rest of the system interleave, as long as only holders unlock: a lock
  held for writing has one holder and no reader, the count is -1 then and the number of readers
  otherwise, no context waits for a free lock, readers wait only behind a writer that holds the lock or
  waits for it, and the scheduler stays in a reachable state.
\<close>

theorem rwlock_mutual_exclusion:
  assumes "rw_reach (rw, s, readers, writers)"
  shows "(if writers = {#} then rw_count rw = int (size readers)
          else rw_count rw = -1 \<and> size writers = 1 \<and> readers = {#})
    \<and> (rw_count rw = 0 \<longrightarrow> waiting (wait_rd rw) s = [] \<and> waiting (wait_wr rw) s = [])
    \<and> (waiting (wait_rd rw) s \<noteq> [] \<longrightarrow> writers \<noteq> {#} \<or> waiting (wait_wr rw) s \<noteq> [])
    \<and> sched_reach s"
  using rw_reach_inv [OF assms] by (auto simp: rw_inv_def rd_blocked_def)

text \<open>
  An unlock by the last holder hands the lock over: with writers waiting, the one that waits longest
  becomes runnable and the lock is write locked; otherwise all waiting readers become runnable in their
  order and the count is their number.  It returns 0 in both cases.
\<close>

theorem rwlock_unlock_handover:
  assumes "rw_count rw = 1 \<or> rw_count rw = -1" "length (waiting (wait_rd rw) s) < 2 ^ 31"
  shows "\<exists>s'. case waiting (wait_wr rw) s of
      t # ts \<Rightarrow> rwlock_unlock debug rw s = Some (0, rw\<lparr>rw_count := -1\<rparr>, s')
        \<and> root s' = root s @ [t] \<and> waiting (wait_wr rw) s' = ts
    | [] \<Rightarrow> rwlock_unlock debug rw s = Some (0, rw\<lparr>rw_count := int (length (waiting (wait_rd rw) s))\<rparr>, s')
        \<and> root s' = root s @ waiting (wait_rd rw) s \<and> waiting (wait_rd rw) s' = []"
proof (cases "waiting (wait_wr rw) s")
  case Nil
  then have "rwlock_unlock debug rw s = Some (0, rw\<lparr>rw_count := int (length (waiting (wait_rd rw) s))\<rparr>,
      woken (wait_rd rw) (length (waiting (wait_rd rw) s)) s)"
    using assms wake_counting_woken [of 0 "wait_rd rw" s] by (simp add: rwlock_unlock_def sched_wake_woken)
  then show ?thesis
    using Nil by (simp add: waiting_woken) (simp add: woken_def)
next
  case (Cons t ts)
  then have "rwlock_unlock debug rw s = Some (0, rw\<lparr>rw_count := -1\<rparr>, woken (wait_wr rw) 1 s)"
    using assms by (simp add: rwlock_unlock_def sched_wake_woken)
  then show ?thesis
    using Cons by (simp add: waiting_woken) (simp add: woken_def)
qed

text \<open>
  \<^verbatim>\<open>rwlock_trywrlock\<close> returns 0 for a lock in use as well, without taking it, where \<^verbatim>\<open>rwlock_tryrdlock\<close> returns
  \<^verbatim>\<open>-EBUSY\<close>; and unlocking a free lock is refused with \<^verbatim>\<open>-EPERM\<close> in debug builds only: without
  \<^verbatim>\<open>CONFIG_DEBUG\<close> it leaves the lock write locked with no holder.
\<close>

theorem rwlock_misuse:
  "(rw_count rw < 0 \<longrightarrow> rwlock_trywrlock rw = Some (0, rw) \<and> rwlock_tryrdlock rw s = Some (- EBUSY, rw))
    \<and> (rw_count rw = 0 \<longrightarrow> rwlock_unlock True rw s = Some (- EPERM, rw, s)
        \<and> rwlock_unlock False rw s = Some (0, rw\<lparr>rw_count := -1\<rparr>, s))"
  by (simp add: rwlock_trywrlock_def rwlock_tryrdlock_def rd_blocked_def rwlock_unlock_def c_int_def)

section \<open>Witnesses\<close>

theorem rwlock_mutual_exclusion_witness:
  "\<exists>s. rw_reach (\<lparr>rw_count = -1, wait_rd = 0, wait_wr = 1\<rparr>, s, {#}, {#0#}) \<and> sched_reach s"
proof -
  let ?s = "sched_global_init 1 2"
  have "rw_reach (\<lparr>rw_count = 0, wait_rd = 0, wait_wr = 1\<rparr>, ?s, {#}, {#})"
    by (rule rw_reach.init [OF sched_reach.init [of 1 2], of 0 1])
      (simp_all add: sched_global_init_def waiting_def rwlock_init_def numeral_2_eq_2)
  moreover have "rw_step (\<lparr>rw_count = 0, wait_rd = 0, wait_wr = 1\<rparr>, ?s, {#}, {#})
      (\<lparr>rw_count = -1, wait_rd = 0, wait_wr = 1\<rparr>, ?s, {#}, {#0#})"
    using rw_step.wrlock [of 0 ?s 0 "\<lparr>rw_count = 0, wait_rd = 0, wait_wr = 1\<rparr>" "\<lparr>rw_count = -1, wait_rd = 0, wait_wr = 1\<rparr>" ?s "{#}" "{#}"]
    by (simp add: rwlock_wrlock_def c_int_def sched_get_current_def sched_global_init_def)
  ultimately have r: "rw_reach (\<lparr>rw_count = -1, wait_rd = 0, wait_wr = 1\<rparr>, ?s, {#}, {#0#})"
    by (rule rw_reach.step)
  then show ?thesis
    using rwlock_mutual_exclusion [OF r] by blast
qed

theorem rwlock_unlock_handover_witness:
  "\<exists>s'. rwlock_unlock False \<lparr>rw_count = -1, wait_rd = 1, wait_wr = 0\<rparr> example_sleeping
      = Some (0, \<lparr>rw_count = -1, wait_rd = 1, wait_wr = 0\<rparr>, s') \<and> root s' = [1]"
  using rwlock_unlock_handover [of "\<lparr>rw_count = -1, wait_rd = 1, wait_wr = 0\<rparr>" example_sleeping False]
  by (auto simp: example_sleeping_def waiting_def)

theorem rwlock_misuse_witness:
  "rwlock_trywrlock \<lparr>rw_count = -1, wait_rd = 0, wait_wr = 1\<rparr> = Some (0, \<lparr>rw_count = -1, wait_rd = 0, wait_wr = 1\<rparr>)
    \<and> rwlock_unlock False \<lparr>rw_count = 0, wait_rd = 0, wait_wr = 1\<rparr> example_sleeping
        = Some (0, \<lparr>rw_count = -1, wait_rd = 0, wait_wr = 1\<rparr>, example_sleeping)"
  using rwlock_misuse [of "\<lparr>rw_count = -1, wait_rd = 0, wait_wr = 1\<rparr>" example_sleeping]
    rwlock_misuse [of "\<lparr>rw_count = 0, wait_rd = 0, wait_wr = 1\<rparr>" example_sleeping] by simp

end
