(* ===== verification/Timer.thy ===== *)
theory Timer
  imports Gpct_Clist
begin

text \<open>
  \<^verbatim>\<open>mutek/timer.c\<close>: the events of a timer are in a circular list sorted by the tick they expire at.  The list
  is the pointer structure of \<^verbatim>\<open>Gpct_Clist\<close>, ticks are 32 bit words that wrap around, and a callback is a
  function on the whole state, so that it can add events again.  The lemmas show that the list stays
  sorted, that \<^verbatim>\<open>timer_inc_ticks\<close> runs the callbacks of the expired events in order and returns, and what
  happens when the sum of ticks and delay wraps around.
\<close>

section \<open>State and operations\<close>

text \<open>\<open>start\<close> and \<open>delay\<close> are the fields of the events; \<open>env\<close> is the state the callbacks work on.\<close>

record 'a timer_s =
  root :: "nat clist_store"
  ticks :: u32
  start :: "nat \<Rightarrow> u32"
  delay :: "nat \<Rightarrow> u32"
  env :: 'a

definition expiry :: "'a timer_s \<Rightarrow> nat \<Rightarrow> u32" where
  "expiry T e = start T e + delay T e"

partial_function (option) timer_find :: "'a timer_s \<Rightarrow> u32 \<Rightarrow> nat option \<Rightarrow> nat option option" where
  "timer_find T t e =
     (case e of
        None \<Rightarrow> Some None
      | Some i \<Rightarrow>
          if expiry T i < t then do { n \<leftarrow> clist_next (root T) i; timer_find T t n }
          else Some (Some i))"

definition timer_add_event :: "'a timer_s \<Rightarrow> nat \<Rightarrow> (error_t \<times> 'a timer_s) option" where
  "timer_add_event T event = do {
     let T = T\<lparr>start := (start T)(event := ticks T)\<rparr>;
     let t = ticks T + delay T event;
     h \<leftarrow> clist_head (root T);
     e \<leftarrow> timer_find T t h;
     case e of
       None \<Rightarrow> do { r \<leftarrow> clist_pushback (root T) event; Some (0, T\<lparr>root := r\<rparr>) }
     | Some i \<Rightarrow> do {
         (n, r) \<leftarrow> clist_insert_pre_chk (root T) i event;
         Some (if n = 0 then 1 else 0, T\<lparr>root := r\<rparr>)
       }
   }"

definition timer_cancel_event ::
    "(nat \<Rightarrow> 'a timer_s \<Rightarrow> 'a timer_s option) \<Rightarrow> 'a timer_s \<Rightarrow> nat \<Rightarrow> bool \<Rightarrow> (error_t \<times> 'a timer_s) option" where
  "timer_cancel_event run T event callback = do {
     (err, r) \<leftarrow> clist_remove_chk (root T) event;
     let T = T\<lparr>root := r\<rparr>;
     if err \<noteq> 0 then Some (- ENOENT, T)
     else if callback then do { T \<leftarrow> run event T; Some (0, T) }
     else Some (0, T)
   }"

partial_function (option) timer_expire_loop ::
    "(nat \<Rightarrow> 'a timer_s \<Rightarrow> 'a timer_s option) \<Rightarrow> 'a timer_s \<Rightarrow> 'a timer_s option" where
  "timer_expire_loop run T = do {
     h \<leftarrow> clist_head (root T);
     case h of
       None \<Rightarrow> Some T
     | Some event \<Rightarrow>
         if expiry T event \<le> ticks T then do {
           (r, _) \<leftarrow> clist_pop_chk (root T);
           T \<leftarrow> run event (T\<lparr>root := r\<rparr>);
           timer_expire_loop run T
         }
         else Some T
   }"

definition timer_inc_ticks ::
    "(nat \<Rightarrow> 'a timer_s \<Rightarrow> 'a timer_s option) \<Rightarrow> 'a timer_s \<Rightarrow> u32 \<Rightarrow> 'a timer_s option" where
  "timer_inc_ticks run T n = timer_expire_loop run (T\<lparr>ticks := ticks T + n\<rparr>)"

definition timer_get_tick :: "'a timer_s \<Rightarrow> u32" where
  "timer_get_tick T = ticks T"

section \<open>Invariant\<close>

text \<open>The pending events \<open>xs\<close>, sorted, and no other event has a link.\<close>

definition timer_inv :: "'a timer_s \<Rightarrow> nat list \<Rightarrow> bool" where
  "timer_inv T xs \<longleftrightarrow> clist_rep (root T) xs \<and> sorted (map (expiry T) xs)
     \<and> (\<forall>e. orphan_chk (root T) e \<longrightarrow> e \<in> set xs)"

section \<open>Lemmas\<close>

lemma expiry_update [simp]:
  "expiry (T\<lparr>root := r\<rparr>) = expiry T" "expiry (T\<lparr>env := v\<rparr>) = expiry T" "expiry (T\<lparr>ticks := n\<rparr>) = expiry T"
  by (simp_all add: expiry_def fun_eq_iff)

lemma timer_find_rep:
  assumes "clist_rep (root T) (xs @ ys)" "\<forall>e \<in> set xs. expiry T e < t" "\<forall>e \<in> set ys. \<not> expiry T e < t"
  shows "timer_find T t (case xs @ ys of [] \<Rightarrow> None | e # _ \<Rightarrow> Some e) = Some (case ys of [] \<Rightarrow> None | e # _ \<Rightarrow> Some e)"
proof -
  have "timer_find T t (case zs @ ys of [] \<Rightarrow> None | e # _ \<Rightarrow> Some e) = Some (case ys of [] \<Rightarrow> None | e # _ \<Rightarrow> Some e)"
    if "xs = ws @ zs" for ws zs
    using that
  proof (induction zs arbitrary: ws)
    case Nil
    then show ?case
      using assms(3) by (cases ys) (simp_all add: timer_find.simps)
  next
    case (Cons z zs)
    have "clist_rep (root T) (ws @ z # (zs @ ys))"
      using assms(1) Cons.prems by simp
    then show ?case
      using clist_next_rep [of "root T" ws z "zs @ ys"] Cons.IH [of "ws @ [z]"] Cons.prems assms(2)
      by (subst timer_find.simps) simp
  qed
  from this [of "[]" xs] show ?thesis
    by simp
qed

lemma sorted_takeWhile_dropWhile:
  fixes f :: "nat \<Rightarrow> u32"
  assumes "sorted (map f xs)"
  shows "e \<in> set (dropWhile (\<lambda>x. f x < t) xs) \<Longrightarrow> \<not> f e < t"
    and "e \<in> set (dropWhile (\<lambda>x. f x \<le> t) xs) \<Longrightarrow> \<not> f e \<le> t"
  using assms by (induction xs) (auto split: if_splits)

text \<open>Where \<^verbatim>\<open>timer_add_event\<close> puts the event.\<close>

lemma timer_add_event_split:
  assumes "timer_inv T xs" "event \<notin> set xs" "t = ticks T + delay T event"
    and "xs = as @ bs" "\<forall>e \<in> set as. expiry T e < t" "\<forall>e \<in> set bs. \<not> expiry T e < t"
  shows "\<exists>T'. timer_add_event T event = Some (0, T') \<and> timer_inv T' (as @ event # bs)
    \<and> expiry T' = (expiry T)(event := t) \<and> ticks T' = ticks T \<and> delay T' = delay T \<and> env T' = env T"
proof -
  let ?T = "T\<lparr>start := (start T)(event := ticks T)\<rparr>"
  have rep: "clist_rep (root T) (as @ bs)"
    using assms(1,4) by (simp add: timer_inv_def)
  have ex: "expiry ?T = (expiry T)(event := t)"
    using assms(3) by (auto simp: expiry_def)
  have find: "timer_find ?T t (case as @ bs of [] \<Rightarrow> None | e # _ \<Rightarrow> Some e) = Some (case bs of [] \<Rightarrow> None | e # _ \<Rightarrow> Some e)"
    using rep ex assms(2,4,5,6) by (intro timer_find_rep) auto
  obtain r where r: "timer_add_event T event = Some (0, ?T\<lparr>root := r\<rparr>)"
    "r = ins_between (root T) (ring_last as) (ring_hd bs) event"
  proof (cases bs)
    case Nil
    then show ?thesis
      using that find rep clist_head_rep [OF rep] clist_pushback_rep [of "root T" as event] assms(2,3,4)
      by (auto simp: timer_add_event_def ring_hd_def)
  next
    case (Cons b bs')
    then show ?thesis
      using that find rep clist_head_rep [OF rep] clist_insert_pre_rep [of "root T" as b bs' event]
        orphan_chk_rep [of "root T" as b bs'] assms(2,3,4)
      by (auto simp: timer_add_event_def clist_insert_pre_chk_def ring_hd_def)
  qed
  have "clist_rep r (as @ event # bs)"
    using r(2) rep_ins_between [OF rep] assms(2,4) by simp
  moreover have "sorted (map (expiry ?T) (as @ event # bs))"
    using assms(1,2,4,5,6) by (auto simp: ex timer_inv_def sorted_append not_less)
  moreover have "orphan_chk r e \<longrightarrow> e \<in> set (as @ event # bs)" for e
    using r(2) orphan_other(1) [of e as bs event "root T"] assms(1,4) by (auto simp: timer_inv_def)
  ultimately have "timer_inv (?T\<lparr>root := r\<rparr>) (as @ event # bs)"
    by (simp add: timer_inv_def)
  then show ?thesis
    using r(1) ex by auto
qed

text \<open>Callbacks that act on \<open>env\<close> and, for the events that are periodic, add their event again.\<close>

definition rearm_callback :: "(nat \<Rightarrow> bool) \<Rightarrow> (nat \<Rightarrow> 'a \<Rightarrow> 'a) \<Rightarrow> nat \<Rightarrow> 'a timer_s \<Rightarrow> 'a timer_s option" where
  "rearm_callback periodic act event T =
     (let T = T\<lparr>env := act event (env T)\<rparr>
      in if periodic event then do { (_, T) \<leftarrow> timer_add_event T event; Some T } else Some T)"

lemma timer_inv_pop:
  assumes "timer_inv T (e # xs)"
  shows "\<exists>r. clist_pop_chk (root T) = Some (r, Some e) \<and> timer_inv (T\<lparr>root := r, env := v\<rparr>) xs"
proof -
  have rep: "clist_rep (root T) (e # xs)"
    using assms by (simp add: timer_inv_def)
  obtain r where r: "clist_pop_chk (root T) = Some (r, Some e)" "clist_rep r xs"
    "\<forall>j. j \<notin> set xs \<longrightarrow> orphan_chk r j = (j \<noteq> e \<and> orphan_chk (root T) j)"
    using clist_pop_chk_rep [OF rep] by blast
  have "timer_inv (T\<lparr>root := r, env := v\<rparr>) xs"
    using r(2,3) assms by (auto simp: timer_inv_def)
  then show ?thesis
    using r(1) by blast
qed

text \<open>The step of one callback: the event goes behind everything that has expired, or away.\<close>

lemma rearm_callback_step:
  assumes "timer_inv T (fs @ rs)" "e \<notin> set (fs @ rs)"
    and "\<forall>f \<in> set fs. expiry T f \<le> ticks T" "\<forall>r \<in> set rs. ticks T < expiry T r"
    and "periodic e \<Longrightarrow> 0 < delay T e" "periodic e \<Longrightarrow> unat (ticks T) + unat (delay T e) < 2 ^ 32"
  shows "\<exists>T' rs'. rearm_callback periodic act e T = Some T' \<and> timer_inv T' (fs @ rs')
    \<and> ticks T' = ticks T \<and> delay T' = delay T \<and> env T' = act e (env T)
    \<and> (\<forall>f \<in> set fs. expiry T' f \<le> ticks T) \<and> (\<forall>r \<in> set rs'. ticks T < expiry T' r)
    \<and> set rs' = set rs \<union> (if periodic e then {e} else {})"
proof -
  let ?T = "T\<lparr>env := act e (env T)\<rparr>"
  have inv: "timer_inv ?T (fs @ rs)"
    using assms(1) by (simp add: timer_inv_def)
  show ?thesis
  proof (cases "periodic e")
    case True
    let ?t = "ticks T + delay T e"
    let ?as = "takeWhile (\<lambda>x. expiry T x < ?t) rs" and ?bs = "dropWhile (\<lambda>x. expiry T x < ?t) rs"
    have t: "ticks T < ?t"
      using assms(5,6) True by (simp add: word_less_nat_alt unat_add_small)
    have "\<exists>T'. timer_add_event ?T e = Some (0, T') \<and> timer_inv T' ((fs @ ?as) @ e # ?bs)
        \<and> expiry T' = (expiry ?T)(e := ?t) \<and> ticks T' = ticks ?T \<and> delay T' = delay ?T \<and> env T' = env ?T"
    proof (rule timer_add_event_split [OF inv])
      show "\<forall>x \<in> set (fs @ ?as). expiry ?T x < ?t"
        using assms(3) t set_takeWhileD [of _ "\<lambda>x. expiry T x < ?t" rs] by fastforce
      have "sorted (map (expiry T) rs)"
        using assms(1) by (simp add: timer_inv_def sorted_append)
      then show "\<forall>x \<in> set ?bs. \<not> expiry ?T x < ?t"
        unfolding expiry_update using sorted_takeWhile_dropWhile(1) by blast
    qed (use assms(2) in simp_all)
    then obtain T' where T': "timer_add_event ?T e = Some (0, T')" "timer_inv T' (fs @ (?as @ e # ?bs))"
      "expiry T' = (expiry T)(e := ?t)" "ticks T' = ticks T" "delay T' = delay T" "env T' = act e (env T)"
      unfolding append_assoc by (elim exE conjE) (rule that, simp_all)
    have set: "set (?as @ e # ?bs) = insert e (set rs)"
      by (metis Un_insert_right list.simps(15) set_append takeWhile_dropWhile_id)
    have "rearm_callback periodic act e T = Some T'"
      using True T'(1) by (simp add: rearm_callback_def)
    moreover have "\<forall>r \<in> set (?as @ e # ?bs). ticks T < expiry T' r"
      unfolding set T'(3) using assms(2,4) t by simp
    moreover have "\<forall>f \<in> set fs. expiry T' f \<le> ticks T"
      unfolding T'(3) using assms(2,3) by auto
    moreover have "set (?as @ e # ?bs) = set rs \<union> (if periodic e then {e} else {})"
      using set True by simp
    ultimately show ?thesis
      using T'(2,4,5,6) by blast
  next
    case False
    then have "rearm_callback periodic act e T = Some ?T"
      by (simp add: rearm_callback_def)
    then show ?thesis
      using False inv assms(3,4) by (intro exI [of _ ?T] exI [of _ rs]) auto
  qed
qed

lemma timer_expire_loop_rep:
  assumes "timer_inv T (fs @ rs)"
    and "\<forall>f \<in> set fs. expiry T f \<le> ticks T" "\<forall>r \<in> set rs. ticks T < expiry T r"
    and "\<forall>e \<in> set fs. periodic e \<longrightarrow> 0 < delay T e \<and> unat (ticks T) + unat (delay T e) < 2 ^ 32"
  shows "\<exists>T' ys. timer_expire_loop (rearm_callback periodic act) T = Some T' \<and> timer_inv T' ys
    \<and> ticks T' = ticks T \<and> env T' = fold act fs (env T)
    \<and> set ys = set rs \<union> {e \<in> set fs. periodic e} \<and> (\<forall>e \<in> set ys. ticks T < expiry T' e)"
  using assms
proof (induction fs arbitrary: T rs)
  case Nil
  then have "timer_expire_loop (rearm_callback periodic act) T = Some T"
    using clist_head_rep [of "root T" rs]
    by (subst timer_expire_loop.simps) (auto simp: timer_inv_def not_less split: list.splits)
  then show ?case
    using Nil by auto
next
  case (Cons f fs)
  obtain r where r: "clist_pop_chk (root T) = Some (r, Some f)" "timer_inv (T\<lparr>root := r, env := env T\<rparr>) (fs @ rs)"
    using timer_inv_pop [of T f "fs @ rs" "env T"] Cons.prems(1) by auto
  let ?T = "T\<lparr>root := r\<rparr>"
  have rep: "clist_rep (root T) (f # fs @ rs)"
    using Cons.prems(1) by (simp add: timer_inv_def)
  have "\<exists>T' rs'. rearm_callback periodic act f ?T = Some T' \<and> timer_inv T' (fs @ rs')
    \<and> ticks T' = ticks ?T \<and> delay T' = delay ?T \<and> env T' = act f (env ?T)
    \<and> (\<forall>f \<in> set fs. expiry T' f \<le> ticks ?T) \<and> (\<forall>r \<in> set rs'. ticks ?T < expiry T' r)
    \<and> set rs' = set rs \<union> (if periodic f then {f} else {})"
    using r(2) Cons.prems clist_rep_distinct [OF rep] by (intro rearm_callback_step) auto
  then obtain T1 rs1 where T1: "rearm_callback periodic act f ?T = Some T1" "timer_inv T1 (fs @ rs1)"
    "ticks T1 = ticks T" "delay T1 = delay T" "env T1 = act f (env T)"
    "\<forall>f \<in> set fs. expiry T1 f \<le> ticks T" "\<forall>r \<in> set rs1. ticks T < expiry T1 r"
    "set rs1 = set rs \<union> (if periodic f then {f} else {})"
    by auto
  have "timer_expire_loop (rearm_callback periodic act) T = timer_expire_loop (rearm_callback periodic act) T1"
    using clist_head_rep [OF rep] r(1) T1(1) Cons.prems(2) by (subst timer_expire_loop.simps) simp
  moreover obtain T' ys where "timer_expire_loop (rearm_callback periodic act) T1 = Some T'" "timer_inv T' ys"
    "ticks T' = ticks T1" "env T' = fold act fs (env T1)"
    "set ys = set rs1 \<union> {e \<in> set fs. periodic e}" "\<forall>e \<in> set ys. ticks T1 < expiry T' e"
    using Cons.IH [OF T1(2)] Cons.prems(4) T1 by auto
  ultimately show ?case
    using T1 by (intro exI [of _ T'] exI [of _ ys]) auto
qed

section \<open>Properties\<close>

text \<open>
  C19: Adding an event that is not pending returns 0 and puts it before the first event that does not expire
  before it: the list stays well linked and sorted by expiry, and nothing else changes.
\<close>

theorem timer_add_event_correct:
  assumes "timer_inv T xs" "event \<notin> set xs" "t = ticks T + delay T event"
  shows "\<exists>T'. timer_add_event T event = Some (0, T')
    \<and> timer_inv T' (takeWhile (\<lambda>e. expiry T e < t) xs @ event # dropWhile (\<lambda>e. expiry T e < t) xs)
    \<and> expiry T' = (expiry T)(event := t) \<and> ticks T' = ticks T \<and> delay T' = delay T \<and> env T' = env T"
proof (rule timer_add_event_split [OF assms])
  show "\<forall>e \<in> set (takeWhile (\<lambda>e. expiry T e < t) xs). expiry T e < t"
    by (auto dest: set_takeWhileD)
  show "\<forall>e \<in> set (dropWhile (\<lambda>e. expiry T e < t) xs). \<not> expiry T e < t"
    using sorted_takeWhile_dropWhile(1) assms(1) unfolding timer_inv_def by blast
qed simp

text \<open>
  C18: \<^verbatim>\<open>timer_inc_ticks\<close> returns even when callbacks add their events again with a positive delay (and the new
  expiry does not wrap around): it runs the callbacks of exactly the expired events, each once and in
  the order of expiry; afterwards the pending events are those that had not expired and the periodic
  ones, sorted, and none of them has expired.
\<close>

theorem timer_inc_ticks_correct:
  assumes "timer_inv T xs" "fired = filter (\<lambda>e. expiry T e \<le> ticks T + n) xs"
    and "\<forall>e \<in> set fired. periodic e \<longrightarrow> 0 < delay T e \<and> unat (ticks T + n) + unat (delay T e) < 2 ^ 32"
  shows "\<exists>T' ys. timer_inc_ticks (rearm_callback periodic act) T n = Some T' \<and> timer_inv T' ys
    \<and> ticks T' = ticks T + n \<and> env T' = fold act fired (env T)
    \<and> set ys = {e \<in> set xs. e \<notin> set fired \<or> periodic e} \<and> (\<forall>e \<in> set ys. ticks T' < expiry T' e)"
proof -
  let ?T = "T\<lparr>ticks := ticks T + n\<rparr>"
  let ?fs = "takeWhile (\<lambda>e. expiry T e \<le> ticks T + n) xs" and ?rs = "dropWhile (\<lambda>e. expiry T e \<le> ticks T + n) xs"
  have inv: "timer_inv ?T (?fs @ ?rs)"
    using assms(1) by (simp add: timer_inv_def)
  have rs: "\<not> expiry T e \<le> ticks T + n" if "e \<in> set ?rs" for e
    by (rule sorted_takeWhile_dropWhile(2) [OF _ that]) (use assms(1) in \<open>simp add: timer_inv_def\<close>)
  have fs: "expiry T e \<le> ticks T + n" if "e \<in> set ?fs" for e
    using that by (rule set_takeWhileD [THEN conjunct2])
  have "filter (\<lambda>e. expiry T e \<le> ticks T + n) ?fs = ?fs" "filter (\<lambda>e. expiry T e \<le> ticks T + n) ?rs = []"
    unfolding filter_id_conv filter_empty_conv using fs rs by blast+
  then have "filter (\<lambda>e. expiry T e \<le> ticks T + n) (?fs @ ?rs) = ?fs"
    by (simp only: filter_append append_Nil2)
  then have fired: "fired = ?fs"
    using assms(2) by simp
  have tk: "ticks ?T = ticks T + n"
    by simp
  have "\<forall>f \<in> set ?fs. expiry ?T f \<le> ticks ?T" "\<forall>r \<in> set ?rs. ticks ?T < expiry ?T r"
    unfolding expiry_update tk not_le [symmetric] using fs rs by blast+
  moreover have "\<forall>e \<in> set ?fs. periodic e \<longrightarrow> 0 < delay ?T e \<and> unat (ticks ?T) + unat (delay ?T e) < 2 ^ 32"
    using assms(3) unfolding fired by simp
  ultimately obtain T' ys where T': "timer_expire_loop (rearm_callback periodic act) ?T = Some T'" "timer_inv T' ys"
    "ticks T' = ticks ?T" "env T' = fold act ?fs (env ?T)"
    "set ys = set ?rs \<union> {e \<in> set ?fs. periodic e}" "\<forall>e \<in> set ys. ticks ?T < expiry T' e"
    using timer_expire_loop_rep [OF inv, of periodic act] by blast
  have "set xs = set ?fs \<union> set ?rs"
    by (metis set_append takeWhile_dropWhile_id)
  moreover have "set ?rs \<inter> set ?fs = {}"
    using fs rs by blast
  ultimately have "set ys = {e \<in> set xs. e \<notin> set ?fs \<or> periodic e}"
    unfolding T'(5) by blast
  then show ?thesis
    unfolding fired timer_inc_ticks_def using T' by (intro exI [of _ T'] exI [of _ ys]) simp
qed

text \<open>
  \<^verbatim>\<open>timer_cancel_event\<close> removes a pending event, returns 0 and runs the callback on request; for an event
  that is not pending it returns \<^verbatim>\<open>-ENOENT\<close> and changes nothing.
\<close>

theorem timer_cancel_event_correct:
  assumes "timer_inv T xs"
  shows "if event \<in> set xs
    then \<exists>r. timer_inv (T\<lparr>root := r\<rparr>) (remove1 event xs)
      \<and> timer_cancel_event run T event callback
          = (if callback then Option.bind (run event (T\<lparr>root := r\<rparr>)) (\<lambda>T'. Some (0, T')) else Some (0, T\<lparr>root := r\<rparr>))
    else timer_cancel_event run T event callback = Some (- ENOENT, T)"
proof (cases "event \<in> set xs")
  case True
  then obtain as bs where xs: "xs = as @ event # bs" "event \<notin> set as"
    by (meson split_list_first)
  have rep: "clist_rep (root T) (as @ event # bs)"
    using assms xs(1) by (simp add: timer_inv_def)
  obtain r where r: "clist_remove_chk (root T) event = Some (0, r)" "clist_rep r (as @ bs)"
    "\<forall>j. j \<notin> set (as @ bs) \<longrightarrow> orphan_chk r j = (j \<noteq> event \<and> orphan_chk (root T) j)"
    using clist_remove_chk_rep [OF rep] by blast
  have "timer_inv (T\<lparr>root := r\<rparr>) (remove1 event xs)"
    using r(2,3) assms xs by (auto simp: timer_inv_def sorted_append remove1_append)
  moreover have "timer_cancel_event run T event callback
      = (if callback then Option.bind (run event (T\<lparr>root := r\<rparr>)) (\<lambda>T'. Some (0, T')) else Some (0, T\<lparr>root := r\<rparr>))"
    using r(1) by (simp add: timer_cancel_event_def)
  ultimately show ?thesis
    using True by auto
next
  case False
  then have "\<not> orphan_chk (root T) event"
    using assms by (auto simp: timer_inv_def)
  then show ?thesis
    using False by (simp add: timer_cancel_event_def clist_remove_chk_def)
qed

text \<open>
  When the sum of the current tick and the delay wraps around, an event added to an empty timer expires
  at once: its callback runs at the next call of \<^verbatim>\<open>timer_inc_ticks\<close>, even one that adds no tick.
\<close>

theorem timer_wrap_expires_early:
  assumes "timer_inv T []" "2 ^ 32 \<le> unat (ticks T) + unat (delay T event)"
  shows "\<exists>T1 T2. timer_add_event T event = Some (0, T1)
    \<and> timer_inc_ticks (rearm_callback (\<lambda>_. False) act) T1 0 = Some T2 \<and> env T2 = act event (env T)"
proof -
  let ?t = "ticks T + delay T event"
  obtain T1 where T1: "timer_add_event T event = Some (0, T1)" "timer_inv T1 [event]"
    "expiry T1 = (expiry T)(event := ?t)" "ticks T1 = ticks T" "env T1 = env T"
    using timer_add_event_split [OF assms(1), of event ?t "[]" "[]"] by auto
  have "unat ?t = unat (ticks T) + unat (delay T event) - 2 ^ 32"
    using assms(2) u32_unat_bound [of "ticks T"] u32_unat_bound [of "delay T event"]
    by (simp add: unat_word_ariths mod_if)
  then have "?t \<le> ticks T"
    using u32_unat_bound [of "delay T event"] by (simp add: word_le_nat_alt)
  then show ?thesis
    using timer_expire_loop_rep [of T1 "[event]" "[]" "\<lambda>_. False" act] T1 by (auto simp: timer_inc_ticks_def)
qed

section \<open>Witnesses\<close>

definition example_timer :: "nat list timer_s" where
  "example_timer = \<lparr>root = clist_empty \<lparr>nx = \<lambda>_. None, pv = \<lambda>_. None\<rparr>, ticks = 100,
     start = (\<lambda>_. 0), delay = (\<lambda>e. of_nat e), env = []\<rparr>"

lemma example_timer_inv: "timer_inv example_timer []"
proof -
  have "\<not> orphan_chk (root example_timer) e" for e
    by (simp add: example_timer_def orphan_chk_def clist_empty_def set_nx_def set_pv_def)
  then show ?thesis
    by (simp add: timer_inv_def example_timer_def clist_rep_empty)
qed

theorem timer_add_event_correct_witness:
  "\<exists>T'. timer_add_event example_timer 7 = Some (0, T') \<and> timer_inv T' [7] \<and> expiry T' 7 = 107"
  using timer_add_event_correct [OF example_timer_inv, of 7 107] by (auto simp: example_timer_def)

theorem timer_inc_ticks_correct_witness:
  "\<exists>T T' ys. timer_add_event example_timer 7 = Some (0, T)
    \<and> timer_inc_ticks (rearm_callback (\<lambda>_. True) (#)) T 10 = Some T' \<and> timer_inv T' ys \<and> set ys = {7} \<and> env T' = [7]"
proof -
  obtain T where T: "timer_add_event example_timer 7 = Some (0, T)" "timer_inv T [7]"
    "expiry T = (expiry example_timer)(7 := 107)" "ticks T = 100" "delay T = delay example_timer" "env T = []"
    using timer_add_event_split [OF example_timer_inv, of 7 107 "[]" "[]"] by (auto simp: example_timer_def)
  have "delay T 7 = 7"
    using T(5) by (simp add: example_timer_def)
  then show ?thesis
    using timer_inc_ticks_correct [OF T(2), of "[7]" 10 "\<lambda>_. True" "(#)"] T by auto
qed

theorem timer_cancel_event_correct_witness:
  "timer_cancel_event (\<lambda>_. Some) example_timer 7 True = Some (- ENOENT, example_timer)"
  using timer_cancel_event_correct [OF example_timer_inv, of 7 "\<lambda>_. Some" True] by simp

theorem timer_wrap_expires_early_witness:
  "\<exists>T1 T2. timer_add_event (example_timer\<lparr>delay := \<lambda>_. -1\<rparr>) 3 = Some (0, T1)
    \<and> timer_inc_ticks (rearm_callback (\<lambda>_. False) (#)) T1 0 = Some T2 \<and> env T2 = [3]"
proof -
  have "timer_inv (example_timer\<lparr>delay := \<lambda>_. -1\<rparr>) []"
    using example_timer_inv by (simp add: timer_inv_def)
  then show ?thesis
    using timer_wrap_expires_early [of "example_timer\<lparr>delay := \<lambda>_. -1\<rparr>" 3 "(#)"]
    by (simp add: example_timer_def unat_minus_one_eq)
qed

end
