(* ===== verification/Memory_Allocator.thy ===== *)
theory Memory_Allocator
  imports Endian Gpct_Clist
begin

text \<open>
  \<^verbatim>\<open>mutek/memory_allocator_smart.c\<close>, in the build with statistics and without the debugging options and the MMU
  (\<^verbatim>\<open>memory_allocator_experimental.c\<close> is the same text).  A region has the
  circular list of all its blocks and the circular list of its free blocks, both at the level of
  pointers: a header at address \<open>a\<close> is the node \<open>It a\<close>.  The entry of the free list shares its memory with the
  fields \<^verbatim>\<open>region\<close> (\<^verbatim>\<open>next\<close>) and \<^verbatim>\<open>free_null_marker\<close> (\<^verbatim>\<open>prev\<close>) of an allocated block, and so it does here.  The lock
  is held during each operation.  Sizes and addresses are 32 bit words; a failed assertion and a
  dereferenced null pointer give \<open>None\<close>.
\<close>

section \<open>Headers and regions\<close>

definition MEMALLOC_ALIGN :: u32 where "MEMALLOC_ALIGN = 0x20"
definition MEMALLOC_GUARD_SIZE :: u32 where "MEMALLOC_GUARD_SIZE = 256"

text \<open>Two list entries of two pointers each.\<close>

definition mem_hdr_size :: u32 where "mem_hdr_size = 16"

definition mem_hdr_size_align :: u32 where
  "mem_hdr_size_align = ALIGN_VALUE_UP mem_hdr_size MEMALLOC_ALIGN"

definition MEMALLOC_SPLIT_SIZE :: u32 where
  "MEMALLOC_SPLIT_SIZE = mem_hdr_size_align + 16 + MEMALLOC_GUARD_SIZE * 2"

record memory_allocator_region_s =
  self :: u32
  free_root :: "u32 clist_store"
  block_root :: "u32 clist_store"
  region_size :: u32
  alloc_blocks :: u32
  free_size :: u32
  free_blocks :: u32

definition mem2hdr :: "u32 \<Rightarrow> u32" where
  "mem2hdr mem = mem - mem_hdr_size_align"

definition hdr2mem :: "u32 \<Rightarrow> u32" where
  "hdr2mem hdr = hdr + mem_hdr_size_align"

definition size_alloc2real :: "u32 \<Rightarrow> u32" where
  "size_alloc2real sz = mem_hdr_size_align + ALIGN_VALUE_UP sz MEMALLOC_ALIGN"

definition size_real2alloc :: "u32 \<Rightarrow> u32" where
  "size_real2alloc sz = sz - mem_hdr_size_align"

definition header_is_alloc :: "memory_allocator_region_s \<Rightarrow> u32 \<Rightarrow> bool" where
  "header_is_alloc r hdr \<longleftrightarrow> pv (free_root r) (It hdr) = None"

definition header_set_alloc :: "u32 \<Rightarrow> memory_allocator_region_s \<Rightarrow> memory_allocator_region_s" where
  "header_set_alloc hdr r =
     r\<lparr>free_root := set_nx (set_pv (free_root r) (It hdr) None) (It hdr) (Some (It (self r)))\<rparr>"

definition header_is_endblock :: "memory_allocator_region_s \<Rightarrow> u32 \<Rightarrow> bool" where
  "header_is_endblock r hdr \<longleftrightarrow> nx (free_root r) (It hdr) = None"

definition header_set_endblock :: "u32 \<Rightarrow> memory_allocator_region_s \<Rightarrow> memory_allocator_region_s" where
  "header_set_endblock hdr r = r\<lparr>free_root := set_pv (set_nx (free_root r) (It hdr) None) (It hdr) None\<rparr>"

text \<open>The size of a block: the distance to the next one, which is the null pointer for the last.\<close>

definition header_get_size :: "memory_allocator_region_s \<Rightarrow> u32 \<Rightarrow> u32 option" where
  "header_get_size r hdr =
     (if header_is_endblock r hdr then None
      else do {
        n \<leftarrow> clist_next (block_root r) hdr;
        Some ((case n of None \<Rightarrow> 0 | Some a \<Rightarrow> a) - hdr)
      })"

definition update_region_stats :: "u32 \<Rightarrow> u32 \<Rightarrow> u32 \<Rightarrow> memory_allocator_region_s \<Rightarrow> memory_allocator_region_s" where
  "update_region_stats sz free_block alloc_block r =
     r\<lparr>free_size := free_size r + sz, free_blocks := free_blocks r + free_block,
       alloc_blocks := alloc_blocks r + alloc_block\<rparr>"

definition init_region_stats :: "u32 \<Rightarrow> u32 \<Rightarrow> u32 \<Rightarrow> memory_allocator_region_s \<Rightarrow> memory_allocator_region_s" where
  "init_region_stats sz free_block alloc_block r =
     r\<lparr>free_size := sz, free_blocks := free_block, alloc_blocks := alloc_block\<rparr>"

text \<open>The list operations on the two lists of a region (\<^verbatim>\<open>MEM_LIST_FUNCTION_REM\<close>, \<^verbatim>\<open>_INS\<close>, \<^verbatim>\<open>_PUSH\<close>).\<close>

definition on_free ::
    "(u32 clist_store \<Rightarrow> u32 clist_store option) \<Rightarrow> memory_allocator_region_s \<Rightarrow> memory_allocator_region_s option" where
  "on_free f r = do { l \<leftarrow> f (free_root r); Some (r\<lparr>free_root := l\<rparr>) }"

definition on_block ::
    "(u32 clist_store \<Rightarrow> u32 clist_store option) \<Rightarrow> memory_allocator_region_s \<Rightarrow> memory_allocator_region_s option" where
  "on_block f r = do { l \<leftarrow> f (block_root r); Some (r\<lparr>block_root := l\<rparr>) }"

section \<open>Search\<close>

text \<open>First fit.\<close>

partial_function (option) candidate_loop :: "memory_allocator_region_s \<Rightarrow> u32 \<Rightarrow> u32 option \<Rightarrow> u32 option option" where
  "candidate_loop r sz item =
     (case item of
        None \<Rightarrow> Some None
      | Some i \<Rightarrow> do {
          n \<leftarrow> header_get_size r i;
          if sz \<le> n then Some (Some i)
          else do { next \<leftarrow> clist_next (free_root r) i; candidate_loop r sz next }
        })"

definition memory_allocator_candidate :: "memory_allocator_region_s \<Rightarrow> u32 \<Rightarrow> u32 option option" where
  "memory_allocator_candidate r sz = do { h \<leftarrow> clist_head (free_root r); candidate_loop r sz h }"

text \<open>Best fit.\<close>

definition better_fit :: "u32 \<Rightarrow> u32 option \<Rightarrow> u32 \<Rightarrow> u32 \<Rightarrow> bool" where
  "better_fit sz best best_size n \<longleftrightarrow> sz \<le> n \<and> (best = None \<or> n < best_size)"

partial_function (option) bestfit_loop ::
    "memory_allocator_region_s \<Rightarrow> u32 \<Rightarrow> u32 option \<Rightarrow> u32 \<Rightarrow> u32 option \<Rightarrow> u32 option option" where
  "bestfit_loop r sz best best_size item =
     (if item = None then Some best
      else do {
        i \<leftarrow> item;
        n \<leftarrow> header_get_size r i;
        next \<leftarrow> clist_next (free_root r) i;
        if better_fit sz best best_size n then bestfit_loop r sz (Some i) n next
        else bestfit_loop r sz best best_size next
      })"

definition memory_allocator_candidate_bestfit :: "memory_allocator_region_s \<Rightarrow> u32 \<Rightarrow> u32 option option" where
  "memory_allocator_candidate_bestfit r sz = do { h \<leftarrow> clist_head (free_root r); bestfit_loop r sz None 0 h }"

partial_function (option) rsv_loop ::
    "memory_allocator_region_s \<Rightarrow> u32 \<Rightarrow> u32 \<Rightarrow> u32 option \<Rightarrow> u32 option option" where
  "rsv_loop r start sz item =
     (if item = None then Some None
      else do {
        i \<leftarrow> item;
        fits \<leftarrow> (if i + mem_hdr_size \<le> start then do { n \<leftarrow> header_get_size r i; Some (start + sz \<le> i + n) }
               else Some False);
        if fits then Some (Some i)
        else do { next \<leftarrow> clist_next (free_root r) i; rsv_loop r start sz next }
      })"

definition get_hdr_for_rsv :: "memory_allocator_region_s \<Rightarrow> u32 \<Rightarrow> u32 \<Rightarrow> u32 option option" where
  "get_hdr_for_rsv r start sz = do { h \<leftarrow> clist_head (free_root r); rsv_loop r start sz h }"

section \<open>Operations\<close>

definition memory_allocator_extend ::
    "u32 \<Rightarrow> u32 \<Rightarrow> memory_allocator_region_s \<Rightarrow> (u32 \<times> memory_allocator_region_s) option" where
  "memory_allocator_extend start sz r =
     (if start = 0 then None
      else do {
        let hdr_end = start + sz - mem_hdr_size_align;
        r \<leftarrow> on_block (\<lambda>l. clist_pushback l start) r;
        r \<leftarrow> on_free (\<lambda>l. clist_push l start) r;
        let r = header_set_endblock hdr_end r;
        r \<leftarrow> on_block (\<lambda>l. clist_pushback l hdr_end) r;
        let r = r\<lparr>region_size := region_size r + sz\<rparr>;
        Some (start, update_region_stats sz 1 0 r)
      })"

text \<open>The part of a block from \<open>next\<close> on becomes a free block (three functions do this to the block \<open>hdr\<close>).\<close>

definition split_block :: "u32 \<Rightarrow> u32 \<Rightarrow> memory_allocator_region_s \<Rightarrow> memory_allocator_region_s option" where
  "split_block hdr next r = do {
     r \<leftarrow> on_block (\<lambda>l. clist_insert_post l hdr next) r;
     on_free (\<lambda>l. clist_push l next) r
   }"

definition memory_allocator_pop ::
    "(memory_allocator_region_s \<Rightarrow> u32 \<Rightarrow> u32 option option) \<Rightarrow> u32 \<Rightarrow> memory_allocator_region_s \<Rightarrow>
      (u32 option \<times> memory_allocator_region_s) option" where
  "memory_allocator_pop candidate sz r = do {
     let sz = size_alloc2real sz;
     c \<leftarrow> candidate r sz;
     case c of
       None \<Rightarrow> Some (None, r)
     | Some hdr \<Rightarrow>
         if header_is_alloc r hdr then None
         else do {
           hdr_size \<leftarrow> header_get_size r hdr;
           if \<not> sz \<le> hdr_size then None
           else do {
             r \<leftarrow> on_free (\<lambda>l. clist_remove l hdr) r;
             let r = header_set_alloc hdr r;
             r \<leftarrow> (if sz + MEMALLOC_SPLIT_SIZE \<le> hdr_size then do {
                    r \<leftarrow> split_block hdr (hdr + sz) r;
                    Some (update_region_stats 0 1 0 r)
                  }
                  else Some r);
             Some (Some (hdr2mem hdr), update_region_stats 0 (-1) 1 r)
           }
         }
   }"

text \<open>The two merges of \<^verbatim>\<open>memory_allocator_push\<close>: of the next block into \<open>hdr\<close>, and of \<open>hdr\<close> into the previous block.\<close>

definition merge_next :: "u32 option \<Rightarrow> memory_allocator_region_s \<Rightarrow> memory_allocator_region_s option" where
  "merge_next next r =
     (case next of
        Some n \<Rightarrow>
          if header_is_alloc r n then Some r
          else do {
            r \<leftarrow> on_free (\<lambda>l. clist_remove l n) r;
            r \<leftarrow> on_block (\<lambda>l. clist_remove l n) r;
            Some (update_region_stats 0 (-1) 0 r)
          }
      | None \<Rightarrow> Some r)"

definition merge_prev ::
    "u32 \<Rightarrow> u32 option \<Rightarrow> memory_allocator_region_s \<Rightarrow> (u32 \<times> memory_allocator_region_s) option" where
  "merge_prev hdr prev r =
     (case (case prev of Some p \<Rightarrow> if header_is_alloc r p then None else Some p | None \<Rightarrow> None) of
        Some p \<Rightarrow> do { r \<leftarrow> on_block (\<lambda>l. clist_remove l hdr) r; Some (p, r) }
      | None \<Rightarrow> do {
          r \<leftarrow> on_free (\<lambda>l. clist_push l hdr) r;
          Some (hdr, update_region_stats 0 1 0 r)
        })"

definition memory_allocator_push :: "u32 \<Rightarrow> memory_allocator_region_s \<Rightarrow> memory_allocator_region_s option" where
  "memory_allocator_push address r = do {
     let hdr = mem2hdr address;
     if \<not> header_is_alloc r hdr \<or> header_is_endblock r hdr then None
     else do {
       _ \<leftarrow> header_get_size r hdr;
       next \<leftarrow> clist_next (block_root r) hdr;
       prev \<leftarrow> clist_prev (block_root r) hdr;
       r \<leftarrow> merge_next next r;
       (hdr, r) \<leftarrow> merge_prev hdr prev r;
       _ \<leftarrow> header_get_size r hdr;
       Some (update_region_stats 0 0 (-1) r)
     }
   }"

definition memory_allocator_getsize :: "u32 \<Rightarrow> memory_allocator_region_s \<Rightarrow> u32 option" where
  "memory_allocator_getsize ptr r = do {
     let hdr = mem2hdr ptr;
     if \<not> header_is_alloc r hdr \<or> header_is_endblock r hdr then None
     else do {
       sz \<leftarrow> header_get_size r hdr;
       Some (size_real2alloc sz)
     }
   }"

text \<open>
  \<^verbatim>\<open>diff\<close> is a signed difference, but the comparisons with the unsigned \<^verbatim>\<open>next_size\<close> convert it: all of the
  arithmetic is that of words.
\<close>

definition memory_allocator_resize ::
    "u32 \<Rightarrow> u32 \<Rightarrow> memory_allocator_region_s \<Rightarrow> (u32 option \<times> memory_allocator_region_s) option" where
  "memory_allocator_resize address sz r = do {
     let hdr = mem2hdr address;
     if \<not> header_is_alloc r hdr \<or> header_is_endblock r hdr then None
     else do {
       let sz = size_alloc2real sz;
       hdr_size \<leftarrow> header_get_size r hdr;
       let diff = sz - hdr_size;
       if diff = 0 then Some (Some address, r)
       else do {
         next \<leftarrow> clist_next (block_root r) hdr;
         case (case next of Some n \<Rightarrow> if header_is_alloc r n then None else Some n | None \<Rightarrow> None) of
           Some n \<Rightarrow> do {
             next_size \<leftarrow> header_get_size r n;
             if next_size < diff then Some (None, r)
             else do {
               r \<leftarrow> on_free (\<lambda>l. clist_remove l n) r;
               r \<leftarrow> on_block (\<lambda>l. clist_remove l n) r;
               (next_size, r) \<leftarrow>
                 (if diff + MEMALLOC_SPLIT_SIZE \<le> next_size then do {
                    r \<leftarrow> split_block hdr (hdr + sz) r;
                    Some (next_size - diff, update_region_stats (- diff) 1 0 r)
                  }
                  else Some (next_size, r));
               Some (Some address, update_region_stats (- next_size) (-1) 0 r)
             }
           }
         | None \<Rightarrow>
             if hdr_size \<le> sz then Some (None, r)
             else if sz + MEMALLOC_SPLIT_SIZE \<le> hdr_size then do {
               r \<leftarrow> split_block hdr (hdr + sz) r;
               Some (Some address, update_region_stats (- diff) 1 0 r)
             }
             else Some (Some address, r)
       }
     }
   }"

text \<open>\<open>hdr - prev\<close> counts headers, not bytes.\<close>

definition memory_allocator_reserve ::
    "u32 \<Rightarrow> u32 \<Rightarrow> memory_allocator_region_s \<Rightarrow> (u32 option \<times> memory_allocator_region_s) option" where
  "memory_allocator_reserve start sz r = do {
     let sz = ALIGN_VALUE_UP sz MEMALLOC_ALIGN;
     c \<leftarrow> get_hdr_for_rsv r start sz;
     case c of
       None \<Rightarrow> Some (None, r)
     | Some hdr \<Rightarrow>
         if header_is_alloc r hdr then None
         else do {
           hdr_size \<leftarrow> header_get_size r hdr;
           if \<not> sz \<le> hdr_size then None
           else do {
             (hdr, r) \<leftarrow>
               (if MEMALLOC_SPLIT_SIZE < start - hdr then do {
                  let prev = hdr;
                  let hdr = mem2hdr start;
                  let prev_size = (hdr - prev) div mem_hdr_size;
                  let r = header_set_alloc hdr r;
                  r \<leftarrow> on_block (\<lambda>l. clist_insert_post l prev hdr) r;
                  if MEMALLOC_SPLIT_SIZE \<le> hdr_size - sz - prev_size then do {
                    r \<leftarrow> split_block hdr (hdr + sz) r;
                    Some (hdr, update_region_stats 0 1 0 r)
                  }
                  else Some (hdr, r)
                }
                else do {
                  r \<leftarrow> on_free (\<lambda>l. clist_remove l hdr) r;
                  Some (hdr, update_region_stats 0 (-1) 0 r)
                });
             hdr_size \<leftarrow> header_get_size r hdr;
             Some (Some hdr, update_region_stats hdr_size 0 1 r)
           }
         }
   }"

text \<open>
  The region record stands at \<open>region\<close>, either at the start of the memory, \<open>rsz\<close> bytes before the first
  header, or in a block of another region; \<open>junk\<close> is what the memory holds at first.
\<close>

definition region_init :: "u32 \<Rightarrow> u32 \<Rightarrow> u32 \<Rightarrow> u32 clist_store \<Rightarrow> u32 clist_store \<Rightarrow> memory_allocator_region_s option" where
  "region_init region hdr end junk_free junk_block = do {
     let hdr_end = end - mem_hdr_size_align;
     let sz = hdr_end - hdr;
     let r = \<lparr>self = region, free_root = clist_empty junk_free, block_root = clist_empty junk_block,
              region_size = sz, alloc_blocks = 0, free_size = 0, free_blocks = 0\<rparr>;
     let r = init_region_stats sz 1 0 r;
     if \<not> mem_hdr_size_align < sz then None
     else do {
       let r = header_set_endblock hdr_end r;
       r \<leftarrow> on_block (\<lambda>l. clist_push l hdr_end) r;
       r \<leftarrow> on_block (\<lambda>l. clist_push l hdr) r;
       on_free (\<lambda>l. clist_push l hdr) r
     }
   }"

definition memory_allocator_init ::
    "u32 \<Rightarrow> memory_allocator_region_s option \<Rightarrow> u32 \<Rightarrow> u32 \<Rightarrow> u32 clist_store \<Rightarrow> u32 clist_store \<Rightarrow>
      (memory_allocator_region_s option \<times> memory_allocator_region_s) option" where
  "memory_allocator_init rsz container start end junk_free junk_block = do {
     let start = ALIGN_VALUE_UP start MEMALLOC_ALIGN;
     let end = ALIGN_VALUE_LOW end MEMALLOC_ALIGN;
     case container of
       None \<Rightarrow> do {
         r \<leftarrow> region_init start (start + ALIGN_VALUE_UP rsz MEMALLOC_ALIGN) end junk_free junk_block;
         Some (None, r)
       }
     | Some c \<Rightarrow> do {
         (region, c) \<leftarrow> memory_allocator_pop memory_allocator_candidate rsz c;
         region \<leftarrow> region;
         r \<leftarrow> region_init region start end junk_free junk_block;
         Some (Some c, r)
       }
   }"

text \<open>The number and the total size of the blocks, as \<^verbatim>\<open>memory_allocator_region_check\<close> counts them.\<close>

partial_function (option) region_check_loop ::
    "memory_allocator_region_s \<Rightarrow> u32 \<times> u32 \<Rightarrow> u32 option \<Rightarrow> (u32 \<times> u32) option" where
  "region_check_loop r acc item =
     (case item of
        None \<Rightarrow> Some acc
      | Some i \<Rightarrow> do {
          acc \<leftarrow> (if header_is_endblock r i then Some acc
                 else do {
                   n \<leftarrow> header_get_size r i;
                   Some (fst acc + 1, snd acc + n)
                 });
          next \<leftarrow> clist_next (block_root r) i;
          region_check_loop r acc next
        })"

definition memory_allocator_region_check :: "memory_allocator_region_s \<Rightarrow> (u32 \<times> u32) option" where
  "memory_allocator_region_check r = do { h \<leftarrow> clist_head (block_root r); region_check_loop r (0, 0) h }"

definition memory_allocator_stats :: "memory_allocator_region_s \<Rightarrow> error_t \<times> u32 \<times> u32 \<times> u32" where
  "memory_allocator_stats r = (0, alloc_blocks r, free_size r, free_blocks r)"

section \<open>Invariant\<close>

text \<open>
  The abstract state: the blocks of a region in the order of their list, each with its kind.  A chunk of
  memory is a run of blocks closed by an end block.
\<close>

datatype kind = Free | Alloc | End

text \<open>What the shared words of a header hold, given the list of the free blocks.\<close>

fun blk_ok :: "u32 clist_store \<Rightarrow> u32 \<Rightarrow> u32 list \<Rightarrow> u32 \<times> kind \<Rightarrow> bool" where
  "blk_ok S reg fs (a, Free) \<longleftrightarrow> a \<in> set fs"
| "blk_ok S reg fs (a, Alloc) \<longleftrightarrow> a \<notin> set fs \<and> nx S (It a) = Some (It reg) \<and> pv S (It a) = None"
| "blk_ok S reg fs (a, End) \<longleftrightarrow> a \<notin> set fs \<and> nx S (It a) = None \<and> pv S (It a) = None"

definition free_inv :: "u32 clist_store \<Rightarrow> u32 \<Rightarrow> u32 list \<Rightarrow> (u32 \<times> kind) list \<Rightarrow> bool" where
  "free_inv S reg fs bs \<longleftrightarrow> clist_rep S fs \<and> set fs \<subseteq> fst ` set bs \<and> (\<forall>b \<in> set bs. blk_ok S reg fs b)"

text \<open>Ascending aligned addresses, none in the lowest bytes of the address space, the last block is an end block, and no two free blocks are neighbours.\<close>

definition shape :: "(u32 \<times> kind) list \<Rightarrow> bool" where
  "shape bs \<longleftrightarrow> sorted_wrt (<) (map fst bs) \<and> (\<forall>a \<in> set (map fst bs). MEMALLOC_SPLIT_SIZE < a \<and> 32 dvd unat a)
     \<and> bs \<noteq> [] \<and> snd (last bs) = End \<and> successively (\<lambda>x y. snd x = Free \<longrightarrow> snd y \<noteq> Free) bs"

definition count_kind :: "kind \<Rightarrow> (u32 \<times> kind) list \<Rightarrow> nat" where
  "count_kind k bs = length (filter (\<lambda>b. snd b = k) bs)"

definition mem_rep :: "u32 clist_store \<Rightarrow> u32 clist_store \<Rightarrow> u32 \<Rightarrow> (u32 \<times> kind) list \<Rightarrow> u32 list \<Rightarrow> bool" where
  "mem_rep F B reg bs fs \<longleftrightarrow> clist_rep B (map fst bs) \<and> free_inv F reg fs bs"

definition mem_inv :: "memory_allocator_region_s \<Rightarrow> (u32 \<times> kind) list \<Rightarrow> u32 list \<Rightarrow> bool" where
  "mem_inv r bs fs \<longleftrightarrow> mem_rep (free_root r) (block_root r) (self r) bs fs \<and> shape bs
     \<and> free_blocks r = of_nat (count_kind Free bs) \<and> alloc_blocks r = of_nat (count_kind Alloc bs)"

section \<open>Lemmas\<close>

lemma hdr_consts [simp]: "mem_hdr_size_align = 32" "MEMALLOC_SPLIT_SIZE = 560"
  by (simp_all add: mem_hdr_size_align_def MEMALLOC_SPLIT_SIZE_def mem_hdr_size_def MEMALLOC_ALIGN_def
      MEMALLOC_GUARD_SIZE_def ALIGN_VALUE_UP_def)

lemma count_kind_simps [simp]:
  "count_kind k [] = 0" "count_kind k (b # bs) = (if snd b = k then 1 else 0) + count_kind k bs"
  "count_kind k (xs @ ys) = count_kind k xs + count_kind k ys"
  by (simp_all add: count_kind_def)

subsection \<open>The list of free blocks\<close>

lemma ins_between_other:
  "a \<notin> set (xs @ ys) \<Longrightarrow> a \<noteq> i \<Longrightarrow> nx (ins_between S (ring_last xs) (ring_hd ys) i) (It a) = nx S (It a)"
  "a \<notin> set (xs @ ys) \<Longrightarrow> a \<noteq> i \<Longrightarrow> pv (ins_between S (ring_last xs) (ring_hd ys) i) (It a) = pv S (It a)"
  by (auto simp: ins_between_def ring_last_def ring_hd_def split: list.splits)

lemma del_between_other:
  "a \<notin> set (xs @ ys) \<Longrightarrow> nx (del_between S (ring_last xs) (ring_hd ys)) (It a) = nx S (It a)"
  "a \<notin> set (xs @ ys) \<Longrightarrow> pv (del_between S (ring_last xs) (ring_hd ys)) (It a) = pv S (It a)"
  by (auto simp: del_between_def ring_last_def ring_hd_def split: list.splits)

lemma free_inv_forget:
  assumes "free_inv S reg fs (xs @ (a, k) # ys)" "k \<noteq> Free"
  shows "free_inv S reg fs (xs @ ys)"
  using assms by (cases k) (auto simp: free_inv_def)

lemma free_inv_push:
  assumes "free_inv S reg fs (xs @ ys)" "a \<notin> fst ` set (xs @ ys)"
  shows "\<exists>S'. clist_push S a = Some S' \<and> free_inv S' reg (a # fs) (xs @ (a, Free) # ys)"
proof -
  have rep: "clist_rep S fs" and a: "a \<notin> set fs"
    using assms by (auto simp: free_inv_def)
  obtain S' where S': "clist_push S a = Some S'" "clist_rep S' (a # fs)" "S' = ins_between S Ht (ring_hd fs) a"
    using clist_push_rep [OF rep a] by blast
  have "blk_ok S' reg (a # fs) b" if "b \<in> set (xs @ ys)" for b
  proof -
    obtain c k where b: "b = (c, k)"
      by (cases b)
    have "c \<noteq> a"
      using that assms(2) b by force
    moreover have "blk_ok S reg fs b"
      using that assms(1) by (auto simp: free_inv_def)
    ultimately have "c \<noteq> a" "blk_ok S reg fs b" by blast+
    then show ?thesis
      using ins_between_other [of c "[]" fs a S] b by (cases k) (auto simp: S'(3) ring_last_def)
  qed
  then show ?thesis
    using S'(1,2) assms by (auto simp: free_inv_def)
qed

lemma free_inv_remove:
  assumes "free_inv S reg fs (xs @ (a, Free) # ys)" "a \<notin> fst ` set (xs @ ys)"
  shows "\<exists>S'. clist_remove S a = Some S' \<and> free_inv S' reg (remove1 a fs) (xs @ ys)"
proof -
  have "a \<in> set fs" and rep: "clist_rep S fs"
    using assms by (auto simp: free_inv_def)
  then obtain us vs where fs: "fs = us @ a # vs"
    by (meson split_list)
  obtain S' where S': "clist_remove S a = Some S'" "clist_rep S' (us @ vs)" "S' = del_between S (ring_last us) (ring_hd vs)"
    using clist_remove_rep [of S us a vs] rep fs by blast
  have us: "a \<notin> set us" "a \<notin> set vs" "remove1 a fs = us @ vs"
    using clist_rep_distinct [OF rep] fs by (auto simp: remove1_append)
  have "blk_ok S' reg (us @ vs) b" if "b \<in> set (xs @ ys)" for b
  proof -
    obtain c k where b: "b = (c, k)"
      by (cases b)
    have "c \<noteq> a"
      using that assms(2) b by force
    moreover have "blk_ok S reg fs b"
      using that assms(1) by (auto simp: free_inv_def)
    ultimately have "c \<noteq> a" "blk_ok S reg fs b" by blast+
    then show ?thesis
      using del_between_other [of c us vs S] b fs by (cases k) (auto simp: S'(3))
  qed
  then show ?thesis
    using S'(1,2) us assms fs by (auto simp: free_inv_def)
qed

lemma clist_rep_outside:
  "clist_rep S fs \<Longrightarrow> a \<notin> set fs \<Longrightarrow> clist_rep (S\<lparr>nx := (nx S)(It a := u), pv := (pv S)(It a := v)\<rparr>) fs"
  unfolding clist_rep_def by (auto intro!: linked_frame [of S] dest: in_set_butlastD)

lemma free_inv_set:
  assumes "free_inv S reg fs (xs @ ys)" "a \<notin> fst ` set (xs @ ys)"
    and "blk_ok (S\<lparr>nx := (nx S)(It a := u), pv := (pv S)(It a := v)\<rparr>) reg fs (a, k)"
  shows "free_inv (S\<lparr>nx := (nx S)(It a := u), pv := (pv S)(It a := v)\<rparr>) reg fs (xs @ (a, k) # ys)"
proof -
  let ?S = "S\<lparr>nx := (nx S)(It a := u), pv := (pv S)(It a := v)\<rparr>"
  have "blk_ok ?S reg fs b" if "b \<in> set (xs @ ys)" for b
  proof -
    obtain c l where b: "b = (c, l)"
      by (cases b)
    have "c \<noteq> a"
      using that assms(2) b by force
    moreover have "blk_ok S reg fs b"
      using that assms(1) by (auto simp: free_inv_def)
    ultimately have "c \<noteq> a" "blk_ok S reg fs b" by blast+
    then show ?thesis
      using b by (cases l) auto
  qed
  moreover have "a \<notin> set fs"
    using assms by (auto simp: free_inv_def)
  ultimately show ?thesis
    using assms clist_rep_outside [of S fs a] by (auto simp: free_inv_def)
qed

lemma set_nx_pv: "set_nx (set_pv S m v) n u = S\<lparr>nx := (nx S)(n := u), pv := (pv S)(m := v)\<rparr>"
  by (cases S) (simp add: set_nx_def set_pv_def)

lemma free_inv_set_alloc:
  assumes "free_inv (free_root r) (self r) fs (xs @ ys)" "a \<notin> fst ` set (xs @ ys)"
  shows "free_inv (free_root (header_set_alloc a r)) (self r) fs (xs @ (a, Alloc) # ys)"
proof -
  have "a \<notin> set fs"
    using assms by (auto simp: free_inv_def)
  then show ?thesis
    using free_inv_set [OF assms, where u = "Some (It (self r))" and v = None and k = Alloc]
    by (simp add: header_set_alloc_def set_nx_pv)
qed

lemma free_inv_set_endblock:
  assumes "free_inv (free_root r) (self r) fs (xs @ ys)" "a \<notin> fst ` set (xs @ ys)"
  shows "free_inv (free_root (header_set_endblock a r)) (self r) fs (xs @ (a, End) # ys)"
proof -
  have "a \<notin> set fs"
    using assms by (auto simp: free_inv_def)
  then show ?thesis
    using free_inv_set [OF assms, where u = None and v = None and k = End]
    by (simp add: header_set_endblock_def set_nx_def set_pv_def)
qed

subsection \<open>What the code reads of a block\<close>

lemma header_kind:
  assumes "free_inv (free_root r) (self r) fs bs" "(a, k) \<in> set bs"
  shows "header_is_alloc r a \<longleftrightarrow> k \<noteq> Free" "header_is_endblock r a \<longleftrightarrow> k = End"
proof -
  have ok: "blk_ok (free_root r) (self r) fs (a, k)" and rep: "clist_rep (free_root r) fs"
    using assms by (auto simp: free_inv_def)
  have free: "nx (free_root r) (It a) \<noteq> None \<and> pv (free_root r) (It a) \<noteq> None" if "k = Free"
  proof -
    obtain us vs where "fs = us @ a # vs"
      using ok \<open>k = Free\<close> split_list by fastforce
    then show ?thesis
      using rep rep_nx [of "free_root r" us a vs] rep_pv [of "free_root r" us a vs] by simp
  qed
  show "header_is_alloc r a \<longleftrightarrow> k \<noteq> Free" "header_is_endblock r a \<longleftrightarrow> k = End"
    using ok free by (cases k; auto simp: header_is_alloc_def header_is_endblock_def)+
qed

lemma header_get_size_rep:
  assumes "mem_inv r bs fs" "bs = xs @ (a, k) # (b, l) # ys" "k \<noteq> End"
  shows "header_get_size r a = Some (b - a)"
proof -
  have "clist_rep (block_root r) (map fst xs @ a # b # map fst ys)"
    using assms by (simp add: mem_inv_def mem_rep_def)
  then show ?thesis
    using assms header_kind(2) [of r fs bs a k] clist_next_rep [of "block_root r" "map fst xs" a "b # map fst ys"]
    by (auto simp: header_get_size_def mem_inv_def mem_rep_def)
qed

text \<open>Every block but the end blocks has a successor.\<close>

lemma block_successor:
  assumes "shape bs" "(a, k) \<in> set bs" "k \<noteq> End"
  obtains xs b l ys where "bs = xs @ (a, k) # (b, l) # ys"
proof -
  obtain xs zs where z: "bs = xs @ (a, k) # zs"
    using assms(2) by (meson split_list)
  have "zs \<noteq> []"
    using assms(1,3) z by (auto simp: shape_def)
  then obtain b l ys where "zs = (b, l) # ys"
    by (metis list.exhaust prod.collapse)
  then show ?thesis
    using that z by blast
qed

subsection \<open>The list operations on the blocks of a region\<close>

lemma mem_rep_distinct:
  assumes "mem_rep F B reg (xs @ (a, k) # ys) fs"
  shows "a \<notin> fst ` set (xs @ ys)" "a \<notin> fst ` set xs" "a \<notin> fst ` set ys"
  using assms clist_rep_distinct [of B "map fst (xs @ (a, k) # ys)"] by (auto simp: mem_rep_def)

lemma rep_alloc:
  assumes "mem_rep (free_root r) (block_root r) (self r) (xs @ (h, Free) # ys) fs"
  shows "\<exists>F. on_free (\<lambda>l. clist_remove l h) r = Some (r\<lparr>free_root := F\<rparr>)
    \<and> mem_rep (free_root (header_set_alloc h (r\<lparr>free_root := F\<rparr>))) (block_root r) (self r) (xs @ (h, Alloc) # ys) (remove1 h fs)"
proof -
  note d = mem_rep_distinct(1) [OF assms]
  obtain F where F: "clist_remove (free_root r) h = Some F" "free_inv F (self r) (remove1 h fs) (xs @ ys)"
    using free_inv_remove [OF _ d] assms unfolding mem_rep_def by blast
  then show ?thesis
    using free_inv_set_alloc [of "r\<lparr>free_root := F\<rparr>", OF _ d] assms by (auto simp: on_free_def mem_rep_def)
qed

lemma rep_merge:
  assumes "mem_rep (free_root r) (block_root r) (self r) (xs @ (n, Free) # ys) fs"
  shows "\<exists>F B. on_free (\<lambda>l. clist_remove l n) r = Some (r\<lparr>free_root := F\<rparr>)
    \<and> on_block (\<lambda>l. clist_remove l n) (r\<lparr>free_root := F\<rparr>) = Some (r\<lparr>free_root := F, block_root := B\<rparr>)
    \<and> mem_rep F B (self r) (xs @ ys) (remove1 n fs)"
proof -
  obtain F where "clist_remove (free_root r) n = Some F" "free_inv F (self r) (remove1 n fs) (xs @ ys)"
    using free_inv_remove [OF _ mem_rep_distinct(1) [OF assms]] assms unfolding mem_rep_def by blast
  moreover obtain B where "clist_remove (block_root r) n = Some B" "clist_rep B (map fst xs @ map fst ys)"
    using clist_remove_rep [of "block_root r" "map fst xs" n "map fst ys"] assms by (auto simp: mem_rep_def)
  ultimately show ?thesis
    by (auto simp: on_free_def on_block_def mem_rep_def)
qed

lemma rep_forget:
  assumes "mem_rep (free_root r) (block_root r) (self r) (xs @ (h, Alloc) # ys) fs"
  shows "\<exists>B. on_block (\<lambda>l. clist_remove l h) r = Some (r\<lparr>block_root := B\<rparr>) \<and> mem_rep (free_root r) B (self r) (xs @ ys) fs"
  using clist_remove_rep [of "block_root r" "map fst xs" h "map fst ys"] free_inv_forget assms
  by (auto simp: on_block_def mem_rep_def)

lemma rep_free:
  assumes "mem_rep (free_root r) (block_root r) (self r) (xs @ (h, Alloc) # ys) fs"
  shows "\<exists>F. on_free (\<lambda>l. clist_push l h) r = Some (r\<lparr>free_root := F\<rparr>)
    \<and> mem_rep F (block_root r) (self r) (xs @ (h, Free) # ys) (h # fs)"
proof -
  have "free_inv (free_root r) (self r) fs (xs @ ys)"
    using free_inv_forget assms by (auto simp: mem_rep_def)
  then obtain F where "clist_push (free_root r) h = Some F" "free_inv F (self r) (h # fs) (xs @ (h, Free) # ys)"
    using free_inv_push [OF _ mem_rep_distinct(1) [OF assms]] by blast
  then show ?thesis
    using assms by (auto simp: on_free_def mem_rep_def)
qed

lemma rep_split:
  assumes "mem_rep (free_root r) (block_root r) (self r) (xs @ (h, k) # ys) fs" "n \<notin> fst ` set (xs @ (h, k) # ys)"
  shows "\<exists>F B. split_block h n r = Some (r\<lparr>free_root := F, block_root := B\<rparr>)
    \<and> mem_rep F B (self r) (xs @ (h, k) # (n, Free) # ys) (n # fs)"
proof -
  obtain B where "clist_insert_post (block_root r) h n = Some B" "clist_rep B (map fst xs @ h # n # map fst ys)"
    using clist_insert_post_rep [of "block_root r" "map fst xs" h "map fst ys" n] assms by (auto simp: mem_rep_def)
  moreover obtain F where "clist_push (free_root r) n = Some F"
    "free_inv F (self r) (n # fs) ((xs @ [(h, k)]) @ (n, Free) # ys)"
    using free_inv_push [of "free_root r" "self r" fs "xs @ [(h, k)]" ys n] assms by (auto simp: mem_rep_def)
  moreover have "r\<lparr>block_root := B, free_root := F\<rparr> = r\<lparr>free_root := F, block_root := B\<rparr>" for F B
    by (cases r) simp
  ultimately show ?thesis
    by (intro exI [of _ F] exI [of _ B]) (simp add: split_block_def on_free_def on_block_def mem_rep_def)
qed

lemma rep_kind:
  assumes "mem_rep (free_root r) (block_root r) (self r) bs fs" "(a, k) \<in> set bs"
  shows "header_is_alloc r a \<longleftrightarrow> k \<noteq> Free" "header_is_endblock r a \<longleftrightarrow> k = End"
  using header_kind [of r fs bs a k] assms by (auto simp: mem_rep_def)

lemma rep_size:
  assumes "mem_rep (free_root r) (block_root r) (self r) (xs @ (a, k) # (b, l) # ys) fs" "k \<noteq> End"
  shows "header_get_size r a = Some (b - a)" "clist_next (block_root r) a = Some (Some b)"
    "clist_prev (block_root r) a = Some (if xs = [] then None else Some (fst (last xs)))"
proof -
  have rep: "clist_rep (block_root r) (map fst xs @ a # map fst ((b, l) # ys))"
    using assms by (simp add: mem_rep_def)
  show "clist_next (block_root r) a = Some (Some b)"
    using clist_next_rep [OF rep] by simp
  then show "header_get_size r a = Some (b - a)"
    using rep_kind(2) [OF assms(1), of a k] assms(2) by (simp add: header_get_size_def)
  show "clist_prev (block_root r) a = Some (if xs = [] then None else Some (fst (last xs)))"
    using clist_prev_rep [OF rep] by (simp add: last_map)
qed

subsection \<open>Sizes\<close>

lemma align_dvd: "32 dvd unat (ALIGN_VALUE_UP x MEMALLOC_ALIGN)"
proof -
  have "unat (ALIGN_VALUE_UP x (2 ^ 5)) = ((unat x + 2 ^ 5 - 1) div 2 ^ 5 * 2 ^ 5) mod 2 ^ 32"
    by (subst unat_ALIGN_VALUE_UP) simp_all
  moreover have "(32::nat) dvd ((unat x + 2 ^ 5 - 1) div 2 ^ 5 * 2 ^ 5) mod 2 ^ 32"
    by (rule dvd_mod) simp_all
  ultimately show ?thesis
    by (simp add: MEMALLOC_ALIGN_def)
qed

lemma dvd_unat_add:
  assumes "32 dvd unat x" "32 dvd unat y"
  shows "32 dvd unat (x + y :: u32)"
  using assms by (simp add: unat_word_ariths dvd_mod)

lemma size_alloc2real_dvd: "32 dvd unat (size_alloc2real sz)"
  unfolding size_alloc2real_def hdr_consts by (rule dvd_unat_add) (simp_all add: align_dvd)

lemma round_up_32: "x \<le> (x + 31) div 32 * 32 \<and> (x + 31) div 32 * 32 \<le> x + (31 :: nat)"
  using div_mult_mod_eq [of "x + 31" 32] mod_less_divisor [of 32 "x + 31"] by linarith

lemma size_alloc2real_ge:
  assumes "unat sz \<le> 2 ^ 32 - 64"
  shows "unat sz + 32 \<le> unat (size_alloc2real sz)" "unat (size_alloc2real sz) < unat sz + 64"
proof -
  define n where "n = (unat sz + 31) div 32 * 32"
  have n: "unat sz \<le> n" "n \<le> unat sz + 31"
    unfolding n_def using round_up_32 [of "unat sz"] by blast+
  then have "n < 2 ^ 32 - 32"
    using assms by simp
  moreover have "unat (ALIGN_VALUE_UP sz (2 ^ 5)) = n mod 2 ^ 32"
    by (subst unat_ALIGN_VALUE_UP) (simp_all add: n_def add.commute [of 31])
  ultimately have "unat (ALIGN_VALUE_UP sz MEMALLOC_ALIGN) = n"
    by (simp add: MEMALLOC_ALIGN_def)
  moreover have "unat (32 + ALIGN_VALUE_UP sz MEMALLOC_ALIGN) = 32 + unat (ALIGN_VALUE_UP sz MEMALLOC_ALIGN)"
    using calculation \<open>n < 2 ^ 32 - 32\<close> by (subst unat_add_small) simp_all
  ultimately have "unat (size_alloc2real sz) = 32 + n"
    by (simp add: size_alloc2real_def)
  then show "unat sz + 32 \<le> unat (size_alloc2real sz)" "unat (size_alloc2real sz) < unat sz + 64"
    using n by linarith+
qed

text \<open>The size of a block in the abstract state.\<close>

fun block_size :: "(u32 \<times> kind) list \<Rightarrow> u32 \<Rightarrow> u32" where
  "block_size ((a, k) # (b, l) # bs) x = (if x = a then b - a else block_size ((b, l) # bs) x)"
| "block_size bs x = 0"

lemma block_size_split:
  "a \<notin> fst ` set xs \<Longrightarrow> block_size (xs @ (a, k) # (b, l) # ys) a = b - a"
proof (induction xs)
  case (Cons x xs)
  then show ?case
    by (cases x; cases xs) auto
qed simp

lemma header_get_size_block:
  assumes "mem_inv r bs fs" "f \<in> set fs"
  shows "header_get_size r f = Some (block_size bs f)" "(f, Free) \<in> set bs"
proof -
  have "f \<in> fst ` set bs" "\<forall>b \<in> set bs. blk_ok (free_root r) (self r) fs b"
    using assms by (auto simp: mem_inv_def mem_rep_def free_inv_def)
  then obtain k where "(f, k) \<in> set bs" "blk_ok (free_root r) (self r) fs (f, k)"
    by force
  then show free: "(f, Free) \<in> set bs"
    using assms(2) by (cases k) auto
  then obtain xs b l ys where bs: "bs = xs @ (f, Free) # (b, l) # ys"
    using block_successor assms(1) unfolding mem_inv_def by (metis kind.distinct(3))
  then show "header_get_size r f = Some (block_size bs f)"
    using header_get_size_rep [OF assms(1) bs] assms(1) mem_rep_distinct(2) [of "free_root r" "block_root r" "self r" xs f Free "(b, l) # ys" fs]
    by (simp add: block_size_split mem_inv_def)
qed

lemma free_next:
  assumes "mem_inv r bs fs" "fs = us @ i # vs"
  shows "clist_next (free_root r) i = Some (case vs of [] \<Rightarrow> None | v # _ \<Rightarrow> Some v)"
  using assms clist_next_rep [of "free_root r" us i vs] by (simp add: mem_inv_def mem_rep_def free_inv_def)

lemma free_head:
  assumes "mem_inv r bs fs"
  shows "clist_head (free_root r) = Some (case fs of [] \<Rightarrow> None | v # _ \<Rightarrow> Some v)"
  using assms clist_head_rep [of "free_root r" fs] by (simp add: mem_inv_def mem_rep_def free_inv_def)

lemma candidate_loop_find:
  assumes "mem_inv r bs (us @ vs)"
  shows "candidate_loop r sz (case vs of [] \<Rightarrow> None | v # _ \<Rightarrow> Some v) = Some (find (\<lambda>f. sz \<le> block_size bs f) vs)"
  using assms
proof (induction vs arbitrary: us)
  case (Cons v vs)
  then show ?case
    using header_get_size_block(1) [OF Cons.prems, of v] free_next [OF Cons.prems refl] Cons.IH [of "us @ [v]"]
    by (subst candidate_loop.simps) simp
qed (simp add: candidate_loop.simps)

text \<open>The candidate so far with its size, and the candidate of a list of blocks that remain to be seen.\<close>

definition best_inv :: "(u32 \<times> kind) list \<Rightarrow> u32 \<Rightarrow> u32 list \<Rightarrow> u32 option \<Rightarrow> bool" where
  "best_inv bs sz fs best \<longleftrightarrow> (case best of
      None \<Rightarrow> (\<forall>f \<in> set fs. block_size bs f < sz)
    | Some a \<Rightarrow> a \<in> set fs \<and> sz \<le> block_size bs a
        \<and> (\<forall>f \<in> set fs. sz \<le> block_size bs f \<longrightarrow> block_size bs a \<le> block_size bs f))"

lemma best_inv_step:
  assumes "best_inv bs sz us best" "\<And>a. best = Some a \<Longrightarrow> m = block_size bs a"
  shows "best_inv bs sz (us @ [v]) (if better_fit sz best m (block_size bs v) then Some v else best)"
  using assms by (cases best) (auto simp: best_inv_def better_fit_def not_le not_less)

lemma bestfit_loop_best:
  assumes "mem_inv r bs (us @ vs)" "best_inv bs sz us best" "\<And>a. best = Some a \<Longrightarrow> m = block_size bs a"
  shows "\<exists>c. bestfit_loop r sz best m (case vs of [] \<Rightarrow> None | v # _ \<Rightarrow> Some v) = Some c \<and> best_inv bs sz (us @ vs) c"
  using assms
proof (induction vs arbitrary: us best m)
  case (Cons v vs)
  have inv: "mem_inv r bs ((us @ [v]) @ vs)"
    using Cons.prems(1) by simp
  note step = best_inv_step [OF Cons.prems(2,3), of v]
  have "bestfit_loop r sz best m (Some v)
      = (if better_fit sz best m (block_size bs v)
         then bestfit_loop r sz (Some v) (block_size bs v) (case vs of [] \<Rightarrow> None | w # _ \<Rightarrow> Some w)
         else bestfit_loop r sz best m (case vs of [] \<Rightarrow> None | w # _ \<Rightarrow> Some w))"
    using header_get_size_block(1) [OF Cons.prems(1), of v] free_next [OF Cons.prems(1) refl]
    by (subst bestfit_loop.simps) simp
  then show ?case
    using Cons.IH [OF inv, of "Some v" "block_size bs v"] Cons.IH [OF inv, of best m] step Cons.prems(3)
    by (auto split: if_splits)
qed (simp add: bestfit_loop.simps)

subsection \<open>The contract of the search and allocation\<close>

text \<open>What allocation relies on: a free block that is large enough is found whenever there is one.\<close>

locale fit_policy =
  fixes candidate :: "memory_allocator_region_s \<Rightarrow> u32 \<Rightarrow> u32 option option"
  assumes candidate_found: "mem_inv r bs fs \<Longrightarrow> \<exists>c. candidate r sz = Some c
    \<and> (case c of None \<Rightarrow> \<forall>f \<in> set fs. block_size bs f < sz | Some a \<Rightarrow> a \<in> set fs \<and> sz \<le> block_size bs a)"

lemma find_Some_set: "find P xs = Some x \<Longrightarrow> x \<in> set xs \<and> P x"
  by (induction xs) (auto split: if_splits)

lemma find_None_set: "find P xs = None \<longleftrightarrow> (\<forall>y \<in> set xs. \<not> P y)"
  by (induction xs) auto

interpretation first_fit: fit_policy memory_allocator_candidate
proof
  fix r bs fs sz
  assume inv: "mem_inv r bs fs"
  have c: "memory_allocator_candidate r sz = Some (find (\<lambda>f. sz \<le> block_size bs f) fs)"
    unfolding memory_allocator_candidate_def free_head [OF inv] bind.simps
    by (rule candidate_loop_find [of r bs "[]"]) (simp add: inv)
  show "\<exists>c. memory_allocator_candidate r sz = Some c
    \<and> (case c of None \<Rightarrow> \<forall>f \<in> set fs. block_size bs f < sz | Some a \<Rightarrow> a \<in> set fs \<and> sz \<le> block_size bs a)"
  proof (cases "find (\<lambda>f. sz \<le> block_size bs f) fs")
    case None
    then have "\<forall>f \<in> set fs. block_size bs f < sz"
      unfolding find_None_set not_le .
    then show ?thesis
      using c None by simp
  next
    case (Some a)
    then show ?thesis
      using c find_Some_set [OF Some] by simp
  qed
qed

lemma bestfit_best:
  assumes "mem_inv r bs fs"
  shows "\<exists>c. memory_allocator_candidate_bestfit r sz = Some c \<and> best_inv bs sz fs c"
  using bestfit_loop_best [of r bs "[]" fs sz None 0] free_head [OF assms] assms
  by (simp add: memory_allocator_candidate_bestfit_def best_inv_def)

interpretation best_fit: fit_policy memory_allocator_candidate_bestfit
proof
  fix r bs fs sz
  assume "mem_inv r bs fs"
  then obtain c where "memory_allocator_candidate_bestfit r sz = Some c" "best_inv bs sz fs c"
    using bestfit_best by blast
  then show "\<exists>c. memory_allocator_candidate_bestfit r sz = Some c
    \<and> (case c of None \<Rightarrow> \<forall>f \<in> set fs. block_size bs f < sz | Some a \<Rightarrow> a \<in> set fs \<and> sz \<le> block_size bs a)"
    by (cases c) (simp_all add: best_inv_def)
qed

subsection \<open>The shape of the block list\<close>

lemma shape_kind: "shape (xs @ (a, Free) # ys) \<Longrightarrow> shape (xs @ (a, Alloc) # ys)"
  by (cases ys rule: rev_cases) (auto simp: shape_def sorted_wrt_append successively_append_iff successively_Cons)

lemma shape_split:
  assumes "shape (xs @ (a, Alloc) # (b, l) # ys)" "l \<noteq> Free" "a < n" "n < b" "32 dvd unat n"
  shows "shape (xs @ (a, Alloc) # (n, Free) # (b, l) # ys)"
  using assms by (auto simp: shape_def sorted_wrt_append successively_append_iff successively_Cons)

text \<open>Words in the middle of a block.\<close>

lemma split_point:
  assumes "shape (xs @ (a, k) # (b, l) # ys)" "sz + 560 \<le> b - a" "sz \<le> b - a" "32 dvd unat sz" "0 < sz"
  shows "a < a + sz" "a + sz < b" "32 dvd unat (a + sz)" "unat (a + sz) = unat a + unat sz"
proof -
  have ab: "a < b" "32 dvd unat a" "560 < a"
    using assms(1) by (auto simp: shape_def sorted_wrt_append)
  then have u: "unat (b - a) = unat b - unat a"
    by (simp add: unat_sub_le)
  have "unat sz \<le> unat b - unat a"
    using assms(3) u by (simp add: word_le_nat_alt)
  moreover have "560 < unat a" "unat b < 4294967296"
    using ab(3) u32_unat_bound [of b] by (simp_all add: word_less_nat_alt)
  ultimately have "unat sz + 560 < 4294967296"
    by linarith
  then have "unat (sz + 560) = unat sz + 560"
    by (subst unat_add_small) simp_all
  then have le: "unat sz + 560 \<le> unat b - unat a"
    using assms(2) u by (simp add: word_le_nat_alt)
  then have "unat a + unat sz < 2 ^ 32"
    using \<open>unat b < 4294967296\<close> by simp
  then show n: "unat (a + sz) = unat a + unat sz"
    by (simp add: unat_add_small)
  show "a < a + sz" "a + sz < b"
    using n le assms(5) by (simp_all add: word_less_nat_alt unat_gt_0)
  show "32 dvd unat (a + sz)"
    using n ab(2) assms(4) by simp
qed

lemma split_fresh:
  assumes "shape (xs @ (a, k) # (b, l) # ys)" "a < n" "n < b"
  shows "n \<notin> fst ` set (xs @ (a, k) # (b, l) # ys)"
  using assms by (fastforce simp: shape_def sorted_wrt_append)

lemma header_set_alloc_fields [simp]:
  "block_root (header_set_alloc h r) = block_root r" "self (header_set_alloc h r) = self r"
  "free_blocks (header_set_alloc h r) = free_blocks r" "alloc_blocks (header_set_alloc h r) = alloc_blocks r"
  by (simp_all add: header_set_alloc_def)

lemma update_region_stats_fields [simp]:
  "block_root (update_region_stats n f a r) = block_root r" "free_root (update_region_stats n f a r) = free_root r"
  "self (update_region_stats n f a r) = self r" "free_blocks (update_region_stats n f a r) = free_blocks r + f"
  "alloc_blocks (update_region_stats n f a r) = alloc_blocks r + a"
  by (simp_all add: update_region_stats_def)

text \<open>The state after a free block is taken.\<close>

definition take_block :: "u32 \<Rightarrow> (u32 \<times> kind) list \<Rightarrow> u32 \<times> kind \<Rightarrow> u32 \<Rightarrow> (u32 \<times> kind) list \<Rightarrow> (u32 \<times> kind) list" where
  "take_block sz xs b h ys =
     xs @ (h, Alloc) # (if sz + MEMALLOC_SPLIT_SIZE \<le> fst b - h then [(h + sz, Free)] else []) @ b # ys"

lemma pop_take_block:
  assumes inv: "mem_inv r bs fs" and bs: "bs = xs @ (h, Free) # (b, l) # ys"
    and c: "candidate r (size_alloc2real sz) = Some (Some h)"
    and sz: "size_alloc2real sz \<le> b - h" "0 < size_alloc2real sz"
  shows "\<exists>r'. memory_allocator_pop candidate sz r = Some (Some (hdr2mem h), r')
    \<and> mem_inv r' (take_block (size_alloc2real sz) xs (b, l) h ys)
        ((if size_alloc2real sz + MEMALLOC_SPLIT_SIZE \<le> b - h then [h + size_alloc2real sz] else []) @ remove1 h fs)"
proof -
  let ?sz = "size_alloc2real sz"
  have rep: "mem_rep (free_root r) (block_root r) (self r) (xs @ (h, Free) # (b, l) # ys) fs"
    and shape: "shape (xs @ (h, Free) # (b, l) # ys)"
    and stats: "free_blocks r = of_nat (count_kind Free bs)" "alloc_blocks r = of_nat (count_kind Alloc bs)"
    using inv bs by (auto simp: mem_inv_def)
  have l: "l \<noteq> Free"
    using shape by (simp add: shape_def successively_append_iff)
  have kind: "\<not> header_is_alloc r h" "header_get_size r h = Some (b - h)"
    using rep_kind(1) [OF rep, of h Free] rep_size(1) [OF rep] by simp_all
  obtain F where F: "on_free (\<lambda>l. clist_remove l h) r = Some (r\<lparr>free_root := F\<rparr>)"
    "mem_rep (free_root (header_set_alloc h (r\<lparr>free_root := F\<rparr>))) (block_root r) (self r) (xs @ (h, Alloc) # (b, l) # ys) (remove1 h fs)"
    using rep_alloc [OF rep] by blast
  let ?r = "header_set_alloc h (r\<lparr>free_root := F\<rparr>)"
  note shape' = shape_kind [OF shape]
  show ?thesis
  proof (cases "?sz + 560 \<le> b - h")
    case True
    note n = split_point [OF shape' True sz(1) size_alloc2real_dvd sz(2)]
    obtain F' B' where S: "split_block h (h + ?sz) ?r = Some (?r\<lparr>free_root := F', block_root := B'\<rparr>)"
      "mem_rep F' B' (self ?r) (xs @ (h, Alloc) # (h + ?sz, Free) # (b, l) # ys) ((h + ?sz) # remove1 h fs)"
      using rep_split [of ?r xs h Alloc "(b, l) # ys" "remove1 h fs" "h + ?sz"] F(2) split_fresh [OF shape' n(1,2)] by auto
    then show ?thesis
      using True kind sz(1) c F(1) shape_split [OF shape' l n(1-3)] stats bs
      by (auto simp: memory_allocator_pop_def take_block_def mem_inv_def)
  next
    case False
    then show ?thesis
      using kind sz(1) c F shape' stats bs by (auto simp: memory_allocator_pop_def take_block_def mem_inv_def)
  qed
qed

lemma block_size_free:
  assumes "mem_inv r bs fs" "f \<in> set fs"
  obtains xs b l ys where "bs = xs @ (f, Free) # (b, l) # ys" "block_size bs f = b - f"
proof -
  obtain xs b l ys where bs: "bs = xs @ (f, Free) # (b, l) # ys"
    using block_successor header_get_size_block(2) [OF assms] assms(1) unfolding mem_inv_def by (metis kind.distinct(3))
  moreover have "f \<notin> fst ` set xs"
    using assms(1) bs mem_rep_distinct(2) unfolding mem_inv_def by blast
  ultimately show ?thesis
    using that block_size_split by blast
qed

context fit_policy
begin

lemma pop_correct:
  assumes inv: "mem_inv r bs fs" and sz: "unat sz \<le> 2 ^ 32 - 64"
  shows "if \<forall>f \<in> set fs. block_size bs f < size_alloc2real sz then memory_allocator_pop candidate sz r = Some (None, r)
    else \<exists>h xs b l ys r' fs'. bs = xs @ (h, Free) # (b, l) # ys \<and> size_alloc2real sz \<le> b - h
      \<and> memory_allocator_pop candidate sz r = Some (Some (hdr2mem h), r')
      \<and> mem_inv r' (take_block (size_alloc2real sz) xs (b, l) h ys) fs'"
proof -
  obtain c where c: "candidate r (size_alloc2real sz) = Some c"
    "case c of None \<Rightarrow> \<forall>f \<in> set fs. block_size bs f < size_alloc2real sz
     | Some a \<Rightarrow> a \<in> set fs \<and> size_alloc2real sz \<le> block_size bs a"
    using candidate_found [OF inv] by blast
  show ?thesis
  proof (cases c)
    case None
    then show ?thesis
      using c by (simp add: memory_allocator_pop_def)
  next
    case (Some h)
    then have h: "h \<in> set fs" "size_alloc2real sz \<le> block_size bs h"
      using c(2) by simp_all
    obtain xs b l ys where bs: "bs = xs @ (h, Free) # (b, l) # ys" "block_size bs h = b - h"
      using block_size_free [OF inv h(1)] by blast
    have "0 < size_alloc2real sz"
      using size_alloc2real_ge(1) [OF sz] by (simp add: word_less_nat_alt)
    then have "\<exists>r' fs'. memory_allocator_pop candidate sz r = Some (Some (hdr2mem h), r')
        \<and> mem_inv r' (take_block (size_alloc2real sz) xs (b, l) h ys) fs'"
      using pop_take_block [OF inv bs(1), of candidate sz] c(1) h(2) bs(2) Some by auto
    moreover have "\<not> (\<forall>f \<in> set fs. block_size bs f < size_alloc2real sz)"
      using h by (auto simp: not_less)
    ultimately show ?thesis
      using bs h(2) by (simp only: if_False) blast
  qed
qed

end

subsection \<open>Freeing\<close>

text \<open>A free block at the front of a list goes; the state after a block is given back.\<close>

fun drop_free :: "(u32 \<times> kind) list \<Rightarrow> (u32 \<times> kind) list" where
  "drop_free ((n, Free) # ys) = ys"
| "drop_free ys = ys"

definition give_block :: "(u32 \<times> kind) list \<Rightarrow> u32 \<Rightarrow> (u32 \<times> kind) list \<Rightarrow> (u32 \<times> kind) list" where
  "give_block xs h ys =
     (if xs \<noteq> [] \<and> snd (last xs) = Free then xs @ drop_free ys else xs @ (h, Free) # drop_free ys)"

lemma shape_drop_free:
  assumes "shape (xs @ (h, Alloc) # ys)"
  shows "shape (xs @ (h, Alloc) # drop_free ys)" "drop_free ys \<noteq> []" "snd (hd (drop_free ys)) \<noteq> Free"
proof -
  have "ys \<noteq> []"
    using assms by (auto simp: shape_def)
  then obtain n l zs where ys: "ys = (n, l) # zs"
    by (metis list.exhaust prod.collapse)
  have *: "shape (xs @ (h, Alloc) # drop_free ys) \<and> drop_free ys \<noteq> [] \<and> snd (hd (drop_free ys)) \<noteq> Free"
  proof (cases l)
    case Free
    then have "zs \<noteq> []"
      using assms ys by (auto simp: shape_def)
    then show ?thesis
      using assms ys Free by (cases zs) (auto simp: shape_def sorted_wrt_append successively_append_iff successively_Cons)
  qed (use assms ys in auto)
  then show "shape (xs @ (h, Alloc) # drop_free ys)" "drop_free ys \<noteq> []" "snd (hd (drop_free ys)) \<noteq> Free"
    by blast+
qed

lemma shape_give_block:
  assumes "shape (xs @ (h, Alloc) # ys)"
  shows "shape (give_block xs h ys)"
proof -
  note d = shape_drop_free [OF assms]
  obtain z zs where z: "drop_free ys = z # zs"
    using d(2) by (cases "drop_free ys") auto
  show ?thesis
  proof (cases "xs \<noteq> [] \<and> snd (last xs) = Free")
    case True
    then show ?thesis
      using d(1,3) by (simp add: give_block_def z shape_def sorted_wrt_append successively_append_iff successively_Cons)
  next
    case False
    then have "shape (xs @ (h, Free) # z # zs)"
      using d(1,3) by (simp add: z shape_def sorted_wrt_append successively_append_iff successively_Cons)
    then show ?thesis
      unfolding give_block_def z using False by auto
  qed
qed

lemma merge_next_rep:
  assumes "mem_rep (free_root r) (block_root r) (self r) (xs @ (h, Alloc) # (n, l) # ys) fs"
  shows "\<exists>r' fs'. merge_next (Some n) r = Some r'
    \<and> mem_rep (free_root r') (block_root r') (self r') (xs @ (h, Alloc) # drop_free ((n, l) # ys)) fs'
    \<and> free_blocks r' = free_blocks r - (if l = Free then 1 else 0) \<and> alloc_blocks r' = alloc_blocks r"
proof (cases "l = Free")
  case True
  then have "mem_rep (free_root r) (block_root r) (self r) ((xs @ [(h, Alloc)]) @ (n, Free) # ys) fs"
    using assms by simp
  from rep_merge [OF this] obtain F B where
    "on_free (\<lambda>l. clist_remove l n) r = Some (r\<lparr>free_root := F\<rparr>)"
    "on_block (\<lambda>l. clist_remove l n) (r\<lparr>free_root := F\<rparr>) = Some (r\<lparr>free_root := F, block_root := B\<rparr>)"
    "mem_rep F B (self r) (xs @ (h, Alloc) # ys) (remove1 n fs)"
    by auto
  moreover have "\<not> header_is_alloc r n"
    using rep_kind(1) [OF assms, of n l] True by simp
  ultimately show ?thesis
    using True by (auto simp: merge_next_def)
next
  case False
  then have "drop_free ((n, l) # ys) = (n, l) # ys" "header_is_alloc r n"
    using rep_kind(1) [OF assms, of n l] by (cases l; simp)+
  then show ?thesis
    using assms False by (auto simp: merge_next_def)
qed

lemma merge_prev_rep:
  assumes rep: "mem_rep (free_root r) (block_root r) (self r) (xs @ (h, Alloc) # (n, l) # ys) fs"
    and p: "p = (if xs = [] then None else Some (fst (last xs)))"
  shows "\<exists>a r' fs'. merge_prev h p r = Some (a, r') \<and> header_get_size r' a \<noteq> None
    \<and> mem_rep (free_root r') (block_root r') (self r')
        (if xs \<noteq> [] \<and> snd (last xs) = Free then xs @ (n, l) # ys else xs @ (h, Free) # (n, l) # ys) fs'
    \<and> free_blocks r' = free_blocks r + (if xs \<noteq> [] \<and> snd (last xs) = Free then 0 else 1) \<and> alloc_blocks r' = alloc_blocks r"
proof (cases "xs \<noteq> [] \<and> snd (last xs) = Free")
  case True
  then obtain ws a where xs: "xs = ws @ [(a, Free)]"
    by (metis append_butlast_last_id prod.collapse)
  obtain B where B: "on_block (\<lambda>l. clist_remove l h) r = Some (r\<lparr>block_root := B\<rparr>)"
    "mem_rep (free_root r) B (self r) (xs @ (n, l) # ys) fs"
    using rep_forget [OF rep] by blast
  moreover have "header_get_size (r\<lparr>block_root := B\<rparr>) a \<noteq> None"
    using rep_size(1) [of "r\<lparr>block_root := B\<rparr>" ws a Free n l ys fs] B(2) xs by simp
  moreover have "\<not> header_is_alloc r a"
    using rep_kind(1) [OF rep, of a Free] xs by simp
  ultimately show ?thesis
    using True xs p by (auto simp: merge_prev_def)
next
  case False
  obtain F where F: "on_free (\<lambda>l. clist_push l h) r = Some (r\<lparr>free_root := F\<rparr>)"
    "mem_rep F (block_root r) (self r) (xs @ (h, Free) # (n, l) # ys) (h # fs)"
    using rep_free [OF rep] by blast
  let ?r = "update_region_stats 0 1 0 (r\<lparr>free_root := F\<rparr>)"
  have "header_get_size ?r h \<noteq> None"
    using rep_size(1) [of ?r xs h Free n l ys "h # fs"] F(2) by simp
  moreover have "header_is_alloc r (fst (last xs))" if "xs \<noteq> []"
    using rep_kind(1) [OF rep, of "fst (last xs)" "snd (last xs)"] that False by simp
  ultimately show ?thesis
    using False F p by (auto simp: merge_prev_def split: if_splits)
qed

lemma count_kind_give_block:
  assumes "shape (xs @ (h, Alloc) # ys)"
  shows "count_kind Alloc (xs @ (h, Alloc) # ys) = Suc (count_kind Alloc (give_block xs h ys))"
    "count_kind Free (give_block xs h ys) + (if snd (hd ys) = Free then 1 else 0)
      = count_kind Free (xs @ (h, Alloc) # ys) + (if xs \<noteq> [] \<and> snd (last xs) = Free then 0 else 1)"
proof -
  obtain n l zs where ys: "ys = (n, l) # zs"
    using assms by (cases ys) (auto simp: shape_def)
  show "count_kind Alloc (xs @ (h, Alloc) # ys) = Suc (count_kind Alloc (give_block xs h ys))"
    "count_kind Free (give_block xs h ys) + (if snd (hd ys) = Free then 1 else 0)
      = count_kind Free (xs @ (h, Alloc) # ys) + (if xs \<noteq> [] \<and> snd (last xs) = Free then 0 else 1)"
    by (cases l; simp add: give_block_def ys)+
qed

lemma push_give_block:
  assumes inv: "mem_inv r bs fs" and bs: "bs = xs @ (h, Alloc) # ys"
  shows "\<exists>r' fs'. memory_allocator_push (hdr2mem h) r = Some r' \<and> mem_inv r' (give_block xs h ys) fs'"
proof -
  have rep: "mem_rep (free_root r) (block_root r) (self r) (xs @ (h, Alloc) # ys) fs"
    and shape: "shape (xs @ (h, Alloc) # ys)"
    using inv bs by (auto simp: mem_inv_def)
  note d = shape_drop_free [OF shape]
  obtain n l zs where ys: "ys = (n, l) # zs"
    using shape by (cases ys) (auto simp: shape_def)
  obtain m k us where us: "drop_free ys = (m, k) # us"
    using d(2) by (metis list.exhaust prod.collapse)
  have kind: "header_is_alloc r h" "\<not> header_is_endblock r h"
    using rep_kind [OF rep, of h Alloc] by simp_all
  note sz = rep_size [OF rep [unfolded ys]]
  obtain r1 fs1 where r1: "merge_next (Some n) r = Some r1"
    "mem_rep (free_root r1) (block_root r1) (self r1) (xs @ (h, Alloc) # (m, k) # us) fs1"
    "free_blocks r1 = free_blocks r - (if l = Free then 1 else 0)" "alloc_blocks r1 = alloc_blocks r"
    using merge_next_rep [OF rep [unfolded ys]] us ys by auto
  obtain a r2 fs2 where r2: "merge_prev h (if xs = [] then None else Some (fst (last xs))) r1 = Some (a, r2)"
    "header_get_size r2 a \<noteq> None" "mem_rep (free_root r2) (block_root r2) (self r2) (give_block xs h ys) fs2"
    "free_blocks r2 = free_blocks r1 + (if xs \<noteq> [] \<and> snd (last xs) = Free then 0 else 1)" "alloc_blocks r2 = alloc_blocks r1"
    using merge_prev_rep [OF r1(2) refl] unfolding give_block_def us by blast
  have "memory_allocator_push (hdr2mem h) r = Some (update_region_stats 0 0 (-1) r2)"
    using kind sz r1(1) r2(1,2) by (auto simp: memory_allocator_push_def mem2hdr_def hdr2mem_def)
  moreover have "free_blocks r2 = of_nat (count_kind Free (give_block xs h ys))"
  proof -
    have "free_blocks r2 + (if snd (hd ys) = Free then 1 else 0)
        = of_nat (count_kind Free (xs @ (h, Alloc) # ys) + (if xs \<noteq> [] \<and> snd (last xs) = Free then 0 else 1))"
      using inv bs r1(3) r2(4) ys by (simp add: mem_inv_def)
    also have "\<dots> = of_nat (count_kind Free (give_block xs h ys)) + (if snd (hd ys) = Free then 1 else 0)"
      unfolding count_kind_give_block(2) [OF shape, symmetric] by simp
    finally show ?thesis
      by simp
  qed
  moreover have "alloc_blocks r2 - 1 = of_nat (count_kind Alloc (give_block xs h ys))"
    using inv bs r1(4) r2(5) count_kind_give_block(1) [OF shape] by (simp add: mem_inv_def del: count_kind_simps)
  ultimately show ?thesis
    using r2(3) shape_give_block [OF shape] by (auto simp: mem_inv_def)
qed

subsection \<open>The blocks in use\<close>

text \<open>The abstract state of a region: the headers of the allocated blocks with the sizes of the blocks.\<close>

fun alloc_map :: "(u32 \<times> kind) list \<Rightarrow> u32 \<rightharpoonup> u32" where
  "alloc_map ((a, k) # (b, l) # bs) = (if k = Alloc then (alloc_map ((b, l) # bs))(a \<mapsto> b - a) else alloc_map ((b, l) # bs))"
| "alloc_map bs = Map.empty"

lemma alloc_map_dom: "dom (alloc_map bs) \<subseteq> fst ` set bs"
  by (induction bs rule: alloc_map.induct) auto

lemma alloc_map_last_kind: "alloc_map (xs @ [(h, k)]) = alloc_map (xs @ [(h, l)])"
proof (induction xs)
  case (Cons x xs)
  then show ?case
    by (cases x; cases xs) auto
qed simp

lemma alloc_map_append: "alloc_map (xs @ (h, k) # ys) = alloc_map ((h, k) # ys) ++ alloc_map (xs @ [(h, k)])"
proof (induction xs)
  case (Cons x xs)
  then show ?case
    by (cases x; cases xs; cases "hd xs") simp_all
qed simp

lemma alloc_map_not_alloc: "k \<noteq> Alloc \<Longrightarrow> alloc_map ((a, k) # ys) = alloc_map ys"
  by (cases ys) auto

lemma alloc_map_drop_free: "alloc_map (drop_free ys) = alloc_map ys"
  by (cases ys rule: drop_free.cases) (simp_all add: alloc_map_not_alloc)

lemma alloc_map_prefix_notin:
  assumes "a \<notin> fst ` set xs"
  shows "alloc_map (xs @ [(a, k)]) a = None"
  using assms
proof (induction xs)
  case (Cons x xs)
  then show ?case
    by (cases x; cases xs) auto
qed simp

lemma alloc_map_notin: "a \<notin> fst ` set bs \<Longrightarrow> alloc_map bs a = None"
  using alloc_map_dom [of bs] by blast

lemma alloc_map_at:
  assumes "h \<notin> fst ` set xs"
  shows "alloc_map (xs @ (h, k) # (b, l) # ys)
      = (if k = Alloc then (alloc_map ((b, l) # ys) ++ alloc_map (xs @ [(h, Free)]))(h \<mapsto> b - h)
         else alloc_map ((b, l) # ys) ++ alloc_map (xs @ [(h, Free)]))"
proof -
  have "h \<notin> dom (alloc_map (xs @ [(h, Free)]))"
    using alloc_map_prefix_notin [OF assms] by (simp add: domIff)
  then show ?thesis
    unfolding alloc_map_append [of xs h k "(b, l) # ys"] alloc_map_last_kind [of xs h k Free] by (simp add: map_add_upd_left)
qed

lemma alloc_map_split:
  assumes "h \<notin> fst ` set xs" "h \<notin> fst ` set ((b, l) # ys)"
  shows "alloc_map (xs @ (h, Free) # (b, l) # ys) h = None"
    "alloc_map (xs @ (h, Alloc) # (b, l) # ys) = (alloc_map (xs @ (h, k) # (b, l) # ys))(h \<mapsto> b - h)"
  using alloc_map_prefix_notin [OF assms(1)] alloc_map_notin [OF assms(2)]
  unfolding alloc_map_at [OF assms(1)] by (simp_all add: map_add_def)

lemma alloc_map_insert_free:
  assumes "h \<notin> fst ` set xs"
  shows "alloc_map (xs @ (h, Alloc) # (n, Free) # (b, l) # ys) = (alloc_map (xs @ (h, k) # (b, l) # ys))(h \<mapsto> n - h)"
  unfolding alloc_map_at [OF assms] by simp

lemma alloc_map_give_block:
  assumes "h \<notin> fst ` set xs" "h \<notin> fst ` set ys" "ys \<noteq> []"
  shows "alloc_map (give_block xs h ys) = (alloc_map (xs @ (h, Alloc) # ys))(h := None)"
proof -
  have Y: "alloc_map (drop_free ys) = alloc_map ys" "alloc_map ys h = None"
    using alloc_map_drop_free alloc_map_notin assms(2) by blast+
  have A: "alloc_map (xs @ [(h, m)]) h = None" "alloc_map (xs @ [(h, m)]) = alloc_map (xs @ [(h, Free)])" for m
    using alloc_map_prefix_notin [OF assms(1)] alloc_map_last_kind by blast+
  obtain n l zs where ys: "ys = (n, l) # zs"
    using assms(3) by (metis list.exhaust prod.collapse)
  have old: "alloc_map (xs @ (h, Alloc) # ys) = ((alloc_map ys)(h \<mapsto> n - h)) ++ alloc_map (xs @ [(h, Free)])"
    using alloc_map_append [of xs h Alloc ys] A(2) [of Alloc] ys by simp
  show ?thesis
  proof (cases "xs \<noteq> [] \<and> snd (last xs) = Free")
    case True
    then obtain ws p where xs: "xs = ws @ [(p, Free)]"
      by (metis append_butlast_last_id prod.collapse)
    have "alloc_map (xs @ [(h, Free)]) = alloc_map (ws @ [(p, Free)])"
      using alloc_map_append [of ws p Free "[(h, Free)]"] xs by simp
    moreover have "alloc_map (xs @ drop_free ys) = alloc_map ys ++ alloc_map (ws @ [(p, Free)])"
      using alloc_map_append [of ws p Free "drop_free ys"] xs Y(1) by (simp add: alloc_map_not_alloc)
    ultimately show ?thesis
      using True old A(1) [of Free] Y(2) by (auto simp: give_block_def map_add_def fun_eq_iff split: option.splits)
  next
    case False
    have "alloc_map (xs @ (h, Free) # drop_free ys) = alloc_map ys ++ alloc_map (xs @ [(h, Free)])"
      using alloc_map_append [of xs h Free "drop_free ys"] Y(1) by (simp add: alloc_map_not_alloc)
    then show ?thesis
      using False old A(1) [of Free] Y(2) by (auto simp: give_block_def map_add_def fun_eq_iff split: option.splits)
  qed
qed

lemma alloc_map_Some:
  assumes "shape bs" "alloc_map bs h = Some n"
  obtains xs b l ys where "bs = xs @ (h, Alloc) # (b, l) # ys" "n = b - h"
proof -
  have "\<exists>xs b l ys. bs = xs @ (h, Alloc) # (b, l) # ys \<and> n = b - h"
    using assms(2)
  proof (induction bs rule: alloc_map.induct)
    case (1 a k b l bs)
    show ?case
    proof (cases "k = Alloc \<and> h = a")
      case True
      then show ?thesis
        using 1(3) by (intro exI [of _ "[]"]) auto
    next
      case False
      then have "alloc_map ((b, l) # bs) h = Some n"
        using 1(3) by (auto split: if_splits)
      then obtain xs c m ys where "(b, l) # bs = xs @ (h, Alloc) # (c, m) # ys \<and> n = c - h"
        using 1(1,2) by (cases "k = Alloc") blast+
      then show ?thesis
        by (intro exI [of _ "(a, k) # xs"] exI [of _ c] exI [of _ m] exI [of _ ys]) simp
    qed
  qed simp_all
  then show ?thesis
    using that by blast
qed

subsection \<open>Resizing\<close>

lemma shape_grow:
  assumes "shape (xs @ (h, Alloc) # (n, Free) # (c, k) # ys)"
  shows "shape (xs @ (h, Alloc) # (c, k) # ys)" "k \<noteq> Free" "h < n" "n < c" "560 < h"
  using assms by (auto simp: shape_def sorted_wrt_append successively_append_iff successively_Cons)

lemma unat_block:
  assumes "shape (xs @ (h, k) # (b, l) # ys)"
  shows "unat (b - h) = unat b - unat h" "unat h < unat b" "560 < unat h" "32 dvd unat h"
proof -
  have "h < b" "560 < h" "32 dvd unat h"
    using assms by (auto simp: shape_def sorted_wrt_append)
  then show "unat (b - h) = unat b - unat h" "unat h < unat b" "560 < unat h" "32 dvd unat h"
    by (auto simp: unat_sub_le word_less_nat_alt word_le_nat_alt)
qed

text \<open>
  The unsigned difference between the new and the old size: a smaller block never passes the test
  against the size of the next block.
\<close>

lemma resize_diff:
  assumes "unat h < unat n" "unat n < unat c" "560 < unat h" "sz \<noteq> n - h" "\<not> c - n < sz - (n - h)"
  shows "unat (n - h) < unat sz" "unat sz \<le> unat (c - h)" "sz \<le> c - h"
    "sz - (n - h) + 560 \<le> c - n \<Longrightarrow> sz + 560 \<le> c - (h :: u32)"
proof -
  have dist: "unat (n - h) = unat n - unat h" "unat (c - n) = unat c - unat n" "unat (c - h) = unat c - unat h"
    using assms(1,2) by (simp_all add: unat_sub_le word_le_nat_alt)
  have c: "unat c < 4294967296"
    using u32_unat_bound [of c] by simp
  show gt: "unat (n - h) < unat sz"
  proof (rule ccontr)
    assume *: "\<not> unat (n - h) < unat sz"
    have "unat sz \<noteq> unat (n - h)"
      using assms(4) by (metis word_unat_eq_iff)
    then have lt: "unat sz < unat (n - h)"
      using * by simp
    then have "unat (sz - (n - h)) = unat sz + 4294967296 - unat (n - h)"
      by (simp add: unat_sub_if' [of sz])
    then show False
      using assms(1-3,5) dist c lt by (simp add: word_less_nat_alt)
  qed
  then have d: "unat (sz - (n - h)) = unat sz - (unat n - unat h)"
    using dist by (simp add: unat_sub_le word_le_nat_alt)
  show le: "unat sz \<le> unat (c - h)"
    using assms(1,2,5) d dist by (simp add: word_less_nat_alt)
  then show "sz \<le> c - h"
    by (simp add: word_le_nat_alt)
  assume "sz - (n - h) + 560 \<le> c - n"
  moreover have "unat (sz - (n - h) + 560) = unat (sz - (n - h)) + 560"
    using d le dist assms(1-3) c by (subst unat_add_small) simp_all
  ultimately have "unat sz + 560 \<le> unat c - unat h"
    using d dist assms(1,2) le gt by (simp add: word_le_nat_alt) linarith
  then show "sz + 560 \<le> c - h"
    using dist c by (simp add: word_le_nat_alt unat_add_small)
qed

text \<open>The first branch: the next block is free.\<close>

lemma resize_free:
  assumes inv: "mem_inv r bs fs" and bs: "bs = xs @ (h, Alloc) # (n, Free) # (c, k) # ys"
    and sz: "unat sz \<le> 2 ^ 32 - 64" "size_alloc2real sz \<noteq> n - h"
  shows "if c - n < size_alloc2real sz - (n - h) then memory_allocator_resize (hdr2mem h) sz r = Some (None, r)
    else \<exists>r' bs' fs' m. memory_allocator_resize (hdr2mem h) sz r = Some (Some (hdr2mem h), r') \<and> mem_inv r' bs' fs'
      \<and> alloc_map bs' = (alloc_map bs)(h \<mapsto> m) \<and> size_alloc2real sz \<le> m"
proof -
  let ?sz = "size_alloc2real sz" and ?d = "size_alloc2real sz - (n - h)"
  have rep: "mem_rep (free_root r) (block_root r) (self r) (xs @ (h, Alloc) # (n, Free) # (c, k) # ys) fs"
    and rep': "mem_rep (free_root r) (block_root r) (self r) ((xs @ [(h, Alloc)]) @ (n, Free) # (c, k) # ys) fs"
    and shape: "shape (xs @ (h, Alloc) # (n, Free) # (c, k) # ys)"
    using inv bs by (auto simp: mem_inv_def)
  note g = shape_grow [OF shape]
  have reads: "header_is_alloc r h" "\<not> header_is_endblock r h" "\<not> header_is_alloc r n"
    "header_get_size r h = Some (n - h)" "header_get_size r n = Some (c - n)" "clist_next (block_root r) h = Some (Some n)"
    using rep_kind [OF rep, of h Alloc] rep_kind [OF rep, of n Free] rep_size(1,2) [OF rep] rep_size(1) [OF rep'] by simp_all
  show ?thesis
  proof (cases "c - n < ?d")
    case True
    then show ?thesis
      using reads sz(2) by (simp add: memory_allocator_resize_def mem2hdr_def hdr2mem_def Let_def)
  next
    case False
    obtain F B where FB: "on_free (\<lambda>l. clist_remove l n) r = Some (r\<lparr>free_root := F\<rparr>)"
      "on_block (\<lambda>l. clist_remove l n) (r\<lparr>free_root := F\<rparr>) = Some (r\<lparr>free_root := F, block_root := B\<rparr>)"
      "mem_rep F B (self r) (xs @ (h, Alloc) # (c, k) # ys) (remove1 n fs)"
      using rep_merge [OF rep'] by auto
    let ?r = "r\<lparr>free_root := F, block_root := B\<rparr>"
    have h: "h \<notin> fst ` set xs"
      using mem_rep_distinct(2) [OF rep] .
    have u: "unat h < unat n" "unat n < unat c" "560 < unat h"
      using g(3-5) by (simp_all add: word_less_nat_alt)
    note diff = resize_diff [OF u sz(2) False]
    show ?thesis
    proof (cases "?d + 560 \<le> c - n")
      case split: True
      have "0 < ?sz"
        using diff(1) by (simp add: word_less_nat_alt)
      then have m: "h < h + ?sz" "h + ?sz < c" "32 dvd unat (h + ?sz)"
        using split_point [OF g(1) diff(4) [OF split] diff(3) size_alloc2real_dvd] by blast+
      obtain F' B' where S: "split_block h (h + ?sz) ?r = Some (?r\<lparr>free_root := F', block_root := B'\<rparr>)"
        "mem_rep F' B' (self r) (xs @ (h, Alloc) # (h + ?sz, Free) # (c, k) # ys) ((h + ?sz) # remove1 n fs)"
        using rep_split [of ?r xs h Alloc "(c, k) # ys" "remove1 n fs" "h + ?sz"] FB(3) split_fresh [OF g(1) m(1,2)] by auto
      let ?r' = "update_region_stats (- (c - n - ?d)) (-1) 0 (update_region_stats (- ?d) 1 0 (?r\<lparr>free_root := F', block_root := B'\<rparr>))"
      have "memory_allocator_resize (hdr2mem h) sz r = Some (Some (hdr2mem h), ?r')"
        using False split reads sz(2) FB(1,2) S(1) by (simp add: memory_allocator_resize_def mem2hdr_def hdr2mem_def Let_def)
      moreover have "mem_inv ?r' (xs @ (h, Alloc) # (h + ?sz, Free) # (c, k) # ys) ((h + ?sz) # remove1 n fs)"
        using S(2) shape_split [OF g(1,2) m] inv bs by (simp add: mem_inv_def)
      moreover have "alloc_map (xs @ (h, Alloc) # (h + ?sz, Free) # (c, k) # ys) = (alloc_map bs)(h \<mapsto> ?sz)"
        unfolding bs alloc_map_at [OF h] by simp
      ultimately show ?thesis
        using False by (simp only: if_False) blast
    next
      case nosplit: False
      let ?r' = "update_region_stats (- (c - n)) (-1) 0 ?r"
      have "memory_allocator_resize (hdr2mem h) sz r = Some (Some (hdr2mem h), ?r')"
        using False nosplit reads sz(2) FB(1,2) by (simp add: memory_allocator_resize_def mem2hdr_def hdr2mem_def Let_def)
      moreover have "mem_inv ?r' (xs @ (h, Alloc) # (c, k) # ys) (remove1 n fs)"
        using FB(3) g(1) inv bs by (simp add: mem_inv_def)
      moreover have "alloc_map (xs @ (h, Alloc) # (c, k) # ys) = (alloc_map bs)(h \<mapsto> c - h)"
        unfolding bs alloc_map_at [OF h] by simp
      ultimately show ?thesis
        using False diff(3) by (simp only: if_False) blast
    qed
  qed
qed

text \<open>The second branch: the next block is in use.\<close>

lemma resize_used:
  assumes inv: "mem_inv r bs fs" and bs: "bs = xs @ (h, Alloc) # (n, l) # ys" and l: "l \<noteq> Free"
    and sz: "unat sz \<le> 2 ^ 32 - 64" "size_alloc2real sz \<noteq> n - h"
  shows "if n - h < size_alloc2real sz then memory_allocator_resize (hdr2mem h) sz r = Some (None, r)
    else \<exists>r' bs' fs' m. memory_allocator_resize (hdr2mem h) sz r = Some (Some (hdr2mem h), r') \<and> mem_inv r' bs' fs'
      \<and> alloc_map bs' = (alloc_map bs)(h \<mapsto> m) \<and> size_alloc2real sz \<le> m"
proof -
  let ?sz = "size_alloc2real sz"
  have rep: "mem_rep (free_root r) (block_root r) (self r) (xs @ (h, Alloc) # (n, l) # ys) fs"
    and shape: "shape (xs @ (h, Alloc) # (n, l) # ys)"
    using inv bs by (auto simp: mem_inv_def)
  have h: "h \<notin> fst ` set xs"
    using mem_rep_distinct(2) [OF rep] .
  have reads: "header_is_alloc r h" "\<not> header_is_endblock r h" "header_is_alloc r n"
    "header_get_size r h = Some (n - h)" "clist_next (block_root r) h = Some (Some n)"
    using rep_kind [OF rep, of h Alloc] rep_kind(1) [OF rep, of n l] l rep_size(1,2) [OF rep] by simp_all
  note defs = memory_allocator_resize_def mem2hdr_def hdr2mem_def Let_def
  show ?thesis
  proof (cases "n - h < ?sz")
    case True
    then show ?thesis
      using less_imp_le [OF True] reads sz(2) by (simp add: defs)
  next
    case False
    then have le: "?sz \<le> n - h" "\<not> n - h \<le> ?sz"
      using sz(2) by auto
    show ?thesis
    proof (cases "?sz + 560 \<le> n - h")
      case split: True
      have "0 < ?sz"
        using size_alloc2real_ge(1) [OF sz(1)] by (simp add: word_less_nat_alt)
      then have m: "h < h + ?sz" "h + ?sz < n" "32 dvd unat (h + ?sz)"
        using split_point [OF shape split le(1) size_alloc2real_dvd] by blast+
      obtain F' B' where S: "split_block h (h + ?sz) r = Some (r\<lparr>free_root := F', block_root := B'\<rparr>)"
        "mem_rep F' B' (self r) (xs @ (h, Alloc) # (h + ?sz, Free) # (n, l) # ys) ((h + ?sz) # fs)"
        using rep_split [OF rep split_fresh [OF shape m(1,2)]] by auto
      let ?r' = "update_region_stats (- (?sz - (n - h))) 1 0 (r\<lparr>free_root := F', block_root := B'\<rparr>)"
      have "memory_allocator_resize (hdr2mem h) sz r = Some (Some (hdr2mem h), ?r')"
        using le(2) split reads sz(2) S(1) by (simp add: defs)
      moreover have "mem_inv ?r' (xs @ (h, Alloc) # (h + ?sz, Free) # (n, l) # ys) ((h + ?sz) # fs)"
        using S(2) shape_split [OF shape l m] inv bs by (simp add: mem_inv_def)
      moreover have "alloc_map (xs @ (h, Alloc) # (h + ?sz, Free) # (n, l) # ys) = (alloc_map bs)(h \<mapsto> ?sz)"
        unfolding bs alloc_map_at [OF h] by simp
      ultimately show ?thesis
        using False by (simp only: if_False) blast
    next
      case nosplit: False
      have "memory_allocator_resize (hdr2mem h) sz r = Some (Some (hdr2mem h), r)"
        using le(2) nosplit reads sz(2) by (simp add: defs)
      moreover have "alloc_map bs = (alloc_map bs)(h \<mapsto> n - h)"
        unfolding bs alloc_map_at [OF h] by simp
      ultimately show ?thesis
        using False inv le(1) by (simp only: if_False) blast
    qed
  qed
qed

lemma alloc_map_disjoint:
  assumes "shape bs" "alloc_map bs a = Some m" "alloc_map bs b = Some n" "unat a < unat b"
  shows "unat a + unat m \<le> unat b"
proof -
  obtain xs c l ys where bs: "bs = xs @ (a, Alloc) # (c, l) # ys" "m = c - a"
    using alloc_map_Some [OF assms(1,2)] .
  have "b \<in> fst ` set bs"
    using alloc_map_dom [of bs] assms(3) by blast
  then have "b = c \<or> c < b"
    using assms(1,4) bs(1) by (auto simp: shape_def sorted_wrt_append word_less_nat_alt)
  then show ?thesis
    using unat_block(1,2) [of xs a Alloc c l ys] assms(1) bs by (auto simp: word_less_nat_alt)
qed

subsection \<open>What the operations do to the blocks in use\<close>

lemma pop_blocks:
  assumes "mem_inv r bs fs" "unat sz \<le> 2 ^ 32 - 64"
    and "candidate = memory_allocator_candidate \<or> candidate = memory_allocator_candidate_bestfit"
  shows "if \<forall>f \<in> set fs. block_size bs f < size_alloc2real sz then memory_allocator_pop candidate sz r = Some (None, r)
    else \<exists>h xs b l ys r' fs'. bs = xs @ (h, Free) # (b, l) # ys \<and> size_alloc2real sz \<le> b - h
      \<and> memory_allocator_pop candidate sz r = Some (Some (hdr2mem h), r')
      \<and> mem_inv r' (take_block (size_alloc2real sz) xs (b, l) h ys) fs'"
  using assms(3)
proof
  assume "candidate = memory_allocator_candidate"
  then show ?thesis
    using first_fit.pop_correct [OF assms(1,2)] by (simp only:)
next
  assume "candidate = memory_allocator_candidate_bestfit"
  then show ?thesis
    using best_fit.pop_correct [OF assms(1,2)] by (simp only:)
qed

lemma pop_spec:
  assumes "mem_inv r bs fs" "unat sz \<le> 2 ^ 32 - 64"
    and "candidate = memory_allocator_candidate \<or> candidate = memory_allocator_candidate_bestfit"
  shows "if \<forall>f \<in> set fs. block_size bs f < size_alloc2real sz then memory_allocator_pop candidate sz r = Some (None, r)
    else \<exists>h m r' bs' fs'. memory_allocator_pop candidate sz r = Some (Some (hdr2mem h), r') \<and> mem_inv r' bs' fs'
      \<and> alloc_map bs h = None \<and> alloc_map bs' = (alloc_map bs)(h \<mapsto> m) \<and> unat sz + 32 \<le> unat m"
proof (cases "\<forall>f \<in> set fs. block_size bs f < size_alloc2real sz")
  case True
  then show ?thesis
    using pop_blocks [OF assms] by simp
next
  case False
  let ?sz = "size_alloc2real sz"
  obtain h xs b l ys r' fs' where p: "bs = xs @ (h, Free) # (b, l) # ys" "?sz \<le> b - h"
    "memory_allocator_pop candidate sz r = Some (Some (hdr2mem h), r')" "mem_inv r' (take_block ?sz xs (b, l) h ys) fs'"
    using pop_blocks [OF assms] False by (simp only: if_False) blast
  have h: "h \<notin> fst ` set xs" "h \<notin> fst ` set ((b, l) # ys)"
    using assms(1) p(1) mem_rep_distinct(2,3) unfolding mem_inv_def by blast+
  let ?m = "if ?sz + MEMALLOC_SPLIT_SIZE \<le> b - h then ?sz else b - h"
  have "alloc_map (take_block ?sz xs (b, l) h ys) = (alloc_map bs)(h \<mapsto> ?m)"
    unfolding p(1) take_block_def using alloc_map_insert_free [OF h(1), of "h + ?sz" b l ys Free] alloc_map_split(2) [OF h, of Free]
    by simp
  moreover have "alloc_map bs h = None"
    using alloc_map_split(1) [OF h] p(1) by simp
  moreover have "unat sz + 32 \<le> unat ?m"
    using size_alloc2real_ge(1) [OF assms(2)] p(2) by (simp add: word_le_nat_alt)
  ultimately show ?thesis
    using False p(3,4) by (simp only: if_False) blast
qed

lemma push_spec:
  assumes "mem_inv r bs fs" "alloc_map bs h = Some m"
  shows "\<exists>r' bs' fs'. memory_allocator_push (hdr2mem h) r = Some r' \<and> mem_inv r' bs' fs'
    \<and> alloc_map bs' = (alloc_map bs)(h := None)"
proof -
  have shape: "shape bs"
    using assms(1) by (simp add: mem_inv_def)
  obtain xs b l ys where bs: "bs = xs @ (h, Alloc) # (b, l) # ys"
    using alloc_map_Some [OF shape assms(2)] .
  then have h: "h \<notin> fst ` set xs" "h \<notin> fst ` set ((b, l) # ys)"
    using assms(1) mem_rep_distinct(2,3) unfolding mem_inv_def by blast+
  show ?thesis
    using push_give_block [OF assms(1) bs] alloc_map_give_block [OF h] bs by auto
qed

lemma resize_spec:
  assumes "mem_inv r bs fs" "alloc_map bs h = Some m" "unat sz \<le> 2 ^ 32 - 64"
  shows "\<exists>res r' bs' fs'. memory_allocator_resize (hdr2mem h) sz r = Some (res, r') \<and> mem_inv r' bs' fs'
    \<and> (case res of
         None \<Rightarrow> r' = r \<and> bs' = bs
       | Some p \<Rightarrow> p = hdr2mem h \<and> (\<exists>m'. alloc_map bs' = (alloc_map bs)(h \<mapsto> m') \<and> unat sz + 32 \<le> unat m'))"
proof -
  have shape: "shape bs"
    using assms(1) by (simp add: mem_inv_def)
  obtain xs n l ys where bs: "bs = xs @ (h, Alloc) # (n, l) # ys" "m = n - h"
    using alloc_map_Some [OF shape assms(2)] .
  have real: "unat sz + 32 \<le> unat m'" if "size_alloc2real sz \<le> m'" for m'
    using that size_alloc2real_ge(1) [OF assms(3)] by (simp add: word_le_nat_alt)
  consider (same) "size_alloc2real sz = n - h"
    | (other) "memory_allocator_resize (hdr2mem h) sz r = Some (None, r) \<or>
        (\<exists>r' bs' fs' m. memory_allocator_resize (hdr2mem h) sz r = Some (Some (hdr2mem h), r') \<and> mem_inv r' bs' fs'
          \<and> alloc_map bs' = (alloc_map bs)(h \<mapsto> m) \<and> size_alloc2real sz \<le> m)"
  proof (cases "size_alloc2real sz = n - h")
    case False
    show ?thesis
    proof (cases "l = Free")
      case True
      then obtain c k zs where "ys = (c, k) # zs"
        using shape bs(1) by (cases ys) (auto simp: shape_def)
      then show ?thesis
        using that resize_free [OF assms(1) _ assms(3) False] bs(1) True by (metis (no_types, lifting))
    next
      case used: False
      then show ?thesis
        using that resize_used [OF assms(1) bs(1) used assms(3) False] by (metis (no_types, lifting))
    qed
  qed
  then show ?thesis
  proof cases
    case same
    have rep: "mem_rep (free_root r) (block_root r) (self r) (xs @ (h, Alloc) # (n, l) # ys) fs"
      using assms(1) bs by (simp add: mem_inv_def)
    have "memory_allocator_resize (hdr2mem h) sz r = Some (Some (hdr2mem h), r)"
      using same rep_kind [OF rep, of h Alloc] rep_size(1) [OF rep]
      by (simp add: memory_allocator_resize_def mem2hdr_def hdr2mem_def Let_def)
    moreover have "alloc_map bs = (alloc_map bs)(h \<mapsto> n - h)"
      using assms(2) bs(2) by auto
    ultimately show ?thesis
      using assms(1) real [of "n - h"] same by (intro exI [of _ "Some (hdr2mem h)"] exI [of _ r] exI [of _ bs] exI [of _ fs]) auto
  next
    case other
    then show ?thesis
    proof (elim disjE exE conjE)
      assume "memory_allocator_resize (hdr2mem h) sz r = Some (None, r)"
      then show ?thesis
        using assms(1) by (intro exI [of _ None] exI [of _ r] exI [of _ bs] exI [of _ fs]) simp
    next
      fix r' bs' fs' m
      assume "memory_allocator_resize (hdr2mem h) sz r = Some (Some (hdr2mem h), r')" "mem_inv r' bs' fs'"
        "alloc_map bs' = (alloc_map bs)(h \<mapsto> m)" "size_alloc2real sz \<le> m"
      then show ?thesis
        using real by (intro exI [of _ "Some (hdr2mem h)"] exI [of _ r'] exI [of _ bs'] exI [of _ fs']) auto
    qed
  qed
qed

section \<open>Properties\<close>

text \<open>
  C1: With either search (first fit or best fit), \<^verbatim>\<open>memory_allocator_pop\<close> returns null without any change exactly when no
  free block is large enough; otherwise it returns the memory of a block that was free, whose size
  covers the request and the header, and adds just that block to the blocks in use.  The invariant of
  the region holds afterwards: in particular no two free blocks are neighbours and the counters are
  right.
\<close>

theorem memory_allocator_pop_correct:
  assumes "mem_inv r bs fs" "unat sz \<le> 2 ^ 32 - 64"
    and "candidate = memory_allocator_candidate \<or> candidate = memory_allocator_candidate_bestfit"
  shows "if \<forall>f \<in> set fs. block_size bs f < size_alloc2real sz then memory_allocator_pop candidate sz r = Some (None, r)
    else \<exists>h m r' bs' fs'. memory_allocator_pop candidate sz r = Some (Some (hdr2mem h), r') \<and> mem_inv r' bs' fs'
      \<and> alloc_map bs h = None \<and> alloc_map bs' = (alloc_map bs)(h \<mapsto> m) \<and> unat sz + 32 \<le> unat m"
  by (rule pop_spec [OF assms])

text \<open>
  C2: \<^verbatim>\<open>memory_allocator_push\<close> of a block in use succeeds, removes just that block from the blocks in use and keeps the
  invariant of the region: the memory is merged with the free blocks on either side.
\<close>

theorem memory_allocator_push_correct:
  assumes "mem_inv r bs fs" "alloc_map bs h = Some m"
  shows "\<exists>r' bs' fs'. memory_allocator_push (hdr2mem h) r = Some r' \<and> mem_inv r' bs' fs'
    \<and> alloc_map bs' = (alloc_map bs)(h := None)"
  by (rule push_spec [OF assms])

text \<open>
  C29: With either search, allocation followed by a free of the same block gives back the very list of blocks from before.
\<close>

theorem memory_allocator_pop_push:
  assumes "mem_inv r bs fs" "unat sz \<le> 2 ^ 32 - 64" "memory_allocator_pop candidate sz r = Some (Some p, r1)"
    and "candidate = memory_allocator_candidate \<or> candidate = memory_allocator_candidate_bestfit"
  shows "\<exists>r2 fs'. memory_allocator_push p r1 = Some r2 \<and> mem_inv r2 bs fs'"
proof -
  have "\<not> (\<forall>f \<in> set fs. block_size bs f < size_alloc2real sz)"
    using pop_blocks [OF assms(1,2,4)] assms(3) by (auto split: if_splits)
  then obtain h xs b l ys fs' where q: "bs = xs @ (h, Free) # (b, l) # ys" "p = hdr2mem h"
    "mem_inv r1 (take_block (size_alloc2real sz) xs (b, l) h ys) fs'"
    using pop_blocks [OF assms(1,2,4)] assms(3) by (auto split: if_splits)
  have shape: "shape (xs @ (h, Free) # (b, l) # ys)"
    using assms(1) q(1) by (simp add: mem_inv_def)
  then have kinds: "l \<noteq> Free" "xs = [] \<or> snd (last xs) \<noteq> Free"
    by (auto simp: shape_def successively_append_iff successively_Cons)
  have "drop_free ((b, l) # ys) = (b, l) # ys"
    using kinds(1) by (cases l) simp_all
  then have "\<exists>zs. take_block (size_alloc2real sz) xs (b, l) h ys = xs @ (h, Alloc) # zs \<and> give_block xs h zs = bs"
    using kinds(2) q(1) by (auto simp: take_block_def give_block_def)
  then show ?thesis
    using push_give_block [OF q(3)] q(2) by metis
qed

text \<open>
  C28: \<^verbatim>\<open>memory_allocator_resize\<close> of a block in use always returns: either null, without any change, or the same address,
  with the block now large enough for the request, all other blocks in use as before and the invariant
  of the region kept.
\<close>

theorem memory_allocator_resize_correct:
  assumes "mem_inv r bs fs" "alloc_map bs h = Some m" "unat sz \<le> 2 ^ 32 - 64"
  shows "\<exists>res r' bs' fs'. memory_allocator_resize (hdr2mem h) sz r = Some (res, r') \<and> mem_inv r' bs' fs'
    \<and> (case res of
         None \<Rightarrow> r' = r \<and> bs' = bs
       | Some p \<Rightarrow> p = hdr2mem h \<and> (\<exists>m'. alloc_map bs' = (alloc_map bs)(h \<mapsto> m') \<and> unat sz + 32 \<le> unat m'))"
  by (rule resize_spec [OF assms])

text \<open>
  A block whose next block is free cannot be made smaller: \<^verbatim>\<open>memory_allocator_resize\<close> returns null, because the
  negative difference of the sizes is compared as an unsigned number.
\<close>

theorem memory_allocator_resize_shrink:
  assumes "mem_inv r bs fs" "bs = xs @ (h, Alloc) # (n, Free) # ys"
    and "unat sz \<le> 2 ^ 32 - 64" "size_alloc2real sz < n - h"
  shows "memory_allocator_resize (hdr2mem h) sz r = Some (None, r)"
proof -
  have shape: "shape bs"
    using assms(1) by (simp add: mem_inv_def)
  then obtain c k zs where ys: "ys = (c, k) # zs"
    using assms(2) by (cases ys) (auto simp: shape_def)
  note g = shape_grow [OF shape [unfolded assms(2) ys]]
  have "unat h < unat n" "unat n < unat c" "560 < unat h"
    using g(3-5) by (simp_all add: word_less_nat_alt)
  then have "c - n < size_alloc2real sz - (n - h)"
    using resize_diff(1) [of h n c "size_alloc2real sz"] assms(4) word_less_nat_alt by (metis less_irrefl less_trans)
  then show ?thesis
    using resize_free [OF assms(1) assms(2) [unfolded ys] assms(3)] assms(4) by (simp split: if_splits)
qed

lemma size_alloc2real_wrap:
  shows "2 ^ 32 - 32 < unat sz \<Longrightarrow> size_alloc2real sz = 32"
    and "2 ^ 32 - 64 < unat sz \<Longrightarrow> unat sz \<le> 2 ^ 32 - 32 \<Longrightarrow> size_alloc2real sz = 0"
proof -
  define x where "x = unat sz"
  have up: "unat (ALIGN_VALUE_UP sz (2 ^ 5)) = ((x + 31) div 32 * 32) mod 2 ^ 32"
    by (subst unat_ALIGN_VALUE_UP) (simp_all add: x_def add.commute [of 31])
  have x: "x < 4294967296"
    using u32_unat_bound [of sz] by (simp add: x_def)
  {
    assume "2 ^ 32 - 32 < unat sz"
    then have "(x + 31) div 32 = 134217728"
      using x by (intro div_nat_eqI) (simp_all add: x_def)
    then have "unat (ALIGN_VALUE_UP sz MEMALLOC_ALIGN) = 0"
      using up by (simp add: MEMALLOC_ALIGN_def)
    then have "ALIGN_VALUE_UP sz MEMALLOC_ALIGN = 0"
      by (simp only: unat_0_iff)
    then show "size_alloc2real sz = 32"
      by (simp add: size_alloc2real_def)
  next
    assume "2 ^ 32 - 64 < unat sz" "unat sz \<le> 2 ^ 32 - 32"
    then have "(x + 31) div 32 = 134217727"
      using x by (intro div_nat_eqI) (simp_all add: x_def)
    then have "unat (ALIGN_VALUE_UP sz MEMALLOC_ALIGN) = unat (-32 :: u32)"
      using up by (simp add: MEMALLOC_ALIGN_def)
    then have "ALIGN_VALUE_UP sz MEMALLOC_ALIGN = -32"
      by (metis word_unat_eq_iff)
    then show "size_alloc2real sz = 0"
      by (simp add: size_alloc2real_def)
  }
qed

text \<open>
  C38: The size computation wraps around: a request of more than \<open>2\<^sup>32 - 32\<close> bytes is served like one of 0 bytes, and for
  one of \<open>2\<^sup>32 - 63\<close> to \<open>2\<^sup>32 - 32\<close> bytes the size including the header is 0, so that the first free block of 560
  or more bytes is returned and the list of blocks then links the block to itself.
\<close>

theorem memory_allocator_pop_overflow:
  assumes "mem_inv r bs (h # fs)" "560 \<le> block_size bs h"
  shows "(2 ^ 32 - 32 < unat sz \<longrightarrow>
      memory_allocator_pop memory_allocator_candidate sz r = memory_allocator_pop memory_allocator_candidate 0 r)
    \<and> (2 ^ 32 - 64 < unat sz \<and> unat sz \<le> 2 ^ 32 - 32 \<longrightarrow>
      (\<exists>r'. memory_allocator_pop memory_allocator_candidate sz r = Some (Some (hdr2mem h), r')
        \<and> clist_next (block_root r') h = Some (Some h)))"
proof (intro conjI impI)
  assume "2 ^ 32 - 32 < unat sz"
  then have "size_alloc2real sz = size_alloc2real 0"
    using size_alloc2real_wrap(1) [of sz] by (simp add: size_alloc2real_def ALIGN_VALUE_UP_def MEMALLOC_ALIGN_def)
  then show "memory_allocator_pop memory_allocator_candidate sz r = memory_allocator_pop memory_allocator_candidate 0 r"
    by (simp add: memory_allocator_pop_def)
next
  assume "2 ^ 32 - 64 < unat sz \<and> unat sz \<le> 2 ^ 32 - 32"
  then have sz: "size_alloc2real sz = 0"
    using size_alloc2real_wrap(2) by blast
  have "h \<in> set (h # fs)"
    by simp
  then obtain xs b l ys where bs: "bs = xs @ (h, Free) # (b, l) # ys" "block_size bs h = b - h"
    using block_size_free [OF assms(1)] by blast
  have rep: "mem_rep (free_root r) (block_root r) (self r) (xs @ (h, Free) # (b, l) # ys) (h # fs)"
    using assms(1) bs by (simp add: mem_inv_def)
  have "candidate_loop r 0 (Some h) = Some (Some h)"
    using candidate_loop_find [of r bs "[]" "h # fs" 0] assms(1) by simp
  then have c: "memory_allocator_candidate r 0 = Some (Some h)"
    using free_head [OF assms(1)] by (simp add: memory_allocator_candidate_def)
  have reads: "\<not> header_is_alloc r h" "header_get_size r h = Some (b - h)"
    using rep_kind(1) [OF rep, of h Free] rep_size(1) [OF rep] by simp_all
  obtain F where F: "on_free (\<lambda>l. clist_remove l h) r = Some (r\<lparr>free_root := F\<rparr>)"
    "mem_rep (free_root (header_set_alloc h (r\<lparr>free_root := F\<rparr>))) (block_root r) (self r) (xs @ (h, Alloc) # (b, l) # ys) (remove1 h (h # fs))"
    using rep_alloc [OF rep] by blast
  let ?r = "header_set_alloc h (r\<lparr>free_root := F\<rparr>)"
  obtain F' where F': "clist_push (free_root ?r) h = Some F'"
    using rep_free [of ?r xs h "(b, l) # ys" "remove1 h (h # fs)"] F(2) by (auto simp: on_free_def split: bind_splits)
  have "nx (block_root r) (It h) = Some (It b)"
    using rep rep_nx [of "block_root r" "map fst xs" h "b # map fst ys"] by (simp add: mem_rep_def ring_hd_def)
  moreover have "b \<noteq> h"
    using mem_rep_distinct(3) [OF rep] by auto
  ultimately obtain B where B: "clist_insert_post (block_root r) h h = Some B" "nx B (It h) = Some (It h)"
    by (auto simp: clist_insert_post_def set_nx_def set_pv_def)
  have "\<exists>r'. split_block h h ?r = Some r' \<and> block_root r' = B"
    using B(1) F' by (simp add: split_block_def on_block_def on_free_def)
  then obtain r' where "split_block h h ?r = Some r'" "block_root r' = B"
    by blast
  then show "\<exists>r'. memory_allocator_pop memory_allocator_candidate sz r = Some (Some (hdr2mem h), r')
      \<and> clist_next (block_root r') h = Some (Some h)"
    using c reads F(1) sz assms(2) bs(2) B(2) by (simp add: memory_allocator_pop_def clist_next_def clist_item_def)
qed

lemma rep_insert_alloc:
  assumes "mem_rep (free_root r) (block_root r) (self r) (xs @ (a, k) # ys) fs" "h \<notin> fst ` set (xs @ (a, k) # ys)"
  shows "\<exists>F B. on_block (\<lambda>l. clist_insert_post l a h) (header_set_alloc h r) = Some (r\<lparr>free_root := F, block_root := B\<rparr>)
    \<and> mem_rep F B (self r) (xs @ (a, k) # (h, Alloc) # ys) fs"
proof -
  obtain B where "clist_insert_post (block_root r) a h = Some B" "clist_rep B (map fst xs @ a # h # map fst ys)"
    using clist_insert_post_rep [of "block_root r" "map fst xs" a "map fst ys" h] assms by (auto simp: mem_rep_def)
  moreover have "free_inv (free_root (header_set_alloc h r)) (self r) fs ((xs @ [(a, k)]) @ (h, Alloc) # ys)"
    using free_inv_set_alloc [of r fs "xs @ [(a, k)]" ys h] assms by (simp add: mem_rep_def)
  ultimately show ?thesis
    by (intro exI [of _ "free_root (header_set_alloc h r)"] exI [of _ B])
      (simp add: on_block_def mem_rep_def header_set_alloc_def)
qed

text \<open>
  \<^verbatim>\<open>memory_allocator_reserve\<close> of \<open>sz\<close> bytes at \<open>start\<close> in the middle of a free block returns the address of the header, not
  \<open>start\<close>, and makes a block of \<open>sz\<close> bytes including the header: the last 32 bytes of the reserved memory are in
  the free block that follows.
\<close>

theorem memory_allocator_reserve_short:
  assumes inv: "mem_inv r bs fs" and bs: "bs = xs @ (h, Free) # (b, l) # ys"
    and s: "s = ALIGN_VALUE_UP sz MEMALLOC_ALIGN" "32 \<le> s" and found: "get_hdr_for_rsv r start s = Some (Some h)"
    and start: "32 dvd unat start" "h + 560 < start" "unat h + 560 < unat start" "unat start + unat s \<le> unat b"
    and rest: "560 \<le> b - h - s - (start - 32 - h) div 16"
  shows "\<exists>r' bs' fs'. memory_allocator_reserve start sz r = Some (Some (mem2hdr start), r') \<and> mem_inv r' bs' fs'
    \<and> alloc_map bs' = (alloc_map bs)(mem2hdr start \<mapsto> s)"
proof -
  let ?h = "start - 32"
  have rep: "mem_rep (free_root r) (block_root r) (self r) (xs @ (h, Free) # (b, l) # ys) fs"
    and shape: "shape (xs @ (h, Free) # (b, l) # ys)"
    using inv bs by (auto simp: mem_inv_def)
  have uh: "unat ?h = unat start - 32"
    using start(3) by (simp add: unat_sub_le word_le_nat_alt)
  have n: "unat (?h + s) = unat start - 32 + unat s" "32 \<le> unat s"
    using uh start(3,4) s(2) u32_unat_bound [of b] by (simp_all add: unat_add_small word_le_nat_alt)
  have ord: "h < ?h" "?h < ?h + s" "?h + s < b" "?h < b"
    using uh n start(3,4) by (simp_all add: word_less_nat_alt)
  have "h < b"
    using ord by simp
  have dist: "unat (start - h) = unat start - unat h" "unat (b - h) = unat b - unat h"
    using start(3) \<open>h < b\<close> by (simp_all add: unat_sub_le word_le_nat_alt word_less_nat_alt)
  have l: "l \<noteq> Free"
    using shape by (simp add: shape_def successively_append_iff)
  have guards: "\<not> header_is_alloc r h" "header_get_size r h = Some (b - h)" "s \<le> b - h" "560 < start - h"
    using rep_kind(1) [OF rep, of h Free] rep_size(1) [OF rep] dist start(3,4)
    by (simp_all add: word_le_nat_alt word_less_nat_alt)
  obtain F B where FB: "on_block (\<lambda>l. clist_insert_post l h ?h) (header_set_alloc ?h r) = Some (r\<lparr>free_root := F, block_root := B\<rparr>)"
    "mem_rep F B (self r) ((xs @ [(h, Free)]) @ (?h, Alloc) # (b, l) # ys) fs"
    using rep_insert_alloc [OF rep split_fresh [OF shape ord(1,4)]] by auto
  let ?r = "r\<lparr>free_root := F, block_root := B\<rparr>"
  have dvd: "32 dvd unat ?h" "32 dvd unat (?h + s)"
    using start(1) uh n align_dvd [of sz] s(1) by (simp_all add: dvd_diff_nat)
  have shape1: "shape ((xs @ [(h, Free)]) @ (?h, Alloc) # (b, l) # ys)"
    using shape ord dvd(1) l by (auto simp: shape_def sorted_wrt_append successively_append_iff successively_Cons)
  obtain F' B' where S: "split_block ?h (?h + s) ?r = Some (?r\<lparr>free_root := F', block_root := B'\<rparr>)"
    "mem_rep F' B' (self r) ((xs @ [(h, Free)]) @ (?h, Alloc) # (?h + s, Free) # (b, l) # ys) ((?h + s) # fs)"
    using rep_split [of ?r "xs @ [(h, Free)]" ?h Alloc "(b, l) # ys" fs "?h + s"] FB(2) split_fresh [OF shape1 ord(2,3)] by auto
  let ?bs = "(xs @ [(h, Free)]) @ (?h, Alloc) # (?h + s, Free) # (b, l) # ys"
  let ?r1 = "update_region_stats 0 1 0 (?r\<lparr>free_root := F', block_root := B'\<rparr>)"
  have "header_get_size ?r1 ?h = Some s"
    using rep_size(1) [of ?r1 "xs @ [(h, Free)]" ?h Alloc "?h + s" Free "(b, l) # ys" "(?h + s) # fs"] S(2) by simp
  then have "memory_allocator_reserve start sz r = Some (Some ?h, update_region_stats s 0 1 ?r1)"
    using found guards FB(1) S(1) rest s(1) by (simp add: memory_allocator_reserve_def mem2hdr_def mem_hdr_size_def Let_def)
  moreover have "mem_inv (update_region_stats s 0 1 ?r1) ?bs ((?h + s) # fs)"
    using S(2) shape_split [OF shape1 l ord(2,3) dvd(2)] inv bs by (simp add: mem_inv_def)
  moreover have "alloc_map ?bs = (alloc_map bs)(?h \<mapsto> s)"
  proof -
    have "?h \<notin> fst ` set (xs @ [(h, Free)])"
      using mem_rep_distinct(2) [OF FB(2)] .
    then have "alloc_map ?bs = (alloc_map ((b, l) # ys) ++ alloc_map ((xs @ [(h, Free)]) @ [(?h, Free)]))(?h \<mapsto> s)"
      by (subst alloc_map_at) simp_all
    also have "alloc_map ((xs @ [(h, Free)]) @ [(?h, Free)]) = alloc_map (xs @ [(h, Free)])"
      using alloc_map_append [of xs h Free "[(?h, Free)]"] by simp
    also have "alloc_map ((b, l) # ys) ++ alloc_map (xs @ [(h, Free)]) = alloc_map bs"
      using alloc_map_at [OF mem_rep_distinct(2) [OF rep], of Free b l ys] bs by simp
    finally show ?thesis .
  qed
  ultimately show ?thesis
    by (auto simp: mem2hdr_def)
qed

lemma region_init_rep:
  assumes "32 dvd unat hdr" "32 dvd unat e" "e = end - 32" "560 < hdr" "hdr < e" "32 < e - hdr"
  shows "\<exists>r. region_init reg hdr end junk_free junk_block = Some r \<and> mem_inv r [(hdr, Free), (e, End)] [hdr]"
proof -
  let ?r = "\<lparr>self = reg, free_root = clist_empty junk_free, block_root = clist_empty junk_block,
    region_size = e - hdr, alloc_blocks = 0, free_size = e - hdr, free_blocks = 1\<rparr>"
  have ne: "hdr \<noteq> e"
    using assms(5) by simp
  have "free_inv (free_root ?r) (self ?r) [] ([] @ [])"
    by (simp add: free_inv_def clist_rep_empty)
  from free_inv_set_endblock [OF this, of e]
  have end_inv: "free_inv (free_root (header_set_endblock e ?r)) reg [] ([] @ [(e, End)])"
    by simp
  obtain F where F: "clist_push (free_root (header_set_endblock e ?r)) hdr = Some F"
    "free_inv F reg [hdr] [(hdr, Free), (e, End)]"
    using free_inv_push [OF end_inv, of hdr] ne by auto
  obtain B1 where B1: "clist_push (clist_empty junk_block) e = Some B1" "clist_rep B1 [e]"
    using clist_push_rep [OF clist_rep_empty, of e] by auto
  obtain B2 where B2: "clist_push B1 hdr = Some B2" "clist_rep B2 [hdr, e]"
    using clist_push_rep [OF B1(2), of hdr] ne by auto
  let ?r' = "(header_set_endblock e ?r)\<lparr>block_root := B2, free_root := F\<rparr>"
  have "region_init reg hdr end junk_free junk_block = Some ?r'"
    using F(1) B1(1) B2(1) assms(3,6)
    by (simp add: region_init_def init_region_stats_def on_block_def on_free_def header_set_endblock_def Let_def)
  moreover have "mem_inv ?r' [(hdr, Free), (e, End)] [hdr]"
    using F(2) B2(2) assms(1,2,4,5)
    by (auto simp: mem_inv_def mem_rep_def shape_def header_set_endblock_def)
  ultimately show ?thesis
    by blast
qed

text \<open>
  \<^verbatim>\<open>memory_allocator_init\<close> on a range with room for the region and two headers gives a region that satisfies the
  invariant, with one free block that reaches to the end block and nothing in use.
\<close>

theorem memory_allocator_init_inv:
  assumes "hdr = ALIGN_VALUE_UP start MEMALLOC_ALIGN + ALIGN_VALUE_UP rsz MEMALLOC_ALIGN"
    and "e = ALIGN_VALUE_LOW end MEMALLOC_ALIGN - 32" "560 < hdr" "hdr < e" "32 < e - hdr"
  shows "\<exists>r. memory_allocator_init rsz None start end junk_free junk_block = Some (None, r)
    \<and> mem_inv r [(hdr, Free), (e, End)] [hdr] \<and> alloc_map [(hdr, Free), (e, End)] = Map.empty"
proof -
  have "32 dvd unat (ALIGN_VALUE_LOW end (2 ^ 5))"
    by (simp only: unat_ALIGN_VALUE_LOW) simp
  then have "32 dvd unat (ALIGN_VALUE_LOW end MEMALLOC_ALIGN + (- 32))"
    by (intro dvd_unat_add) (simp_all add: MEMALLOC_ALIGN_def)
  then have "32 dvd unat e"
    using assms(2) by simp
  moreover have "32 dvd unat hdr"
    unfolding assms(1) by (rule dvd_unat_add [OF align_dvd align_dvd])
  ultimately obtain r where
    "region_init (ALIGN_VALUE_UP start MEMALLOC_ALIGN) hdr (ALIGN_VALUE_LOW end MEMALLOC_ALIGN) junk_free junk_block = Some r"
    "mem_inv r [(hdr, Free), (e, End)] [hdr]"
    using region_init_rep [OF _ _ assms(2-5)] by blast
  then show ?thesis
    using assms(1) by (intro exI [of _ r]) (simp add: memory_allocator_init_def Let_def)
qed

text \<open>
  \<^verbatim>\<open>memory_allocator_extend\<close> with an aligned range above all blocks of the region adds one free block and an end block,
  keeps the invariant and leaves the blocks in use alone.
\<close>

theorem memory_allocator_extend_inv:
  assumes "mem_inv r bs fs" "fst (last bs) < start" "32 dvd unat start" "32 dvd unat sz"
    and "64 \<le> unat sz" "unat start + unat sz < 2 ^ 32"
  shows "\<exists>r'. memory_allocator_extend start sz r = Some (start, r')
    \<and> mem_inv r' (bs @ [(start, Free), (start + sz - 32, End)]) (start # fs)
    \<and> alloc_map (bs @ [(start, Free), (start + sz - 32, End)]) = alloc_map bs"
proof -
  let ?e = "start + sz - 32"
  have rep: "clist_rep (block_root r) (map fst bs)" "free_inv (free_root r) (self r) fs (bs @ [])" and shape: "shape bs"
    using assms(1) by (simp_all add: mem_inv_def mem_rep_def)
  obtain ws w where bs: "bs = ws @ [(w, End)]"
    using shape by (cases bs rule: rev_cases) (auto simp: shape_def)
  have below: "a < start" if "a \<in> fst ` set bs" for a
    using that shape bs assms(2) by (auto simp: shape_def sorted_wrt_append)
  have "unat (start + sz) = unat start + unat sz"
    using assms(6) by (simp add: unat_add_small)
  then have e: "unat ?e = unat start + unat sz - 32"
    using assms(5) by (subst unat_sub_le) (simp_all add: word_le_nat_alt)
  then have se: "start < ?e" "32 dvd unat ?e"
    using assms(3-5) by (simp_all add: word_less_nat_alt dvd_diff_nat)
  have fresh: "start \<notin> fst ` set (bs @ [])" "?e \<notin> fst ` set ((bs @ [(start, Free)]) @ [])"
    using below se(1) by (force dest: less_trans)+
  obtain B1 where B1: "clist_pushback (block_root r) start = Some B1" "clist_rep B1 (map fst bs @ [start])"
    using clist_pushback_rep [OF rep(1), of start] fresh(1) by auto
  obtain F where F: "clist_push (free_root r) start = Some F" "free_inv F (self r) (start # fs) (bs @ [(start, Free)])"
    using free_inv_push [OF rep(2) fresh(1)] by auto
  obtain B2 where B2: "clist_pushback B1 ?e = Some B2" "clist_rep B2 (map fst (bs @ [(start, Free), (?e, End)]))"
    using clist_pushback_rep [OF B1(2), of ?e] fresh(2) by auto
  let ?r1 = "r\<lparr>block_root := B1, free_root := F\<rparr>"
  have end_inv: "free_inv (free_root (header_set_endblock ?e ?r1)) (self r) (start # fs) ((bs @ [(start, Free)]) @ [(?e, End)])"
    using free_inv_set_endblock [of ?r1 "start # fs" "bs @ [(start, Free)]" "[]" ?e] F(2) fresh(2) by simp
  let ?r2 = "(header_set_endblock ?e ?r1)\<lparr>block_root := B2, region_size := region_size r + sz\<rparr>"
  have "start \<noteq> 0"
    using assms(2) by auto
  then have "memory_allocator_extend start sz r = Some (start, update_region_stats sz 1 0 ?r2)"
    using B1(1) F(1) B2(1)
    by (simp add: memory_allocator_extend_def on_block_def on_free_def header_set_endblock_def Let_def)
  moreover have "shape (bs @ [(start, Free), (?e, End)])"
  proof -
    have "560 < w"
      using shape bs by (simp add: shape_def)
    then have "560 < start" "560 < ?e"
      using below [of w] bs se(1) by (force dest: less_trans)+
    then show ?thesis
      using shape bs below se assms(3)
      by (auto simp: shape_def sorted_wrt_append successively_append_iff dest: less_trans)
  qed
  moreover have "free_inv (free_root ?r2) (self r) (start # fs) (bs @ [(start, Free), (?e, End)])"
    using end_inv by simp
  moreover have "alloc_map (bs @ [(start, Free), (?e, End)]) = alloc_map bs"
    using alloc_map_append [of ws w End "[(start, Free), (?e, End)]"] bs by simp
  ultimately show ?thesis
    using B2(2) assms(1) by (auto simp: mem_inv_def mem_rep_def header_set_endblock_def)
qed

section \<open>The clients of a region\<close>

text \<open>
  The memory that clients have: the addresses they were given, with the sizes they asked for.  A region is
  initialised, and then blocks are allocated by either search, freed and resized by clients that have them, and memory above all
  blocks of the region is added.
\<close>

definition region_below :: "memory_allocator_region_s \<Rightarrow> u32 \<Rightarrow> bool" where
  "region_below r a \<longleftrightarrow> (\<forall>hs. clist_rep (block_root r) hs \<longrightarrow> (\<forall>h \<in> set hs. h < a))"

definition client_gets :: "(u32 \<rightharpoonup> u32) \<Rightarrow> u32 option \<Rightarrow> u32 \<Rightarrow> u32 \<rightharpoonup> u32" where
  "client_gets U p sz = (case p of None \<Rightarrow> U | Some a \<Rightarrow> U(a \<mapsto> sz))"

inductive alloc_reach :: "memory_allocator_region_s \<Rightarrow> (u32 \<rightharpoonup> u32) \<Rightarrow> bool" where
  init: "hdr = ALIGN_VALUE_UP start MEMALLOC_ALIGN + ALIGN_VALUE_UP rsz MEMALLOC_ALIGN \<Longrightarrow>
    e = ALIGN_VALUE_LOW end MEMALLOC_ALIGN - 32 \<Longrightarrow> 560 < hdr \<Longrightarrow> hdr < e \<Longrightarrow> 32 < e - hdr \<Longrightarrow>
    memory_allocator_init rsz None start end junk_free junk_block = Some (c, r) \<Longrightarrow> alloc_reach r Map.empty"
| pop: "alloc_reach r U \<Longrightarrow> candidate = memory_allocator_candidate \<or> candidate = memory_allocator_candidate_bestfit \<Longrightarrow>
    unat sz \<le> 2 ^ 32 - 64 \<Longrightarrow> memory_allocator_pop candidate sz r = Some (p, r') \<Longrightarrow> alloc_reach r' (client_gets U p sz)"
| push: "alloc_reach r U \<Longrightarrow> U p = Some m \<Longrightarrow> memory_allocator_push p r = Some r' \<Longrightarrow> alloc_reach r' (U(p := None))"
| resize: "alloc_reach r U \<Longrightarrow> U p = Some m \<Longrightarrow> unat sz \<le> 2 ^ 32 - 64 \<Longrightarrow>
    memory_allocator_resize p sz r = Some (q, r') \<Longrightarrow> alloc_reach r' (client_gets U q sz)"
| extend: "alloc_reach r U \<Longrightarrow> region_below r start \<Longrightarrow> 32 dvd unat start \<Longrightarrow> 32 dvd unat sz \<Longrightarrow> 64 \<le> unat sz \<Longrightarrow>
    unat start + unat sz < 2 ^ 32 \<Longrightarrow> memory_allocator_extend start sz r = Some (a, r') \<Longrightarrow> alloc_reach r' U"

text \<open>Every address that a client has is the memory of a block in use that holds the size.\<close>

definition client_inv :: "(u32 \<times> kind) list \<Rightarrow> (u32 \<rightharpoonup> u32) \<Rightarrow> bool" where
  "client_inv bs U \<longleftrightarrow> (\<forall>p sz. U p = Some sz \<longrightarrow> (\<exists>m. alloc_map bs (mem2hdr p) = Some m \<and> unat sz + 32 \<le> unat m))"

lemma mem2hdr_hdr2mem [simp]: "mem2hdr (hdr2mem h) = h" "hdr2mem (mem2hdr p) = p"
  by (simp_all add: mem2hdr_def hdr2mem_def)

lemma mem2hdr_inj: "mem2hdr p = mem2hdr q \<longleftrightarrow> p = q"
  by (simp add: mem2hdr_def)

lemma client_invD:
  assumes "client_inv bs U" "U p = Some sz"
  obtains m where "alloc_map bs (mem2hdr p) = Some m" "unat sz + 32 \<le> unat m"
  using assms unfolding client_inv_def by blast

lemma client_inv_upd:
  assumes "client_inv bs U" "alloc_map bs' = (alloc_map bs)(h \<mapsto> m)" "unat sz + 32 \<le> unat m"
  shows "client_inv bs' (U(hdr2mem h \<mapsto> sz))"
  using assms by (auto simp: client_inv_def)

lemma client_inv_del:
  assumes "client_inv bs U" "alloc_map bs' = (alloc_map bs)(mem2hdr p := None)"
  shows "client_inv bs' (U(p := None))"
  using assms by (auto simp: client_inv_def mem2hdr_inj)

lemma client_inv_pop:
  assumes "mem_inv r bs fs" "client_inv bs U" "unat sz \<le> 2 ^ 32 - 64"
    and "candidate = memory_allocator_candidate \<or> candidate = memory_allocator_candidate_bestfit"
  shows "\<exists>p r' bs' fs'. memory_allocator_pop candidate sz r = Some (p, r') \<and> mem_inv r' bs' fs'
    \<and> client_inv bs' (client_gets U p sz) \<and> (\<forall>a. p = Some a \<longrightarrow> U a = None)"
proof (cases "\<forall>f \<in> set fs. block_size bs f < size_alloc2real sz")
  case True
  then have "memory_allocator_pop candidate sz r = Some (None, r)"
    using pop_spec [OF assms(1,3,4)] by (simp only: if_True)
  then show ?thesis
    using assms(1,2) by (intro exI [of _ None] exI [of _ r] exI [of _ bs] exI [of _ fs]) (simp add: client_gets_def)
next
  case False
  then obtain h m r' bs' fs' where r': "memory_allocator_pop candidate sz r = Some (Some (hdr2mem h), r')" "mem_inv r' bs' fs'"
    and m: "alloc_map bs h = None" "alloc_map bs' = (alloc_map bs)(h \<mapsto> m)" "unat sz + 32 \<le> unat m"
    using pop_spec [OF assms(1,3,4)] by (simp only: if_False) blast
  have "U (hdr2mem h) = None"
    using assms(2) m(1) unfolding client_inv_def by (metis mem2hdr_hdr2mem(1) not_Some_eq)
  then show ?thesis
    using r' client_inv_upd [OF assms(2) m(2,3)]
    by (intro exI [of _ "Some (hdr2mem h)"] exI [of _ r'] exI [of _ bs'] exI [of _ fs']) (simp add: client_gets_def)
qed

lemma client_inv_push:
  assumes "mem_inv r bs fs" "client_inv bs U" "U p = Some m"
  shows "\<exists>r' bs' fs'. memory_allocator_push p r = Some r' \<and> mem_inv r' bs' fs' \<and> client_inv bs' (U(p := None))"
proof -
  obtain n where "alloc_map bs (mem2hdr p) = Some n"
    using client_invD [OF assms(2,3)] .
  then obtain r' bs' fs' where "memory_allocator_push p r = Some r'" "mem_inv r' bs' fs'" "alloc_map bs' = (alloc_map bs)(mem2hdr p := None)"
    using push_spec [OF assms(1), of "mem2hdr p"] by auto
  then show ?thesis
    using client_inv_del [OF assms(2)] by blast
qed

lemma client_inv_resize:
  assumes "mem_inv r bs fs" "client_inv bs U" "U p = Some m" "unat sz \<le> 2 ^ 32 - 64"
    and "memory_allocator_resize p sz r = Some (q, r')"
  shows "\<exists>bs' fs'. mem_inv r' bs' fs' \<and> client_inv bs' (client_gets U q sz)"
proof -
  obtain n where n: "alloc_map bs (mem2hdr p) = Some n"
    using client_invD [OF assms(2,3)] .
  obtain bs' fs' where r': "mem_inv r' bs' fs'" and q: "case q of None \<Rightarrow> r' = r \<and> bs' = bs
     | Some a \<Rightarrow> a = hdr2mem (mem2hdr p) \<and> (\<exists>m'. alloc_map bs' = (alloc_map bs)(mem2hdr p \<mapsto> m') \<and> unat sz + 32 \<le> unat m')"
    using resize_spec [OF assms(1) n assms(4)] assms(5) by auto
  have "client_inv bs' (client_gets U q sz)"
  proof (cases q)
    case None
    then show ?thesis
      using q assms(2) by (simp add: client_gets_def)
  next
    case (Some a)
    then show ?thesis
      using q client_inv_upd [OF assms(2), of bs' "mem2hdr p"] by (auto simp: client_gets_def)
  qed
  with r' show ?thesis
    by blast
qed

lemma client_inv_extend:
  assumes "mem_inv r bs fs" "client_inv bs U" "region_below r start" "32 dvd unat start" "32 dvd unat sz" "64 \<le> unat sz"
    and "unat start + unat sz < 2 ^ 32" "memory_allocator_extend start sz r = Some (a, r')"
  shows "\<exists>bs' fs'. mem_inv r' bs' fs' \<and> client_inv bs' U"
proof -
  have "clist_rep (block_root r) (map fst bs)" "bs \<noteq> []"
    using assms(1) by (auto simp: mem_inv_def mem_rep_def shape_def)
  then have "fst (last bs) < start"
    using assms(3) unfolding region_below_def by auto
  then show ?thesis
    using memory_allocator_extend_inv [OF assms(1) _ assms(4-7)] assms(2,8) by (auto simp: client_inv_def)
qed

lemma alloc_reach_inv: "alloc_reach r U \<Longrightarrow> \<exists>bs fs. mem_inv r bs fs \<and> client_inv bs U"
proof (induction rule: alloc_reach.induct)
  case (init hdr start rsz e "end" junk_free junk_block c r)
  then show ?case
    using memory_allocator_init_inv [OF init(1-5), of junk_free junk_block] by (auto simp: client_inv_def)
next
  case (pop r U candidate sz p r')
  then obtain bs fs where inv: "mem_inv r bs fs" "client_inv bs U"
    by blast
  then show ?case
    using client_inv_pop [OF inv pop(3,2)] pop(4) by (elim exE conjE) (simp, blast)
next
  case (push r U p m r')
  then obtain bs fs where inv: "mem_inv r bs fs" "client_inv bs U"
    by blast
  then show ?case
    using client_inv_push [of r bs fs U p m] push(2,3) by (metis option.inject)
next
  case (resize r U p m sz q r')
  then obtain bs fs where inv: "mem_inv r bs fs" "client_inv bs U"
    by blast
  then show ?case
    using client_inv_resize [of r bs fs U p m sz q r'] resize(2-4) by blast
next
  case (extend r U start sz a r')
  then obtain bs fs where inv: "mem_inv r bs fs" "client_inv bs U"
    by blast
  then show ?case
    using client_inv_extend [OF inv extend(2-7)] by blast
qed

text \<open>The memory of two clients.\<close>

lemma client_range:
  assumes "shape bs" "client_inv bs U" "U p = Some m"
  shows "32 dvd unat p" "unat p + unat m < 2 ^ 32" "unat p = unat (mem2hdr p) + 32"
proof -
  obtain n where n: "alloc_map bs (mem2hdr p) = Some n" "unat m + 32 \<le> unat n"
    using client_invD [OF assms(2,3)] .
  obtain xs b l ys where bs: "bs = xs @ (mem2hdr p, Alloc) # (b, l) # ys" "n = b - mem2hdr p"
    using alloc_map_Some [OF assms(1) n(1)] .
  note u = unat_block [OF assms(1) [unfolded bs(1)]]
  have "unat (hdr2mem (mem2hdr p)) = unat (mem2hdr p) + 32"
    using u(1,2) n(2) bs(2) u32_unat_bound [of b] unfolding hdr2mem_def by (subst unat_add_small) simp_all
  then show p: "unat p = unat (mem2hdr p) + 32"
    by simp
  show "32 dvd unat p" "unat p + unat m < 2 ^ 32"
    unfolding p using u n(2) bs(2) u32_unat_bound [of b] by (auto intro: dvd_add)
qed

lemma client_disjoint:
  assumes "shape bs" "client_inv bs U" "U p = Some m" "U q = Some n" "unat p < unat q"
  shows "unat p + unat m \<le> unat q"
proof -
  obtain k where k: "alloc_map bs (mem2hdr p) = Some k" "unat m + 32 \<le> unat k"
    using client_invD [OF assms(2,3)] .
  obtain l where l: "alloc_map bs (mem2hdr q) = Some l"
    using client_invD [OF assms(2,4)] .
  show ?thesis
    using alloc_map_disjoint [OF assms(1) k(1) l] k(2) client_range(3) [OF assms(1,2,3)] client_range(3) [OF assms(1,2,4)] assms(5)
    by linarith
qed

text \<open>
  C27: In every state that a region reaches by any sequence of allocations, frees, resizings and extensions from its initialisation,
  with either search, sizes up to \<open>2 ^ 32 - 64\<close> and clients that free and resize only what they have: the memory of different
  clients, with the sizes that they asked for, does not overlap and is aligned, each of them can be freed without a failed
  assertion, and an allocation always returns, never an address that a client already has.
\<close>

theorem memory_allocator_clients_disjoint:
  assumes "alloc_reach r U"
  shows "(\<forall>p m. U p = Some m \<longrightarrow> 32 dvd unat p \<and> unat p + unat m < 2 ^ 32 \<and> (\<exists>r'. memory_allocator_push p r = Some r')
      \<and> (\<forall>q n. U q = Some n \<and> q \<noteq> p \<longrightarrow> unat p + unat m \<le> unat q \<or> unat q + unat n \<le> unat p))
    \<and> (\<forall>candidate sz. (candidate = memory_allocator_candidate \<or> candidate = memory_allocator_candidate_bestfit)
          \<and> unat sz \<le> 2 ^ 32 - 64 \<longrightarrow>
        (\<exists>p r'. memory_allocator_pop candidate sz r = Some (p, r') \<and> (\<forall>a. p = Some a \<longrightarrow> U a = None)))"
proof -
  obtain bs fs where inv: "mem_inv r bs fs" and U: "client_inv bs U"
    using alloc_reach_inv [OF assms] by blast
  then have shape: "shape bs"
    by (simp add: mem_inv_def)
  have "unat p + unat m \<le> unat q \<or> unat q + unat n \<le> unat p" if q: "U p = Some m" "U q = Some n" "q \<noteq> p" for p m q n
  proof -
    have "unat p \<noteq> unat q"
      using q(3) by (metis word_unat_eq_iff)
    then show ?thesis
      using client_disjoint [OF shape U, of p m q n] client_disjoint [OF shape U, of q n p m] q(1,2) by linarith
  qed
  moreover have "\<exists>r'. memory_allocator_push p r = Some r'" if "U p = Some m" for p m
    using client_inv_push [of r bs fs U p m] inv U that by blast
  moreover have "\<exists>p r'. memory_allocator_pop candidate sz r = Some (p, r') \<and> (\<forall>a. p = Some a \<longrightarrow> U a = None)"
    if "candidate = memory_allocator_candidate \<or> candidate = memory_allocator_candidate_bestfit" "unat sz \<le> 2 ^ 32 - 64" for candidate sz
    using client_inv_pop [OF inv U that(2,1)] by blast
  moreover have "32 dvd unat p" "unat p + unat m < 2 ^ 32" if "U p = Some m" for p m
    using client_range(1,2) [OF shape U, of p m] that by simp_all
  ultimately show ?thesis
    by (intro conjI allI impI) (simp_all only:, blast+)
qed

section \<open>Witnesses\<close>

text \<open>A region of 64 KiB, then with one block in use.\<close>

lemma example_region: "\<exists>r. mem_inv r [(0x10020, Free), (0x1ffe0, End)] [0x10020]"
proof -
  have "\<exists>r. region_init 0x10000 0x10020 0x20000 \<lparr>nx = \<lambda>_. None, pv = \<lambda>_. None\<rparr> \<lparr>nx = \<lambda>_. None, pv = \<lambda>_. None\<rparr> = Some r
    \<and> mem_inv r [(0x10020, Free), (0x1ffe0, End)] [0x10020]"
    by (rule region_init_rep) simp_all
  then show ?thesis
    by blast
qed

lemma example_size: "size_alloc2real 1000 = 0x420"
  by (simp add: size_alloc2real_def ALIGN_VALUE_UP_def MEMALLOC_ALIGN_def)

lemma example_used: "\<exists>r. mem_inv r [(0x10020, Alloc), (0x10440, Free), (0x1ffe0, End)] [0x10440]"
proof -
  obtain r where r: "mem_inv r [(0x10020, Free), (0x1ffe0, End)] [0x10020]"
    using example_region by blast
  have "memory_allocator_candidate r (size_alloc2real 1000) = Some (Some 0x10020)"
    using candidate_loop_find [of r "[(0x10020, Free), (0x1ffe0, End)]" "[]" "[0x10020]" "0x420"] free_head [OF r] r
    by (simp add: memory_allocator_candidate_def example_size)
  then show ?thesis
    using pop_take_block [OF r, of "[]" "0x10020" "0x1ffe0" End "[]" memory_allocator_candidate 1000]
    by (auto simp: example_size take_block_def)
qed

theorem memory_allocator_pop_correct_witness:
  "\<exists>r h m r' bs' fs'. memory_allocator_pop memory_allocator_candidate 1000 r = Some (Some (hdr2mem h), r')
    \<and> mem_inv r' bs' fs' \<and> alloc_map bs' = [h \<mapsto> m] \<and> 1032 \<le> unat m"
proof -
  obtain r where r: "mem_inv r [(0x10020, Free), (0x1ffe0, End)] [0x10020]"
    using example_region by blast
  obtain h m r' bs' fs' where "memory_allocator_pop memory_allocator_candidate 1000 r = Some (Some (hdr2mem h), r')"
    "mem_inv r' bs' fs'" "alloc_map bs' = [h \<mapsto> m]" "1032 \<le> unat m"
    using memory_allocator_pop_correct [OF r, of 1000 memory_allocator_candidate] by (auto simp: example_size)
  then show ?thesis
    by (intro exI conjI)
qed

theorem memory_allocator_push_correct_witness:
  "\<exists>r r' bs' fs'. memory_allocator_push (hdr2mem 0x10020) r = Some r' \<and> mem_inv r' bs' fs' \<and> alloc_map bs' = Map.empty"
proof -
  obtain r where r: "mem_inv r [(0x10020, Alloc), (0x10440, Free), (0x1ffe0, End)] [0x10440]"
    using example_used by blast
  show ?thesis
    using memory_allocator_push_correct [OF r, of "0x10020" "0x420"] by auto
qed

theorem memory_allocator_pop_push_witness:
  "\<exists>r p r1 r2 fs'. memory_allocator_pop memory_allocator_candidate 1000 r = Some (Some p, r1)
    \<and> memory_allocator_push p r1 = Some r2 \<and> mem_inv r2 [(0x10020, Free), (0x1ffe0, End)] fs'"
proof -
  obtain r where r: "mem_inv r [(0x10020, Free), (0x1ffe0, End)] [0x10020]"
    using example_region by blast
  obtain p r1 where "memory_allocator_pop memory_allocator_candidate 1000 r = Some (Some p, r1)"
    using first_fit.pop_correct [OF r, of 1000] by (auto simp: example_size)
  moreover from this obtain r2 fs' where "memory_allocator_push p r1 = Some r2" "mem_inv r2 [(0x10020, Free), (0x1ffe0, End)] fs'"
    using memory_allocator_pop_push [OF r, of 1000 memory_allocator_candidate p r1] by auto
  ultimately show ?thesis
    by (intro exI conjI)
qed

text \<open>Two blocks of 1000 bytes in a new region.\<close>

theorem memory_allocator_clients_disjoint_witness:
  "\<exists>r. alloc_reach r [0x10080 \<mapsto> 1000, 0x104a0 \<mapsto> 1000]
    \<and> (unat (0x10080 :: u32) + unat (1000 :: u32) \<le> unat (0x104a0 :: u32) \<or> unat (0x104a0 :: u32) + unat (1000 :: u32) \<le> unat (0x10080 :: u32))
    \<and> (\<exists>r'. memory_allocator_push 0x10080 r = Some r')"
proof -
  have al: "ALIGN_VALUE_UP 0x10001 MEMALLOC_ALIGN + ALIGN_VALUE_UP 40 MEMALLOC_ALIGN = (0x10060 :: u32)"
    "ALIGN_VALUE_LOW 0x20005 MEMALLOC_ALIGN - 32 = (0x1ffe0 :: u32)"
    by (simp_all add: ALIGN_VALUE_UP_def ALIGN_VALUE_LOW_def MEMALLOC_ALIGN_def)
  let ?junk = "\<lparr>nx = \<lambda>_. None, pv = \<lambda>_. None\<rparr>"
  obtain r where i: "memory_allocator_init 40 None 0x10001 0x20005 ?junk ?junk = Some (None, r)"
    and r: "mem_inv r [(0x10060, Free), (0x1ffe0, End)] [0x10060]"
    using memory_allocator_init_inv [of "0x10060" "0x10001" 40 "0x1ffe0" "0x20005"] al by auto
  have 0: "alloc_reach r Map.empty"
    using i al by (intro alloc_reach.init [of "0x10060" "0x10001" 40 "0x1ffe0" "0x20005"]) simp_all
  have "memory_allocator_candidate r (size_alloc2real 1000) = Some (Some 0x10060)"
    using candidate_loop_find [of r "[(0x10060, Free), (0x1ffe0, End)]" "[]" "[0x10060]" "0x420"] free_head [OF r] r
    by (simp add: memory_allocator_candidate_def example_size)
  then obtain r1 where p1: "memory_allocator_pop memory_allocator_candidate 1000 r = Some (Some 0x10080, r1)"
    and r1: "mem_inv r1 [(0x10060, Alloc), (0x10480, Free), (0x1ffe0, End)] [0x10480]"
    using pop_take_block [OF r, of "[]" "0x10060" "0x1ffe0" End "[]" memory_allocator_candidate 1000]
    by (auto simp: example_size take_block_def hdr2mem_def)
  have 1: "alloc_reach r1 [0x10080 \<mapsto> 1000]"
    using alloc_reach.pop [OF 0 _ _ p1] by (simp add: client_gets_def)
  have "memory_allocator_candidate r1 (size_alloc2real 1000) = Some (Some 0x10480)"
    using candidate_loop_find [of r1 "[(0x10060, Alloc), (0x10480, Free), (0x1ffe0, End)]" "[]" "[0x10480]" "0x420"] free_head [OF r1] r1
    by (simp add: memory_allocator_candidate_def example_size)
  then obtain r2 where p2: "memory_allocator_pop memory_allocator_candidate 1000 r1 = Some (Some 0x104a0, r2)"
    using pop_take_block [OF r1, of "[(0x10060, Alloc)]" "0x10480" "0x1ffe0" End "[]" memory_allocator_candidate 1000]
    by (auto simp: example_size take_block_def hdr2mem_def)
  have 2: "alloc_reach r2 [0x10080 \<mapsto> 1000, 0x104a0 \<mapsto> 1000]"
    using alloc_reach.pop [OF 1 _ _ p2] by (simp add: client_gets_def)
  have "(0x104a0 :: u32) \<noteq> 0x10080"
    by simp
  then show ?thesis
    using memory_allocator_clients_disjoint [OF 2, THEN conjunct1, rule_format, of "0x10080" 1000] 2
    by (intro exI [of _ r2]) auto
qed

theorem memory_allocator_resize_correct_witness:
  "\<exists>r res r'. memory_allocator_resize (hdr2mem 0x10020) 2000 r = Some (res, r')"
proof -
  obtain r where r: "mem_inv r [(0x10020, Alloc), (0x10440, Free), (0x1ffe0, End)] [0x10440]"
    using example_used by blast
  show ?thesis
    using memory_allocator_resize_correct [OF r, of "0x10020" "0x420" 2000] by auto
qed

theorem memory_allocator_resize_shrink_witness:
  "\<exists>r. memory_allocator_resize (hdr2mem 0x10020) 10 r = Some (None, r)"
proof -
  obtain r where r: "mem_inv r [(0x10020, Alloc), (0x10440, Free), (0x1ffe0, End)] [0x10440]"
    using example_used by blast
  have "size_alloc2real 10 = 64"
    by (simp add: size_alloc2real_def ALIGN_VALUE_UP_def MEMALLOC_ALIGN_def)
  then show ?thesis
    using memory_allocator_resize_shrink [OF r, of "[]" "0x10020" "0x10440" "[(0x1ffe0, End)]" 10] by auto
qed

theorem memory_allocator_pop_overflow_witness:
  "\<exists>r r'. memory_allocator_pop memory_allocator_candidate 0xffffffe0 r = Some (Some (hdr2mem 0x10020), r')
    \<and> clist_next (block_root r') 0x10020 = Some (Some 0x10020)"
proof -
  obtain r where r: "mem_inv r [(0x10020, Free), (0x1ffe0, End)] [0x10020]"
    using example_region by blast
  show ?thesis
    using memory_allocator_pop_overflow [OF r, of "0xffffffe0"] by auto
qed

theorem memory_allocator_reserve_short_witness:
  "\<exists>r r' bs' fs'. memory_allocator_reserve 0x10820 0x400 r = Some (Some 0x10800, r') \<and> mem_inv r' bs' fs'
    \<and> alloc_map bs' = [0x10800 \<mapsto> 0x400]"
proof -
  obtain r where r: "mem_inv r [(0x10020, Free), (0x1ffe0, End)] [0x10020]"
    using example_region by blast
  have al: "ALIGN_VALUE_UP 0x400 MEMALLOC_ALIGN = (0x400 :: u32)"
    by (simp add: ALIGN_VALUE_UP_def MEMALLOC_ALIGN_def)
  have "header_get_size r 0x10020 = Some 0xffc0"
    using header_get_size_block(1) [OF r, of "0x10020"] by simp
  then have "get_hdr_for_rsv r 0x10820 0x400 = Some (Some 0x10020)"
    using free_head [OF r] by (simp add: get_hdr_for_rsv_def rsv_loop.simps mem_hdr_size_def)
  then show ?thesis
    using memory_allocator_reserve_short [OF r, of "[]" "0x10020" "0x1ffe0" End "[]" "0x400" "0x400" "0x10820"] al
    by (auto simp: mem2hdr_def)
qed

theorem memory_allocator_init_inv_witness:
  "\<exists>r. memory_allocator_init 40 None 0x10001 0x20005 \<lparr>nx = \<lambda>_. None, pv = \<lambda>_. None\<rparr> \<lparr>nx = \<lambda>_. None, pv = \<lambda>_. None\<rparr> = Some (None, r)
    \<and> mem_inv r [(0x10060, Free), (0x1ffe0, End)] [0x10060]"
proof -
  have "ALIGN_VALUE_UP 0x10001 MEMALLOC_ALIGN + ALIGN_VALUE_UP 40 MEMALLOC_ALIGN = (0x10060 :: u32)"
    "ALIGN_VALUE_LOW 0x20005 MEMALLOC_ALIGN - 32 = (0x1ffe0 :: u32)"
    by (simp_all add: ALIGN_VALUE_UP_def ALIGN_VALUE_LOW_def MEMALLOC_ALIGN_def)
  then show ?thesis
    using memory_allocator_init_inv [of "0x10060" "0x10001" 40 "0x1ffe0" "0x20005"] by auto
qed

theorem memory_allocator_extend_inv_witness:
  "\<exists>r r'. memory_allocator_extend 0x40000 0x1000 r = Some (0x40000, r')
    \<and> mem_inv r' [(0x10020, Free), (0x1ffe0, End), (0x40000, Free), (0x40fe0, End)] [0x40000, 0x10020]"
proof -
  obtain r where r: "mem_inv r [(0x10020, Free), (0x1ffe0, End)] [0x10020]"
    using example_region by blast
  show ?thesis
    using memory_allocator_extend_inv [OF r, of "0x40000" "0x1000"] by auto
qed

end
