(* ===== verification/Memalloc_Check.thy ===== *)
theory Memalloc_Check
  imports Memory_Allocator Libc_Mem Crc32
begin

text \<open>
  The debugging aids of \<^verbatim>\<open>mutek/memory_allocator_smart.c\<close> on the flat memory: guard zones before and after the memory
  of a block (\<^verbatim>\<open>CONFIG_MUTEK_MEMALLOC_GUARD\<close>), scrambling (\<^verbatim>\<open>CONFIG_MUTEK_MEMALLOC_SCRAMBLE\<close>) and the checksum of the header
  (\<^verbatim>\<open>CONFIG_MUTEK_MEMALLOC_CRC\<close>).  A check is true when it passes; the code prints a message and aborts when it does
  not.  The lemmas show that the checks accept what the setters wrote, that the setters leave the memory of
  the user alone, and that each overwritten byte of a guard zone is detected.
\<close>

section \<open>Definitions\<close>

text \<open>The translations of addresses and sizes in the build with guard zones.\<close>

definition guard_hdr2mem :: "u32 \<Rightarrow> u32" where
  "guard_hdr2mem hdr = hdr + mem_hdr_size_align + MEMALLOC_GUARD_SIZE"

definition guard_mem2hdr :: "u32 \<Rightarrow> u32" where
  "guard_mem2hdr mem = mem - mem_hdr_size_align - MEMALLOC_GUARD_SIZE"

definition guard_size_real2alloc :: "u32 \<Rightarrow> u32" where
  "guard_size_real2alloc sz = sz - MEMALLOC_GUARD_SIZE * 2 - mem_hdr_size_align"

definition memory_allocator_guard_set :: "u32 \<Rightarrow> u32 \<Rightarrow> mem \<Rightarrow> mem" where
  "memory_allocator_guard_set sz hdr m =
     (let m = memset m (hdr + mem_hdr_size_align) 0x55 (unat MEMALLOC_GUARD_SIZE)
      in memset m (hdr + sz - MEMALLOC_GUARD_SIZE) 0xaa (unat MEMALLOC_GUARD_SIZE))"

definition memory_allocator_guard_check :: "u32 \<Rightarrow> u32 \<Rightarrow> mem \<Rightarrow> bool" where
  "memory_allocator_guard_check sz hdr m =
     (let r = (of_int (memcstcmp m (hdr + mem_hdr_size_align) 0x55 (unat MEMALLOC_GUARD_SIZE)) :: u8)
      in if r \<noteq> 0 then False
         else let r = (of_int (memcstcmp m (hdr + sz - MEMALLOC_GUARD_SIZE) 0xaa (unat MEMALLOC_GUARD_SIZE)) :: u8)
              in r = 0)"

text \<open>\<open>alloc\<close> is the kind of the block in its header.\<close>

definition memory_allocator_scramble_set :: "bool \<Rightarrow> u32 \<Rightarrow> u32 \<Rightarrow> mem \<Rightarrow> mem" where
  "memory_allocator_scramble_set alloc sz hdr m =
     (if \<not> alloc then memset m (guard_hdr2mem hdr) 0xa5 (unat (guard_size_real2alloc sz))
      else memset m (guard_hdr2mem hdr) 0x5a (unat (guard_size_real2alloc sz)))"

definition memory_allocator_scramble_check :: "bool \<Rightarrow> u32 \<Rightarrow> u32 \<Rightarrow> mem \<Rightarrow> bool" where
  "memory_allocator_scramble_check alloc sz hdr m \<longleftrightarrow>
     (\<not> alloc \<longrightarrow> memcstcmp m (guard_hdr2mem hdr) 0xa5 (unat (guard_size_real2alloc sz)) = 0)"

text \<open>The checksum is stored behind the 16 bytes it is computed over.\<close>

definition header_crc :: "u32 \<Rightarrow> mem \<Rightarrow> crypto_crc32_ctx_s" where
  "header_crc hdr m =
     crypto_crc32_update (crypto_crc32_init \<lparr>crc = 0\<rparr>) (map (\<lambda>i. m (hdr + of_nat i)) [0..<unat mem_hdr_size])"

definition memory_allocator_crc_set :: "u32 \<Rightarrow> mem \<Rightarrow> mem" where
  "memory_allocator_crc_set hdr m = crypto_crc32_get (header_crc hdr m) m (hdr + mem_hdr_size)"

definition memory_allocator_crc_check :: "u32 \<Rightarrow> mem \<Rightarrow> bool" where
  "memory_allocator_crc_check hdr m =
     (let result = crypto_crc32_get (header_crc hdr m) (\<lambda>_. 0) 0
      in map (\<lambda>i. m (hdr + mem_hdr_size + of_nat i)) [0..<4] = map (\<lambda>i. result (of_nat i)) [0..<4])"

section \<open>Lemmas\<close>

lemma memcstcmp_zero: "memcstcmp m s v n = 0 \<longleftrightarrow> (\<forall>i < n. m (s + of_nat i) = v)"
proof (induction n arbitrary: s)
  case (Suc n)
  have "(\<forall>i < Suc n. m (s + of_nat i) = v) \<longleftrightarrow> m s = v \<and> (\<forall>i < n. m (s + 1 + of_nat i) = v)"
    by (auto simp: less_Suc_eq_0_disj all_conj_distrib add.assoc)
  then show ?case
    using Suc by (auto simp: signed_word_eqI)
qed simp

lemma memcstcmp_u8: "(of_int (memcstcmp m s v n) :: u8) = 0 \<longleftrightarrow> memcstcmp m s v n = 0"
proof (induction n arbitrary: s)
  case (Suc n)
  then show ?case
    by (simp add: of_int_sint) (metis signed_word_eqI)
qed simp

lemma guard_check_iff:
  "memory_allocator_guard_check sz hdr m
    \<longleftrightarrow> (\<forall>i < 256. m (hdr + 32 + of_nat i) = 0x55) \<and> (\<forall>i < 256. m (hdr + sz - 256 + of_nat i) = 0xaa)"
  by (simp add: memory_allocator_guard_check_def Let_def memcstcmp_u8 memcstcmp_zero MEMALLOC_GUARD_SIZE_def)

lemma memset_at:
  "n < 2 ^ 32 \<Longrightarrow> memset m dst s n x = (if unat (x - dst) < n then s else m x)"
  by (simp add: memset_is_bytes memset_bytes_filled filled_def)

lemma guard_set_head:
  assumes "544 \<le> unat sz" "i < 256"
  shows "memory_allocator_guard_set sz hdr m (hdr + 32 + of_nat i) = 0x55"
proof -
  have "hdr + 32 + of_nat i - (hdr + sz - 256) = 288 + of_nat i - sz"
    by simp
  moreover have "unat (288 + of_nat i - sz) = 4294967296 + 288 + i - unat sz"
  proof -
    have "unat (288 + of_nat i :: u32) = 288 + i"
      using assms(2) by (simp add: unat_add_small unat_of_nat)
    then show ?thesis
      using assms by (simp add: unat_sub_if' [of _ sz])
  qed
  ultimately have "unat (hdr + 32 + of_nat i - (hdr + sz - 256)) = 4294967296 + 288 + i - unat sz"
    by (simp only:)
  then have "\<not> unat (hdr + 32 + of_nat i - (hdr + sz - 256)) < 256"
    unfolding not_less using u32_unat_bound [of sz] by simp
  moreover have "unat (of_nat i :: u32) = i"
    using assms(2) by (simp add: unat_of_nat)
  ultimately show ?thesis
    using assms(2) by (simp add: memory_allocator_guard_set_def Let_def memset_at MEMALLOC_GUARD_SIZE_def)
qed

lemma guard_set_tail:
  assumes "i < 256"
  shows "memory_allocator_guard_set sz hdr m (hdr + sz - 256 + of_nat i) = 0xaa"
  using assms by (simp add: memory_allocator_guard_set_def Let_def memset_at MEMALLOC_GUARD_SIZE_def unat_of_nat)

text \<open>The memory of the user, between the guard zones.\<close>

lemma guard_set_user:
  assumes "544 \<le> unat sz" "i < unat (guard_size_real2alloc sz)"
  shows "memory_allocator_guard_set sz hdr m (guard_hdr2mem hdr + of_nat i) = m (guard_hdr2mem hdr + of_nat i)"
proof -
  have sz: "unat (guard_size_real2alloc sz) = unat sz - 544"
    using assms(1) by (simp add: guard_size_real2alloc_def MEMALLOC_GUARD_SIZE_def unat_sub_le word_le_nat_alt)
  have i: "unat (of_nat i :: u32) = i" "i + 544 < unat sz" "unat sz < 4294967296"
    using assms(2) sz u32_unat_bound [of sz] by (simp_all add: unat_of_nat)
  have "unat (288 + of_nat i - 32 :: u32) = 256 + i"
    using i by (simp add: unat_add_small)
  then have 1: "\<not> unat (guard_hdr2mem hdr + of_nat i - (hdr + 32)) < 256"
    by (simp add: guard_hdr2mem_def MEMALLOC_GUARD_SIZE_def algebra_simps)
  have "guard_hdr2mem hdr + of_nat i - (hdr + sz - 256) = 544 + of_nat i - sz"
    by (simp add: guard_hdr2mem_def MEMALLOC_GUARD_SIZE_def)
  moreover have "unat (544 + of_nat i :: u32) = 544 + i"
    using i by (simp add: unat_add_small)
  moreover have "unat (544 + of_nat i - sz) = 4294967296 + 544 + i - unat sz"
    using i calculation(2) by (simp add: unat_sub_if' [of "544 + of_nat i" sz])
  ultimately have "unat (guard_hdr2mem hdr + of_nat i - (hdr + sz - 256)) = 4294967296 + 544 + i - unat sz"
    by (simp only:)
  then have "\<not> unat (guard_hdr2mem hdr + of_nat i - (hdr + sz - 256)) < 256"
    using i by simp
  with 1 show ?thesis
    by (simp add: memory_allocator_guard_set_def Let_def memset_at MEMALLOC_GUARD_SIZE_def)
qed

lemma unat_numeral_16: "unat (16 :: u32) = 16"
  by simp

lemma crc_check_set: "memory_allocator_crc_check hdr (memory_allocator_crc_set hdr m)"
proof -
  let ?m = "memory_allocator_crc_set hdr m"
  have same: "header_crc hdr ?m = header_crc hdr m"
  proof -
    have "?m (hdr + of_nat i) = m (hdr + of_nat i)" if "i < 16" for i
    proof -
      have "unat (of_nat i :: u32) = i"
        using that by (simp add: unat_of_nat)
      then have "(of_nat i :: u32) \<noteq> 16" "(of_nat i :: u32) \<noteq> 17" "(of_nat i :: u32) \<noteq> 18" "(of_nat i :: u32) \<noteq> 19"
        using that by (auto dest!: arg_cong [of _ _ unat])
      then show ?thesis
        by (simp add: memory_allocator_crc_set_def crypto_crc32_get_def endian_be32_na_store_def NAS_R_def mem_hdr_size_def)
    qed
    then have "map (\<lambda>i. ?m (hdr + of_nat i)) [0..<16] = map (\<lambda>i. m (hdr + of_nat i)) [0..<16]"
      by (intro map_cong) auto
    then show ?thesis
      by (simp only: header_crc_def mem_hdr_size_def unat_numeral_16)
  qed
  show ?thesis
    unfolding memory_allocator_crc_check_def same Let_def
    by (simp add: memory_allocator_crc_set_def crypto_crc32_get_def endian_be32_na_store_def NAS_R_def mem_hdr_size_def upt_rec)
qed

lemma scramble_check_iff:
  "memory_allocator_scramble_check alloc sz hdr m
    \<longleftrightarrow> alloc \<or> (\<forall>i < unat (guard_size_real2alloc sz). m (guard_hdr2mem hdr + of_nat i) = 0xa5)"
  by (auto simp: memory_allocator_scramble_check_def memcstcmp_zero)

lemma scramble_set_at:
  assumes "i < unat (guard_size_real2alloc sz)"
  shows "memory_allocator_scramble_set False sz hdr m (guard_hdr2mem hdr + of_nat i) = 0xa5"
proof -
  have "unat (of_nat i :: u32) = i"
    using assms u32_unat_bound [of "guard_size_real2alloc sz"] by (simp add: unat_of_nat)
  then show ?thesis
    using assms u32_unat_bound [of "guard_size_real2alloc sz"] by (simp add: memory_allocator_scramble_set_def memset_at)
qed

section \<open>Property\<close>

text \<open>
  C30: For a block with room for both guard zones: after scrambling the block as free, setting its guard zones and
  its checksum, in the order of \<^verbatim>\<open>memory_allocator_nolock_extend\<close>, all three checks pass; setting the guard zones
  changes no byte of the memory of the user; and the guard check fails as soon as one byte of a guard zone
  has another value.
\<close>

theorem memory_allocator_checks:
  assumes "544 \<le> unat sz" "m1 = memory_allocator_guard_set sz hdr (memory_allocator_scramble_set False sz hdr m)"
  shows "memory_allocator_guard_check sz hdr m1 \<and> memory_allocator_scramble_check False sz hdr m1
    \<and> memory_allocator_crc_check hdr (memory_allocator_crc_set hdr m1)
    \<and> (\<forall>i. i < unat (guard_size_real2alloc sz) \<longrightarrow>
        memory_allocator_guard_set sz hdr m (guard_hdr2mem hdr + of_nat i) = m (guard_hdr2mem hdr + of_nat i))
    \<and> (\<forall>i v. i < 256 \<longrightarrow> v \<noteq> 0x55 \<longrightarrow> \<not> memory_allocator_guard_check sz hdr (m1(hdr + 32 + of_nat i := v)))
    \<and> (\<forall>i v. i < 256 \<longrightarrow> v \<noteq> 0xaa \<longrightarrow> \<not> memory_allocator_guard_check sz hdr (m1(hdr + sz - 256 + of_nat i := v)))"
  using assms guard_set_head guard_set_tail guard_set_user scramble_set_at crc_check_set
  by (auto simp: guard_check_iff scramble_check_iff simp del: fun_upd_apply) (metis fun_upd_same)+

theorem memory_allocator_checks_witness:
  "memory_allocator_guard_check 1024 0x2000
     (memory_allocator_guard_set 1024 0x2000 (memory_allocator_scramble_set False 1024 0x2000 (\<lambda>_. 0)))"
  using memory_allocator_checks [of 1024 _ "0x2000" "\<lambda>_. 0"] by auto

end
