(* ===== verification/Pthread_Mutex.thy ===== *)
theory Pthread_Mutex
  imports Scheduler
begin

text \<open>
  \<^verbatim>\<open>libpthread/mutex.c\<close> with the inline functions of \<^verbatim>\<open>pthread.h\<close> that call it, in the configuration with
  \<^verbatim>\<open>CONFIG_PTHREAD_MUTEX_ATTR\<close>.  A mutex has its count, the context that owns it and the number of its wait
  queue in the state of the scheduler; every operation runs with that queue locked and interrupts
  disabled and is one step, up to the call that makes the caller wait.  An attribute object is the table
  of the functions of one of the three kinds; here it is the name of the kind.  The lemmas show mutual
  exclusion for every interleaving with the rest of the system, the order in which the waiting contexts
  get the mutex, and what the error results are.
\<close>

section \<open>Operations\<close>

datatype mutex_kind = Mutex_normal | Mutex_errorcheck | Mutex_recursive

record pthread_mutex_s =
  mx_count :: u32
  mx_attr :: mutex_kind
  mx_owner :: "nat option"
  mx_wait :: nat

type_synonym mutex_result = "(error_t \<times> pthread_mutex_s \<times> sched_state) option"

definition pthread_mutex_normal_lock :: "nat \<Rightarrow> pthread_mutex_s \<Rightarrow> sched_state \<Rightarrow> mutex_result" where
  "pthread_mutex_normal_lock c mutex s =
     (if mx_count mutex \<noteq> 0 then do {
        s \<leftarrow> sched_wait_unlock c (mx_wait mutex) s;
        Some (0, mutex, s)
      }
      else Some (0, mutex\<lparr>mx_count := mx_count mutex + 1\<rparr>, s))"

definition pthread_mutex_normal_trylock :: "pthread_mutex_s \<Rightarrow> sched_state \<Rightarrow> mutex_result" where
  "pthread_mutex_normal_trylock mutex s =
     (if mx_count mutex = 0 then Some (0, mutex\<lparr>mx_count := mx_count mutex + 1\<rparr>, s)
      else Some (EBUSY, mutex, s))"

definition pthread_mutex_normal_unlock :: "pthread_mutex_s \<Rightarrow> sched_state \<Rightarrow> mutex_result" where
  "pthread_mutex_normal_unlock mutex s =
     (case sched_wake (mx_wait mutex) s of
        (None, s) \<Rightarrow> Some (0, mutex\<lparr>mx_count := mx_count mutex - 1\<rparr>, s)
      | (Some t, s) \<Rightarrow> Some (0, mutex, s))"

definition pthread_mutex_errorcheck_lock :: "nat \<Rightarrow> pthread_mutex_s \<Rightarrow> sched_state \<Rightarrow> mutex_result" where
  "pthread_mutex_errorcheck_lock c mutex s = do {
     t \<leftarrow> sched_get_current c s;
     if mx_count mutex \<noteq> 0 then
       if mx_owner mutex = Some t then Some (EDEADLK, mutex, s)
       else do {
         s \<leftarrow> sched_wait_unlock c (mx_wait mutex) s;
         Some (0, mutex, s)
       }
     else Some (0, mutex\<lparr>mx_owner := Some t, mx_count := mx_count mutex + 1\<rparr>, s)
   }"

definition pthread_mutex_errorcheck_trylock :: "nat \<Rightarrow> pthread_mutex_s \<Rightarrow> sched_state \<Rightarrow> mutex_result" where
  "pthread_mutex_errorcheck_trylock c mutex s = do {
     t \<leftarrow> sched_get_current c s;
     if mx_count mutex \<noteq> 0 then
       if mx_owner mutex = Some t then Some (EDEADLK, mutex, s) else Some (EBUSY, mutex, s)
     else Some (0, mutex\<lparr>mx_count := mx_count mutex + 1\<rparr>, s)
   }"

text \<open>The result the function computes in \<^verbatim>\<open>res\<close> is not the one it returns.\<close>

definition pthread_mutex_errorcheck_unlock :: "nat \<Rightarrow> pthread_mutex_s \<Rightarrow> sched_state \<Rightarrow> mutex_result" where
  "pthread_mutex_errorcheck_unlock c mutex s = do {
     t \<leftarrow> sched_get_current c s;
     let (res, mutex, s) =
       (if mx_count mutex \<noteq> 0 then
          if mx_owner mutex = Some t then
            case sched_wake (mx_wait mutex) s of
              (None, s) \<Rightarrow> (0, mutex\<lparr>mx_owner := None, mx_count := mx_count mutex - 1\<rparr>, s)
            | (Some w, s) \<Rightarrow> (0, mutex\<lparr>mx_owner := Some w\<rparr>, s)
          else (EPERM, mutex, s)
        else (EBUSY, mutex, s));
     Some (0, mutex, s)
   }"

definition pthread_mutex_recursive_lock :: "nat \<Rightarrow> pthread_mutex_s \<Rightarrow> sched_state \<Rightarrow> mutex_result" where
  "pthread_mutex_recursive_lock c mutex s = do {
     t \<leftarrow> sched_get_current c s;
     if mx_count mutex \<noteq> 0 \<and> mx_owner mutex \<noteq> Some t then do {
       s \<leftarrow> sched_wait_unlock c (mx_wait mutex) s;
       Some (0, mutex, s)
     }
     else Some (0, mutex\<lparr>mx_owner := Some t, mx_count := mx_count mutex + 1\<rparr>, s)
   }"

definition pthread_mutex_recursive_trylock :: "nat \<Rightarrow> pthread_mutex_s \<Rightarrow> sched_state \<Rightarrow> mutex_result" where
  "pthread_mutex_recursive_trylock c mutex s = do {
     t \<leftarrow> sched_get_current c s;
     if mx_count mutex \<noteq> 0 \<and> mx_owner mutex \<noteq> Some t then Some (EBUSY, mutex, s)
     else Some (0, mutex\<lparr>mx_count := mx_count mutex + 1\<rparr>, s)
   }"

definition pthread_mutex_recursive_unlock :: "pthread_mutex_s \<Rightarrow> sched_state \<Rightarrow> mutex_result" where
  "pthread_mutex_recursive_unlock mutex s =
     (let mutex = mutex\<lparr>mx_count := mx_count mutex - 1\<rparr>
      in if mx_count mutex = 0 then
           case sched_wake (mx_wait mutex) s of
             (None, s) \<Rightarrow> Some (0, mutex\<lparr>mx_owner := None\<rparr>, s)
           | (Some w, s) \<Rightarrow> Some (0, mutex\<lparr>mx_owner := Some w, mx_count := mx_count mutex + 1\<rparr>, s)
         else Some (0, mutex, s))"

text \<open>The owner is left as it was in the memory of the mutex.\<close>

definition pthread_mutex_init ::
    "mutex_kind option \<Rightarrow> nat \<Rightarrow> pthread_mutex_s \<Rightarrow> sched_state \<Rightarrow> error_t \<times> pthread_mutex_s \<times> sched_state" where
  "pthread_mutex_init attr q mutex s =
     (let attr = (case attr of None \<Rightarrow> Mutex_normal | Some a \<Rightarrow> a)
      in (0, mutex\<lparr>mx_count := 0, mx_attr := attr, mx_wait := q\<rparr>, s\<lparr>wait := (wait s)[q := []]\<rparr>))"

definition pthread_mutexattr_settype :: "int \<Rightarrow> mutex_kind \<Rightarrow> error_t \<times> mutex_kind" where
  "pthread_mutexattr_settype type attr =
     (if type = 3 \<or> type = 0 then (0, Mutex_normal)
      else if type = 1 then (0, Mutex_errorcheck)
      else if type = 2 then (0, Mutex_recursive)
      else (EINVAL, attr))"

definition pthread_mutexattr_init :: "mutex_kind \<Rightarrow> error_t \<times> mutex_kind" where
  "pthread_mutexattr_init attr = pthread_mutexattr_settype 3 attr"

definition pthread_mutex_lock :: "nat \<Rightarrow> pthread_mutex_s \<Rightarrow> sched_state \<Rightarrow> mutex_result" where
  "pthread_mutex_lock c mutex s =
     (case mx_attr mutex of
        Mutex_normal \<Rightarrow> pthread_mutex_normal_lock c mutex s
      | Mutex_errorcheck \<Rightarrow> pthread_mutex_errorcheck_lock c mutex s
      | Mutex_recursive \<Rightarrow> pthread_mutex_recursive_lock c mutex s)"

definition pthread_mutex_trylock :: "nat \<Rightarrow> pthread_mutex_s \<Rightarrow> sched_state \<Rightarrow> mutex_result" where
  "pthread_mutex_trylock c mutex s =
     (case mx_attr mutex of
        Mutex_normal \<Rightarrow> pthread_mutex_normal_trylock mutex s
      | Mutex_errorcheck \<Rightarrow> pthread_mutex_errorcheck_trylock c mutex s
      | Mutex_recursive \<Rightarrow> pthread_mutex_recursive_trylock c mutex s)"

definition pthread_mutex_unlock :: "nat \<Rightarrow> pthread_mutex_s \<Rightarrow> sched_state \<Rightarrow> mutex_result" where
  "pthread_mutex_unlock c mutex s =
     (case mx_attr mutex of
        Mutex_normal \<Rightarrow> pthread_mutex_normal_unlock mutex s
      | Mutex_errorcheck \<Rightarrow> pthread_mutex_errorcheck_unlock c mutex s
      | Mutex_recursive \<Rightarrow> pthread_mutex_recursive_unlock mutex s)"

lemmas mutex_defs = pthread_mutex_normal_lock_def pthread_mutex_normal_trylock_def pthread_mutex_normal_unlock_def
  pthread_mutex_errorcheck_lock_def pthread_mutex_errorcheck_trylock_def pthread_mutex_errorcheck_unlock_def
  pthread_mutex_recursive_lock_def pthread_mutex_recursive_trylock_def pthread_mutex_recursive_unlock_def
  pthread_mutex_lock_def pthread_mutex_trylock_def pthread_mutex_unlock_def

section \<open>The contexts that hold the mutex\<close>

text \<open>
  Steps of a system with one mutex and the contexts that hold it, each as often as it took the mutex: the
  caller of a locking function that got the mutex, and the contexts an unlock moved to the run queue.  Only
  a context that holds the mutex unlocks it, and none nests it \<open>2 ^ 32 - 1\<close> times.  One use is left out, because
  \<^verbatim>\<open>pthread_mutex_trylock\<close> does not record the owner: taking a free error checking
  or recursive mutex with it.  The memory that \<^verbatim>\<open>pthread_mutex_init\<close> is given is arbitrary.
\<close>

type_synonym mx_sys = "pthread_mutex_s \<times> sched_state \<times> nat multiset"

inductive mx_step :: "mx_sys \<Rightarrow> mx_sys \<Rightarrow> bool" where
  lock: "sched_get_current c s = Some t \<Longrightarrow> mx_count mutex \<noteq> - 1 \<Longrightarrow>
    pthread_mutex_lock c mutex s = Some (e, mutex', s') \<Longrightarrow>
    mx_step (mutex, s, H) (mutex', s', if mutex' = mutex then H else add_mset t H)"
| trylock: "sched_get_current c s = Some t \<Longrightarrow> mx_count mutex \<noteq> - 1 \<Longrightarrow>
    mx_attr mutex = Mutex_normal \<or> mx_count mutex \<noteq> 0 \<Longrightarrow>
    pthread_mutex_trylock c mutex s = Some (e, mutex', s') \<Longrightarrow>
    mx_step (mutex, s, H) (mutex', s', if e = 0 then add_mset t H else H)"
| unlock: "sched_get_current c s = Some t \<Longrightarrow> t \<in># H \<Longrightarrow>
    pthread_mutex_unlock c mutex s = Some (e, mutex', s') \<Longrightarrow>
    mx_step (mutex, s, H) (mutex', s', H - {#t#} + mset (drop (length (root s)) (root s')))"
| other: "other_step {mx_wait mutex} s s' \<Longrightarrow> mx_step (mutex, s, H) (mutex, s', H)"

inductive mx_reach :: "mx_sys \<Rightarrow> bool" where
  init: "sched_reach s \<Longrightarrow> q < length (wait s) \<Longrightarrow> waiting q s = [] \<Longrightarrow>
    pthread_mutex_init attr q mem s = (0, mutex, s') \<Longrightarrow> mx_reach (mutex, s', {#})"
| step: "mx_reach x \<Longrightarrow> mx_step x y \<Longrightarrow> mx_reach y"

section \<open>Lemmas\<close>

definition mx_held :: "pthread_mutex_s \<Rightarrow> nat multiset \<Rightarrow> bool" where
  "mx_held mutex H \<longleftrightarrow> unat (mx_count mutex) = size H
     \<and> (mx_attr mutex \<noteq> Mutex_recursive \<longrightarrow> size H \<le> 1)
     \<and> (mx_attr mutex \<noteq> Mutex_normal \<longrightarrow> (\<forall>t \<in># H. mx_owner mutex = Some t))"

definition mx_inv :: "mx_sys \<Rightarrow> bool" where
  "mx_inv = (\<lambda>(mutex, s, H). sched_reach s \<and> mx_wait mutex < length (wait s)
     \<and> (waiting (mx_wait mutex) s \<noteq> [] \<longrightarrow> mx_count mutex \<noteq> 0) \<and> mx_held mutex H)"

lemma mutex_update_neq:
  "n \<noteq> mx_count mutex \<Longrightarrow> mutex\<lparr>mx_count := n\<rparr> \<noteq> mutex"
  "n \<noteq> mx_count mutex \<Longrightarrow> mutex\<lparr>mx_owner := w, mx_count := n\<rparr> \<noteq> mutex"
  by (cases mutex; simp)+

lemma unat_inc: "w \<noteq> - 1 \<Longrightarrow> unat (w + 1 :: 'a::len word) = Suc (unat w)"
  by (metis add.commute add_eq_0_iff2 unatSuc)

lemma unat_eq_one: "unat (w :: 'a::len word) = 1 \<longleftrightarrow> w = 1"
  by (metis unat_1 word_unat_eq_iff)

lemma size_le_1: "size H \<le> 1 \<longleftrightarrow> H = {#} \<or> (\<exists>t. H = {#t#})"
  by (metis One_nat_def le_Suc_eq le_zero_eq size_1_singleton_mset size_empty size_eq_0_iff_empty size_single order_refl nat_le_linear)

lemma wake_cases:
  obtains (none) "waiting q s = []" "sched_wake q s = (None, s)"
  | (some) t ts where "waiting q s = t # ts" "sched_wake q s = (Some t, woken q 1 s)"
    "drop (length (root s)) (root (woken q 1 s)) = [t]"
proof (cases "waiting q s")
  case Nil
  then show thesis
    using none by (simp add: sched_wake_woken)
next
  case (Cons t ts)
  then show thesis
    using some by (simp add: sched_wake_woken) (simp add: woken_def)
qed

text \<open>What a lock does: it refuses, makes the caller wait, or gives it the mutex.\<close>

lemma lock_cases:
  assumes "sched_get_current c s = Some t" "pthread_mutex_lock c mutex s = Some (e, mutex', s')"
  obtains (refuse) "mx_count mutex \<noteq> 0" "mutex' = mutex" "s' = s"
  | (wait) "mx_count mutex \<noteq> 0" "mutex' = mutex" "sched_wait_unlock c (mx_wait mutex) s = Some s'"
  | (normal) "mx_attr mutex = Mutex_normal" "mx_count mutex = 0" "s' = s" "mutex' = mutex\<lparr>mx_count := 1\<rparr>"
  | (take) "mx_attr mutex \<noteq> Mutex_normal" "mx_count mutex = 0 \<or> mx_attr mutex = Mutex_recursive \<and> mx_owner mutex = Some t"
    "s' = s" "mutex' = mutex\<lparr>mx_owner := Some t, mx_count := mx_count mutex + 1\<rparr>"
  using assms by (cases "mx_attr mutex") (auto simp: mutex_defs split: bind_splits if_splits)

lemma mx_held_zero: "mx_held mutex H \<Longrightarrow> mx_count mutex = 0 \<Longrightarrow> H = {#}"
  by (simp add: mx_held_def)

lemma mx_lock_inv:
  assumes inv: "mx_inv (mutex, s, H)" and t: "sched_get_current c s = Some t" and n: "mx_count mutex \<noteq> - 1"
    and l: "pthread_mutex_lock c mutex s = Some (e, mutex', s')"
  shows "mx_inv (mutex', s', if mutex' = mutex then H else add_mset t H)"
  using t l
proof (cases rule: lock_cases)
  case refuse
  then show ?thesis using inv by simp
next
  case wait
  then show ?thesis
    using inv wait_frame [OF wait(3)] by (auto simp: mx_inv_def)
next
  case normal
  moreover have "H = {#}"
    using inv normal by (auto simp: mx_inv_def intro: mx_held_zero)
  moreover have "mutex' \<noteq> mutex"
    using normal mutex_update_neq(1) [of 1 mutex] by simp
  ultimately show ?thesis
    using inv by (auto simp: mx_inv_def mx_held_def)
next
  case take
  have h: "mx_held mutex H"
    using inv by (simp add: mx_inv_def)
  have e: "mutex' \<noteq> mutex"
    using take n mutex_update_neq(2) [of "mx_count mutex + 1" mutex "Some t"] by simp
  have "mx_held mutex' (add_mset t H)"
    using take(2)
  proof
    assume z: "mx_count mutex = 0"
    then have "H = {#}"
      using h mx_held_zero by blast
    then show ?thesis
      using take(1,4) z by (simp add: mx_held_def)
  next
    assume "mx_attr mutex = Mutex_recursive \<and> mx_owner mutex = Some t"
    then show ?thesis
      using take(4) h n by (auto simp: mx_held_def unat_inc)
  qed
  moreover have "mx_count mutex + 1 \<noteq> 0"
    using n by (metis add_eq_0_iff2)
  ultimately show ?thesis
    using e inv take(3,4) by (simp add: mx_inv_def)
qed

lemma trylock_cases:
  assumes "sched_get_current c s = Some t" "pthread_mutex_trylock c mutex s = Some (e, mutex', s')"
  obtains (busy) "mx_count mutex \<noteq> 0" "e \<noteq> 0" "mutex' = mutex" "s' = s"
  | (take) "mx_count mutex = 0 \<or> mx_attr mutex = Mutex_recursive \<and> mx_owner mutex = Some t" "e = 0"
    "s' = s" "mutex' = mutex\<lparr>mx_count := mx_count mutex + 1\<rparr>"
  using assms by (cases "mx_attr mutex") (auto simp: mutex_defs errno_defs split: bind_splits if_splits)

lemma mx_trylock_inv:
  assumes inv: "mx_inv (mutex, s, H)" and t: "sched_get_current c s = Some t" and n: "mx_count mutex \<noteq> - 1"
    and g: "mx_attr mutex = Mutex_normal \<or> mx_count mutex \<noteq> 0"
    and l: "pthread_mutex_trylock c mutex s = Some (e, mutex', s')"
  shows "mx_inv (mutex', s', if e = 0 then add_mset t H else H)"
  using t l
proof (cases rule: trylock_cases)
  case busy
  then show ?thesis using inv by simp
next
  case take
  have h: "mx_held mutex H"
    using inv by (simp add: mx_inv_def)
  have "mx_held mutex' (add_mset t H)"
    using take(1)
  proof
    assume z: "mx_count mutex = 0"
    then have "H = {#}"
      using h mx_held_zero by blast
    then show ?thesis
      using take(4) z g by (simp add: mx_held_def)
  next
    assume "mx_attr mutex = Mutex_recursive \<and> mx_owner mutex = Some t"
    then show ?thesis
      using take(4) h n by (auto simp: mx_held_def unat_inc)
  qed
  moreover have "mx_count mutex + 1 \<noteq> 0"
    using n by (metis add_eq_0_iff2)
  ultimately show ?thesis
    using inv take by (simp add: mx_inv_def)
qed

text \<open>What an unlock by a holder does: it leaves one level, frees the mutex or hands it over.\<close>

lemma unlock_cases:
  assumes "sched_get_current c s = Some t" "mx_held mutex H" "t \<in># H"
    "pthread_mutex_unlock c mutex s = Some (e, mutex', s')"
  obtains (nested) "mx_attr mutex = Mutex_recursive" "mx_count mutex \<noteq> 1" "s' = s" "mutex' = mutex\<lparr>mx_count := mx_count mutex - 1\<rparr>"
  | (free) "mx_count mutex = 1" "H = {#t#}" "waiting (mx_wait mutex) s = []" "s' = s"
    "mutex' = mutex\<lparr>mx_count := 0, mx_owner := if mx_attr mutex = Mutex_normal then mx_owner mutex else None\<rparr>"
  | (hand) w ws where "mx_count mutex = 1" "H = {#t#}" "waiting (mx_wait mutex) s = w # ws" "s' = woken (mx_wait mutex) 1 s"
    "mutex' = mutex\<lparr>mx_owner := if mx_attr mutex = Mutex_normal then mx_owner mutex else Some w\<rparr>"
proof -
  have pos: "mx_count mutex \<noteq> 0"
    using mx_held_zero [OF assms(2)] assms(3) by auto
  have owner: "mx_attr mutex \<noteq> Mutex_normal \<longrightarrow> mx_owner mutex = Some t" and size: "unat (mx_count mutex) = size H"
    using assms(2,3) by (auto simp: mx_held_def)
  consider (more) "mx_attr mutex = Mutex_recursive" "mx_count mutex \<noteq> 1" | (last) "mx_count mutex = 1" "H = {#t#}"
  proof (cases "mx_attr mutex = Mutex_recursive \<and> mx_count mutex \<noteq> 1")
    case False
    have "0 < size H"
      using assms(3) by (metis multi_member_split size_add_mset zero_less_Suc)
    then have "unat (mx_count mutex) = 1"
      using False assms(2) size by (cases "mx_count mutex = 1") (auto simp: mx_held_def)
    then show ?thesis
      using last size assms(3) size_1_singleton_mset [of H] unat_eq_one [of "mx_count mutex"] by auto
  qed (use more in blast)
  then show thesis
  proof cases
    case more
    then show thesis
      using assms(4) by (intro nested) (simp_all add: mutex_defs Let_def)
  next
    case last
    show thesis
    proof (cases rule: wake_cases [of "mx_wait mutex" s])
      case none
      then have "s' = s \<and> mutex' = mutex\<lparr>mx_count := 0, mx_owner := if mx_attr mutex = Mutex_normal then mx_owner mutex else None\<rparr>"
        using assms(1,4) last owner by (cases "mx_attr mutex") (auto simp: mutex_defs Let_def)
      then show thesis
        using free last none(1) by blast
    next
      case (some w ws)
      then have "s' = woken (mx_wait mutex) 1 s
          \<and> mutex' = mutex\<lparr>mx_owner := if mx_attr mutex = Mutex_normal then mx_owner mutex else Some w\<rparr>"
        using assms(1,4) last owner by (cases "mx_attr mutex") (auto simp: mutex_defs Let_def)
      then show thesis
        using hand last some(1) by blast
    qed
  qed
qed

lemma mx_unlock_inv:
  assumes inv: "mx_inv (mutex, s, H)" and t: "sched_get_current c s = Some t" and h: "t \<in># H"
    and u: "pthread_mutex_unlock c mutex s = Some (e, mutex', s')"
  shows "mx_inv (mutex', s', H - {#t#} + mset (drop (length (root s)) (root s')))"
proof -
  have held: "mx_held mutex H"
    using inv by (simp add: mx_inv_def)
  from t held h u show ?thesis
  proof (cases rule: unlock_cases)
    case nested
    have z: "mx_count mutex \<noteq> 0"
      using mx_held_zero [OF held] h by auto
    moreover have "mx_count mutex - 1 \<noteq> 0"
      using nested(2) by (metis eq_iff_diff_eq_0)
    moreover have "\<forall>u \<in># H - {#t#}. mx_owner mutex = Some u"
      using held nested(1) by (auto simp: mx_held_def dest: in_diffD)
    ultimately show ?thesis
      using inv held nested h by (simp add: mx_inv_def mx_held_def size_Diff_singleton unat_pred)
  next
    case free
    then show ?thesis
      using inv by (auto simp: mx_inv_def mx_held_def)
  next
    case (hand w ws)
    have "drop (length (root s)) (root s') = [w]"
      using hand(3,4) by (simp add: woken_def)
    then show ?thesis
      using inv hand woken_reach [of s "mx_wait mutex" 1]
      by (auto simp: mx_inv_def mx_held_def) (simp_all add: woken_def)
  qed
qed

lemma mx_step_inv: "mx_step x y \<Longrightarrow> mx_inv x \<Longrightarrow> mx_inv y"
proof (induction rule: mx_step.induct)
  case (other mutex s s' H)
  then show ?case
    using other_step_frame [OF other(1)] by (auto simp: mx_inv_def)
qed (blast intro: mx_lock_inv mx_trylock_inv mx_unlock_inv)+

lemma mx_reach_inv: "mx_reach x \<Longrightarrow> mx_inv x"
proof (induction rule: mx_reach.induct)
  case (init s q mem attr mutex s')
  then have "s' = s" "mx_count mutex = 0" "mx_wait mutex = q"
    using wait_waiting [of s q] by (auto simp: pthread_mutex_init_def Let_def)
  then show ?case
    using init by (simp add: mx_inv_def mx_held_def)
qed (rule mx_step_inv)

lemma mx_held_unique:
  assumes "mx_held mutex H" "t \<in># H" "u \<in># H"
  shows "t = u"
proof (cases "mx_attr mutex = Mutex_normal")
  case True
  then have "size H \<le> 1"
    using assms(1) by (simp add: mx_held_def)
  then obtain v where "H = {#v#}"
    using assms(2) unfolding size_le_1 by auto
  then show ?thesis
    using assms(2,3) by simp
next
  case False
  then show ?thesis
    using assms unfolding mx_held_def by (metis option.inject)
qed

text \<open>\<open>k\<close> unlocks of a normal mutex, one after the other.\<close>

primrec mutex_unlocks :: "nat \<Rightarrow> nat \<Rightarrow> pthread_mutex_s \<Rightarrow> sched_state \<Rightarrow> (pthread_mutex_s \<times> sched_state) option" where
  "mutex_unlocks 0 c mutex s = Some (mutex, s)"
| "mutex_unlocks (Suc k) c mutex s = do {
     (e, mutex, s) \<leftarrow> pthread_mutex_unlock c mutex s;
     mutex_unlocks k c mutex s
   }"

lemma mutex_unlocks_woken:
  "mx_attr mutex = Mutex_normal \<Longrightarrow> k \<le> length (waiting (mx_wait mutex) s) \<Longrightarrow>
    mutex_unlocks k c mutex s = Some (mutex, woken (mx_wait mutex) k s)"
proof (induction k arbitrary: s)
  case (Suc k)
  then obtain t ts where "waiting (mx_wait mutex) s = t # ts"
    by (cases "waiting (mx_wait mutex) s") auto
  then show ?case
    using Suc woken_Suc [of "mx_wait mutex" k s]
    by (simp add: mutex_defs sched_wake_woken waiting_woken)
qed simp

section \<open>Properties\<close>

text \<open>
  C5: However the contexts and the rest of the system interleave after \<^verbatim>\<open>pthread_mutex_init\<close>, as long as only holders unlock,
  the nesting stays below the range of the count, and \<^verbatim>\<open>pthread_mutex_trylock\<close> is not what takes a free error checking or
  recursive mutex: at most one context holds the mutex, of whatever kind; its count is exactly how often the
  holder took it, at most once unless the mutex is recursive; the owner recorded in an error checking or recursive mutex is the
  holder; no context waits for a free mutex; and the scheduler stays in a reachable state.
\<close>

theorem pthread_mutex_mutual_exclusion:
  assumes "mx_reach (mutex, s, holders)"
  shows "(\<forall>t u. t \<in># holders \<and> u \<in># holders \<longrightarrow> t = u)
    \<and> unat (mx_count mutex) = size holders
    \<and> (mx_attr mutex \<noteq> Mutex_recursive \<longrightarrow> size holders \<le> 1)
    \<and> (mx_attr mutex \<noteq> Mutex_normal \<longrightarrow> (\<forall>t \<in># holders. mx_owner mutex = Some t))
    \<and> (mx_count mutex = 0 \<longrightarrow> holders = {#} \<and> waiting (mx_wait mutex) s = [])
    \<and> sched_reach s"
proof -
  have inv: "mx_inv (mutex, s, holders)"
    by (rule mx_reach_inv [OF assms])
  then have h: "mx_held mutex holders"
    by (simp add: mx_inv_def)
  then show ?thesis
    using inv mx_held_unique [OF h] mx_held_zero [OF h] by (auto simp: mx_inv_def mx_held_def)
qed

text \<open>
  C33: The contexts that wait for a normal mutex get it in the order in which they came: the first \<open>k\<close> unlocks
  hand it to the first \<open>k\<close> of them, one each, without ever marking it free, and the unlock after the last
  of them frees it.
\<close>

theorem pthread_mutex_fifo:
  assumes "mx_attr mutex = Mutex_normal" "k \<le> length (waiting (mx_wait mutex) s)"
  shows "\<exists>s'. mutex_unlocks k c mutex s = Some (mutex, s')
    \<and> root s' = root s @ take k (waiting (mx_wait mutex) s)
    \<and> waiting (mx_wait mutex) s' = drop k (waiting (mx_wait mutex) s)
    \<and> (k = length (waiting (mx_wait mutex) s)
        \<longrightarrow> pthread_mutex_unlock c mutex s' = Some (0, mutex\<lparr>mx_count := mx_count mutex - 1\<rparr>, s'))"
proof -
  have "mutex_unlocks k c mutex s = Some (mutex, woken (mx_wait mutex) k s)"
    by (rule mutex_unlocks_woken [OF assms])
  moreover have "root (woken (mx_wait mutex) k s) = root s @ take k (waiting (mx_wait mutex) s)"
    by (simp add: woken_def)
  ultimately show ?thesis
    using assms(1) by (auto simp: waiting_woken mutex_defs sched_wake_woken)
qed

text \<open>
  An error checking mutex that is held: its owner gets \<^verbatim>\<open>EDEADLK\<close> from both locking functions and any other
  context \<^verbatim>\<open>EBUSY\<close> from \<^verbatim>\<open>pthread_mutex_trylock\<close>, with nothing changed; an unlock by a context that is not
  the owner changes nothing either, but returns 0, as does the unlock of a free mutex.
\<close>

theorem pthread_mutex_errorcheck_results:
  assumes "mx_attr mutex = Mutex_errorcheck" "sched_get_current c s = Some t"
  shows "(if mx_count mutex = 0 then pthread_mutex_unlock c mutex s = Some (0, mutex, s)
     else if mx_owner mutex = Some t
     then pthread_mutex_lock c mutex s = Some (EDEADLK, mutex, s)
       \<and> pthread_mutex_trylock c mutex s = Some (EDEADLK, mutex, s)
     else pthread_mutex_trylock c mutex s = Some (EBUSY, mutex, s)
       \<and> pthread_mutex_unlock c mutex s = Some (0, mutex, s))"
  using assms by (simp add: mutex_defs)

text \<open>
  C39: \<^verbatim>\<open>pthread_mutex_trylock\<close> does not record the owner.  After it has taken a free error checking mutex, no
  unlock by any context in any state of the scheduler frees the mutex again; after it has taken a free
  recursive mutex, the same context waits for itself when it locks the mutex once more; and where
  \<^verbatim>\<open>pthread_mutex_init\<close> left an old owner in the memory of a recursive mutex, that context gets the mutex
  while another one holds it.
\<close>

theorem pthread_mutex_trylock_owner:
  assumes "mx_count mutex = 0" "sched_get_current c s = Some t"
  shows "(mx_attr mutex = Mutex_errorcheck \<and> mx_owner mutex = None \<longrightarrow>
      (\<exists>mutex'. pthread_mutex_trylock c mutex s = Some (0, mutex', s) \<and> mx_count mutex' = 1
        \<and> (\<forall>d u s'. sched_get_current d s' = Some u \<longrightarrow> pthread_mutex_unlock d mutex' s' = Some (0, mutex', s'))))
    \<and> (mx_attr mutex = Mutex_recursive \<and> mx_owner mutex = None \<longrightarrow>
      (\<exists>mutex'. pthread_mutex_trylock c mutex s = Some (0, mutex', s)
        \<and> pthread_mutex_lock c mutex' s = map_option (\<lambda>s'. (0, mutex', s')) (sched_wait_unlock c (mx_wait mutex') s)))
    \<and> (mx_attr mutex = Mutex_recursive \<and> mx_owner mutex = Some u \<and> sched_get_current d s = Some u \<longrightarrow>
      (\<exists>mutex' mutex''. pthread_mutex_trylock c mutex s = Some (0, mutex', s)
        \<and> pthread_mutex_lock d mutex' s = Some (0, mutex'', s)))"
  using assms by (auto simp: mutex_defs map_conv_bind_option comp_def)

section \<open>Witnesses\<close>

definition example_mutex :: "mutex_kind \<Rightarrow> u32 \<Rightarrow> nat option \<Rightarrow> pthread_mutex_s" where
  "example_mutex kind n owner = \<lparr>mx_count = n, mx_attr = kind, mx_owner = owner, mx_wait = 0\<rparr>"

theorem pthread_mutex_mutual_exclusion_witness:
  "\<exists>s. mx_reach (example_mutex Mutex_recursive 2 (Some 0), s, {#0, 0#}) \<and> sched_reach s"
proof -
  let ?s = "sched_global_init 1 1" and ?m = "example_mutex Mutex_recursive"
  have c: "sched_get_current 0 ?s = Some 0"
    by (simp add: sched_get_current_def sched_global_init_def)
  have "mx_reach (?m 0 (Some 7), ?s, {#})"
    by (rule mx_reach.init [OF sched_reach.init [of 1 1], where q = 0 and mem = "?m 5 (Some 7)" and attr = "Some Mutex_recursive"])
      (simp_all add: sched_global_init_def waiting_def pthread_mutex_init_def example_mutex_def)
  moreover have "mx_step (?m 0 (Some 7), ?s, {#}) (?m 1 (Some 0), ?s, {#0#})"
    using mx_step.lock [OF c, of "?m 0 (Some 7)" 0 "?m 1 (Some 0)" ?s "{#}"] c
    by (simp add: mutex_defs example_mutex_def)
  moreover have "mx_step (?m 1 (Some 0), ?s, {#0#}) (?m 2 (Some 0), ?s, {#0, 0#})"
    using mx_step.lock [OF c, of "?m 1 (Some 0)" 0 "?m 2 (Some 0)" ?s "{#0#}"] c
    by (simp add: mutex_defs example_mutex_def)
  ultimately have r: "mx_reach (?m 2 (Some 0), ?s, {#0, 0#})"
    by (blast intro: mx_reach.step)
  then show ?thesis
    using pthread_mutex_mutual_exclusion [OF r] by blast
qed

theorem pthread_mutex_fifo_witness:
  "\<exists>s'. mutex_unlocks 1 0 (example_mutex Mutex_normal 1 None) example_sleeping = Some (example_mutex Mutex_normal 1 None, s')
    \<and> root s' = [1] \<and> pthread_mutex_unlock 0 (example_mutex Mutex_normal 1 None) s' = Some (0, example_mutex Mutex_normal 0 None, s')"
  using pthread_mutex_fifo [of "example_mutex Mutex_normal 1 None" 1 example_sleeping 0]
  by (auto simp: example_mutex_def example_sleeping_def waiting_def)

theorem pthread_mutex_errorcheck_results_witness:
  "pthread_mutex_lock 0 (example_mutex Mutex_errorcheck 1 (Some 0)) example_sleeping
      = Some (EDEADLK, example_mutex Mutex_errorcheck 1 (Some 0), example_sleeping)
    \<and> pthread_mutex_unlock 0 (example_mutex Mutex_errorcheck 1 (Some 1)) example_sleeping
      = Some (0, example_mutex Mutex_errorcheck 1 (Some 1), example_sleeping)"
  using pthread_mutex_errorcheck_results [of "example_mutex Mutex_errorcheck 1 (Some 0)" 0 example_sleeping 0]
    pthread_mutex_errorcheck_results [of "example_mutex Mutex_errorcheck 1 (Some 1)" 0 example_sleeping 0]
  by (simp add: example_mutex_def sched_get_current_def example_sleeping_def)

theorem pthread_mutex_trylock_owner_witness:
  "\<exists>mutex'. pthread_mutex_trylock 0 (example_mutex Mutex_errorcheck 0 None) example_sleeping = Some (0, mutex', example_sleeping)
    \<and> pthread_mutex_unlock 0 mutex' example_sleeping = Some (0, mutex', example_sleeping) \<and> mx_count mutex' = 1"
proof -
  have "mx_count (example_mutex Mutex_errorcheck 0 None) = 0" "sched_get_current 0 example_sleeping = Some 0"
    by (simp_all add: example_mutex_def sched_get_current_def example_sleeping_def)
  from pthread_mutex_trylock_owner [OF this, of 0 0] this(2) show ?thesis
    by (auto simp: example_mutex_def)
qed

end
