(* ===== verification/Pthread_Sync.thy ===== *)
theory Pthread_Sync
  imports Pthread_Mutex
begin

text \<open>
  \<^verbatim>\<open>libpthread/cond.c\<close> and \<^verbatim>\<open>libpthread/barrier.c\<close> on the scheduler and the mutexes.  The operations run with
  the queue of the condition or barrier locked, so that each is one step up to the point where the
  caller waits; what \<^verbatim>\<open>pthread_cond_wait\<close> does when it runs again is a step of its own.  The calling thread is
  not being cancelled.  The lemmas show that no signal is lost once a context has called
  \<^verbatim>\<open>pthread_cond_wait\<close>, and that a barrier for \<open>n\<close> contexts lets go exactly \<open>n\<close> of them at a time.
\<close>

section \<open>Condition variables\<close>

record pthread_cond_s =
  cd_wait :: nat

definition pthread_cond_init :: "nat \<Rightarrow> sched_state \<Rightarrow> error_t \<times> pthread_cond_s \<times> sched_state" where
  "pthread_cond_init q s = (0, \<lparr>cd_wait = q\<rparr>, s\<lparr>wait := (wait s)[q := []]\<rparr>)"

definition pthread_cond_signal :: "pthread_cond_s \<Rightarrow> sched_state \<Rightarrow> error_t \<times> sched_state" where
  "pthread_cond_signal cond s = (let (w, s) = sched_wake (cd_wait cond) s in (0, s))"

definition pthread_cond_broadcast :: "pthread_cond_s \<Rightarrow> sched_state \<Rightarrow> error_t \<times> sched_state" where
  "pthread_cond_broadcast cond s = (let s = sched_wake_all (cd_wait cond) s in (0, s))"

text \<open>
  Up to the call of \<^verbatim>\<open>sched_wait_unlock\<close>.  When the mutex is not unlocked and \<^verbatim>\<open>CONFIG_PTHREAD_CHECK\<close> is not
  set, the function returns with the queue of the condition locked for good, which is \<open>None\<close>.
\<close>

definition pthread_cond_wait ::
    "bool \<Rightarrow> nat \<Rightarrow> pthread_cond_s \<Rightarrow> pthread_mutex_s \<Rightarrow> sched_state \<Rightarrow> mutex_result" where
  "pthread_cond_wait CONFIG_PTHREAD_CHECK c cond mutex s = do {
     (e, mutex, s) \<leftarrow> pthread_mutex_unlock c mutex s;
     if e = 0 then do {
       s \<leftarrow> sched_wait_unlock c (cd_wait cond) s;
       Some (0, mutex, s)
     }
     else if CONFIG_PTHREAD_CHECK then Some (EINVAL, mutex, s)
     else None
   }"

definition pthread_cond_wait_resume :: "nat \<Rightarrow> pthread_mutex_s \<Rightarrow> sched_state \<Rightarrow> mutex_result" where
  "pthread_cond_wait_resume c mutex s = do {
     (e, mutex, s) \<leftarrow> pthread_mutex_lock c mutex s;
     Some (0, mutex, s)
   }"

text \<open>The delay is not used.\<close>

definition pthread_cond_timedwait ::
    "bool \<Rightarrow> nat \<Rightarrow> pthread_cond_s \<Rightarrow> pthread_mutex_s \<Rightarrow> nat \<Rightarrow> sched_state \<Rightarrow> mutex_result" where
  "pthread_cond_timedwait CONFIG_PTHREAD_CHECK c cond mutex delay s =
     pthread_cond_wait CONFIG_PTHREAD_CHECK c cond mutex s"

section \<open>Barriers\<close>

record pthread_barrier_s =
  br_count :: int
  br_wait :: nat

definition PTHREAD_BARRIER_SERIAL_THREAD :: error_t where
  "PTHREAD_BARRIER_SERIAL_THREAD = - 1"

text \<open>The unsigned count is stored in a signed field.\<close>

definition pthread_barrier_init ::
    "bool \<Rightarrow> u32 \<Rightarrow> nat \<Rightarrow> sched_state \<Rightarrow> (error_t \<times> pthread_barrier_s \<times> sched_state) option" where
  "pthread_barrier_init attr_is_null n q s =
     (if attr_is_null
      then Some (0, \<lparr>br_count = sint n, br_wait = q\<rparr>, s\<lparr>wait := (wait s)[q := []]\<rparr>)
      else None)"

definition pthread_barrier_wait ::
    "nat \<Rightarrow> pthread_barrier_s \<Rightarrow> sched_state \<Rightarrow> (error_t \<times> pthread_barrier_s \<times> sched_state) option" where
  "pthread_barrier_wait c barrier s =
     (if br_count barrier \<ge> 1 then
        if br_count barrier = 1 then do {
          (n, s) \<leftarrow> wake_counting (br_wait barrier) (br_count barrier) s;
          Some (PTHREAD_BARRIER_SERIAL_THREAD, barrier\<lparr>br_count := n\<rparr>, s)
        }
        else do {
          let barrier = barrier\<lparr>br_count := br_count barrier - 1\<rparr>;
          s \<leftarrow> sched_wait_unlock c (br_wait barrier) s;
          Some (0, barrier, s)
        }
      else None)"

text \<open>The steps of a system with one barrier, which starts with count \<open>n\<close>.\<close>

inductive barrier_reach :: "u32 \<Rightarrow> pthread_barrier_s \<times> sched_state \<Rightarrow> bool" for n where
  init: "sched_reach s \<Longrightarrow> q < length (wait s) \<Longrightarrow> waiting q s = [] \<Longrightarrow>
    pthread_barrier_init True n q s = Some (0, barrier, s') \<Longrightarrow> barrier_reach n (barrier, s')"
| wait: "barrier_reach n (barrier, s) \<Longrightarrow> pthread_barrier_wait c barrier s = Some (e, barrier', s') \<Longrightarrow>
    barrier_reach n (barrier', s')"
| other: "barrier_reach n (barrier, s) \<Longrightarrow> other_step {br_wait barrier} s s' \<Longrightarrow> barrier_reach n (barrier, s')"

section \<open>Lemmas\<close>

inductive other_steps :: "nat set \<Rightarrow> sched_state \<Rightarrow> sched_state \<Rightarrow> bool" for Q where
  none: "other_steps Q s s"
| step: "other_steps Q s s' \<Longrightarrow> other_step Q s' s'' \<Longrightarrow> other_steps Q s s''"

lemma other_steps_waiting: "other_steps Q s s' \<Longrightarrow> q \<in> Q \<Longrightarrow> waiting q s' = waiting q s"
  by (induction rule: other_steps.induct) (auto simp: waiting_other)

text \<open>\<open>k\<close> signals, one after the other.\<close>

primrec cond_signals :: "nat \<Rightarrow> pthread_cond_s \<Rightarrow> sched_state \<Rightarrow> sched_state" where
  "cond_signals 0 cond s = s"
| "cond_signals (Suc k) cond s = cond_signals k cond (snd (pthread_cond_signal cond s))"

lemma snd_signal: "snd (pthread_cond_signal cond s) = woken (cd_wait cond) 1 s"
  by (auto simp: pthread_cond_signal_def sched_wake_woken woken_empty split: list.splits)

lemma cond_signals_woken: "cond_signals k cond s = woken (cd_wait cond) k s"
  using woken_Suc by (induction k arbitrary: s) (simp_all add: snd_signal)

lemma get_current_cong: "cur s' = cur s \<Longrightarrow> sched_get_current c s' = sched_get_current c s"
  by (simp add: sched_get_current_def)

lemma unlock_total: "sched_get_current c s = Some t \<Longrightarrow> pthread_mutex_unlock c mutex s \<noteq> None"
  by (cases rule: wake_cases [of "mx_wait mutex" s]) (auto simp: mutex_defs Let_def split: mutex_kind.splits)

lemma unlock_frame:
  assumes "pthread_mutex_unlock c mutex s = Some (e, mutex', s')"
  shows "e = 0 \<and> cur s' = cur s \<and> length (wait s') = length (wait s) \<and> mx_wait mutex' = mx_wait mutex
    \<and> (q \<noteq> mx_wait mutex \<longrightarrow> waiting q s' = waiting q s)"
  using assms
  by (cases rule: wake_cases [of "mx_wait mutex" s]; cases "mx_attr mutex")
    (auto simp: mutex_defs Let_def waiting_woken split: bind_splits if_splits, simp_all add: woken_def)

definition barrier_inv :: "u32 \<Rightarrow> pthread_barrier_s \<times> sched_state \<Rightarrow> bool" where
  "barrier_inv n = (\<lambda>(barrier, s). sched_reach s \<and> br_wait barrier < length (wait s)
     \<and> br_count barrier + int (length (waiting (br_wait barrier) s)) = sint n
     \<and> (1 \<le> sint n \<longrightarrow> 1 \<le> br_count barrier))"

lemma sint_bound: "sint (n :: u32) < 2 ^ 31"
  using sint_lt [of n] by simp

lemma barrier_wait_cases:
  assumes "barrier_inv n (barrier, s)" "sched_get_current c s = Some t" "1 \<le> sint n"
  shows "if int (length (waiting (br_wait barrier) s)) + 1 = sint n
    then pthread_barrier_wait c barrier s
        = Some (PTHREAD_BARRIER_SERIAL_THREAD, barrier\<lparr>br_count := sint n\<rparr>,
            woken (br_wait barrier) (length (waiting (br_wait barrier) s)) s)
    else pthread_barrier_wait c barrier s
        = Some (0, barrier\<lparr>br_count := br_count barrier - 1\<rparr>,
            sched_candidate_switch c (queue_push (br_wait barrier) t s))"
proof -
  have c: "br_count barrier = sint n - int (length (waiting (br_wait barrier) s))" "1 \<le> br_count barrier"
    using assms by (auto simp: barrier_inv_def)
  have "wake_counting (br_wait barrier) 1 s
      = Some (1 + int (length (waiting (br_wait barrier) s)), woken (br_wait barrier) (length (waiting (br_wait barrier) s)) s)"
    using c sint_bound [of n] by (intro wake_counting_woken) auto
  moreover have "br_count barrier = 1 \<longleftrightarrow> int (length (waiting (br_wait barrier) s)) + 1 = sint n"
    using c(1) by auto
  ultimately show ?thesis
    using c(2) assms(2)
    by (cases "br_count barrier = 1") (simp_all add: pthread_barrier_wait_def sched_wait_unlock_def add.commute)
qed

lemma barrier_wait_inv:
  assumes inv: "barrier_inv n (barrier, s)" and w: "pthread_barrier_wait c barrier s = Some (e, barrier', s')"
  shows "barrier_inv n (barrier', s')"
proof (cases "br_count barrier = 1")
  case True
  then obtain k where "wake_counting (br_wait barrier) 1 s = Some (k, s')" "barrier' = barrier\<lparr>br_count := k\<rparr>"
    using w by (auto simp: pthread_barrier_wait_def split: bind_splits)
  moreover from wake_counting_Some [OF this(1)]
  have "sched_reach s'" "waiting (br_wait barrier) s' = []" "k = 1 + int (length (waiting (br_wait barrier) s))"
    using inv by (auto simp: barrier_inv_def waiting_woken intro: woken_reach)
  moreover have "length (wait s') = length (wait s)"
    using wake_counting_Some [OF calculation(1)] by (simp add: woken_def)
  ultimately show ?thesis
    using inv True by (auto simp: barrier_inv_def)
next
  case False
  then have "sched_wait_unlock c (br_wait barrier) s = Some s'" "barrier' = barrier\<lparr>br_count := br_count barrier - 1\<rparr>"
    "1 < br_count barrier"
    using w by (auto simp: pthread_barrier_wait_def split: bind_splits if_splits)
  then show ?thesis
    using inv wait_frame(1) [of c "br_wait barrier" s s'] waiting_wait_unlock [of c "br_wait barrier" s s']
    by (auto simp: barrier_inv_def)
qed

lemma barrier_reach_inv: "barrier_reach n x \<Longrightarrow> barrier_inv n x"
proof (induction rule: barrier_reach.induct)
  case (init s q barrier s')
  then have "s' = s" "barrier = \<lparr>br_count = sint n, br_wait = q\<rparr>"
    using wait_waiting [of s q] by (auto simp: pthread_barrier_init_def)
  then show ?case
    using init by (simp add: barrier_inv_def)
next
  case (wait barrier s c e barrier' s')
  then show ?case by (blast intro: barrier_wait_inv)
next
  case (other barrier s s')
  then show ?case
    using other_step_frame [OF other(2)] by (simp add: barrier_inv_def)
qed

section \<open>Properties\<close>

text \<open>
  C8: No signal is lost: once \<^verbatim>\<open>pthread_cond_wait\<close> has released the mutex, its caller is the last in the queue of
  the condition, and whatever other contexts do with other objects, the mutex included, before the next
  signals, \<open>k\<close> signals make the first \<open>k\<close> waiting contexts runnable in the order in which they came, the
  caller with them when \<open>k\<close> reaches its place, and a broadcast all of them.  The call never fails, and
  with a normal mutex the mutex goes to the first context that waits for it or becomes free.
\<close>

theorem pthread_cond_no_lost_signal:
  assumes "sched_get_current c s = Some t" "cd_wait cond < length (wait s)" "cd_wait cond \<noteq> mx_wait mutex"
    and "ws = waiting (cd_wait cond) s @ [t]"
  shows "\<exists>mutex' s'. pthread_cond_wait check c cond mutex s = Some (0, mutex', s')
    \<and> waiting (cd_wait cond) s' = ws
    \<and> (mx_attr mutex = Mutex_normal \<longrightarrow> mutex' = (case waiting (mx_wait mutex) s of
         [] \<Rightarrow> mutex\<lparr>mx_count := mx_count mutex - 1\<rparr> | u # us \<Rightarrow> mutex))
    \<and> (\<forall>s'' k. other_steps {cd_wait cond} s' s'' \<longrightarrow>
         root (cond_signals k cond s'') = root s'' @ take k ws
         \<and> waiting (cd_wait cond) (cond_signals k cond s'') = drop k ws
         \<and> snd (pthread_cond_broadcast cond s'') = cond_signals (length ws) cond s'')"
proof -
  obtain e mutex' s1 where u: "pthread_mutex_unlock c mutex s = Some (e, mutex', s1)"
    using unlock_total [OF assms(1), of mutex] by auto
  have f: "e = 0" "sched_get_current c s1 = Some t" "cd_wait cond < length (wait s1)" "waiting (cd_wait cond) s1 = waiting (cd_wait cond) s"
    using unlock_frame [OF u, of "cd_wait cond"] assms get_current_cong [of s1 s c] by simp_all
  then obtain s' where s': "sched_wait_unlock c (cd_wait cond) s1 = Some s'"
    by (simp add: sched_wait_unlock_def)
  then have w: "waiting (cd_wait cond) s' = ws"
    using waiting_wait_unlock [OF s' f(3)] f(2,4) assms(4) by auto
  have m: "mx_attr mutex = Mutex_normal \<longrightarrow> mutex' = (case waiting (mx_wait mutex) s of
      [] \<Rightarrow> mutex\<lparr>mx_count := mx_count mutex - 1\<rparr> | u # us \<Rightarrow> mutex)"
    using u by (auto simp: mutex_defs sched_wake_woken split: list.splits)
  have "root (cond_signals k cond s'') = root s'' @ take k ws \<and> waiting (cd_wait cond) (cond_signals k cond s'') = drop k ws
      \<and> snd (pthread_cond_broadcast cond s'') = cond_signals (length ws) cond s''"
    if "other_steps {cd_wait cond} s' s''" for s'' k
    using other_steps_waiting [OF that, of "cd_wait cond"] w
    by (simp add: cond_signals_woken waiting_woken pthread_cond_broadcast_def sched_wake_all_woken) (simp add: woken_def)
  then show ?thesis
    using u f(1) s' w m by (auto simp: pthread_cond_wait_def)
qed

text \<open>
  C9: A barrier for \<open>n\<close> contexts, however they and the rest of the system interleave: fewer than \<open>n\<close> contexts wait
  at it; a context that is not the \<open>n\<close>-th gets in the queue; the \<open>n\<close>-th makes all the others runnable in
  their order, gets \<^verbatim>\<open>PTHREAD_BARRIER_SERIAL_THREAD\<close> and leaves the barrier as it was after the
  initialisation.
\<close>

theorem pthread_barrier_cycle:
  assumes "barrier_reach n (barrier, s)" "1 \<le> sint n" "sched_get_current c s = Some t"
    and "ws = waiting (br_wait barrier) s"
  shows "int (length ws) < sint n \<and> (\<exists>e barrier' s'. pthread_barrier_wait c barrier s = Some (e, barrier', s')
    \<and> (if int (length ws) = sint n - 1
       then e = PTHREAD_BARRIER_SERIAL_THREAD \<and> br_count barrier' = sint n
         \<and> waiting (br_wait barrier) s' = [] \<and> root s' = root s @ ws \<and> cur s' = cur s
       else e = 0 \<and> waiting (br_wait barrier) s' = ws @ [t]))"
proof -
  have inv: "barrier_inv n (barrier, s)"
    by (rule barrier_reach_inv [OF assms(1)])
  then have "int (length ws) < sint n"
    using assms(2,4) by (auto simp: barrier_inv_def)
  moreover have "waiting (br_wait barrier) (queue_push (br_wait barrier) t s) = ws @ [t]"
    using inv assms(4) by (simp add: barrier_inv_def waiting_queue_push)
  ultimately show ?thesis
    using barrier_wait_cases [OF inv assms(3,2)] assms(4)
    by (cases "int (length ws) = sint n - 1") (auto simp: waiting_woken, simp_all add: woken_def)
qed

section \<open>Witnesses\<close>

theorem pthread_cond_no_lost_signal_witness:
  "\<exists>mutex' s'. pthread_cond_wait True 0 \<lparr>cd_wait = 0\<rparr> \<lparr>mx_count = 1, mx_attr = Mutex_normal, mx_owner = None, mx_wait = 1\<rparr>
      (sched_global_init 1 2) = Some (0, mutex', s') \<and> mx_count mutex' = 0
    \<and> root (cond_signals 1 \<lparr>cd_wait = 0\<rparr> s') = root s' @ [0]"
proof -
  let ?s = "sched_global_init 1 2" and ?m = "\<lparr>mx_count = 1, mx_attr = Mutex_normal, mx_owner = None, mx_wait = 1\<rparr>"
  have h: "sched_get_current 0 ?s = Some 0" "cd_wait \<lparr>cd_wait = 0\<rparr> < length (wait ?s)" "cd_wait \<lparr>cd_wait = 0\<rparr> \<noteq> mx_wait ?m"
    by (simp_all add: sched_get_current_def sched_global_init_def)
  have w: "waiting 0 ?s = []" "waiting 1 ?s = []"
    by (simp_all add: waiting_def sched_global_init_def)
  from pthread_cond_no_lost_signal [OF h refl, of True] obtain mutex' s'
    where r: "pthread_cond_wait True 0 \<lparr>cd_wait = 0\<rparr> ?m ?s = Some (0, mutex', s')" "mx_count mutex' = 0"
      "\<forall>s'' k. other_steps {0} s' s'' \<longrightarrow> root (cond_signals k \<lparr>cd_wait = 0\<rparr> s'') = root s'' @ take k [0]"
    using w by auto
  then have "root (cond_signals 1 \<lparr>cd_wait = 0\<rparr> s') = root s' @ take 1 [0]"
    using other_steps.none by blast
  then show ?thesis
    using r(1,2) by auto
qed

theorem pthread_barrier_cycle_witness:
  "\<exists>s' s''. pthread_barrier_wait 0 \<lparr>br_count = 2, br_wait = 0\<rparr> (sched_global_init 2 1) = Some (0, \<lparr>br_count = 1, br_wait = 0\<rparr>, s')
    \<and> pthread_barrier_wait 1 \<lparr>br_count = 1, br_wait = 0\<rparr> s' = Some (- 1, \<lparr>br_count = 2, br_wait = 0\<rparr>, s'')
    \<and> root s'' = root s' @ [0]"
proof -
  let ?s = "sched_global_init 2 1"
  obtain s' where s': "pthread_barrier_wait 0 \<lparr>br_count = 2, br_wait = 0\<rparr> ?s = Some (0, \<lparr>br_count = 1, br_wait = 0\<rparr>, s')"
    "sched_get_current 1 s' = Some 1" "waiting 0 s' = [0]"
    by (simp add: pthread_barrier_wait_def sched_wait_unlock_def sched_defs sched_global_init_def waiting_def numeral_2_eq_2)
  have "barrier_reach 2 (\<lparr>br_count = 2, br_wait = 0\<rparr>, ?s)"
    by (rule barrier_reach.init [OF sched_reach.init [of 2 1], of 0])
      (simp_all add: sched_global_init_def waiting_def pthread_barrier_init_def)
  then have "barrier_reach 2 (\<lparr>br_count = 1, br_wait = 0\<rparr>, s')"
    using s'(1) by (rule barrier_reach.wait)
  from pthread_barrier_cycle [OF this _ s'(2) refl] s'(3) obtain e b s''
    where r: "pthread_barrier_wait 1 \<lparr>br_count = 1, br_wait = 0\<rparr> s' = Some (e, b, s'')" "e = - 1" "br_count b = 2" "root s'' = root s' @ [0]"
    by (auto simp: PTHREAD_BARRIER_SERIAL_THREAD_def)
  moreover have "b = \<lparr>br_count = 2, br_wait = 0\<rparr>"
    using r(1,3) by (auto simp: pthread_barrier_wait_def split: bind_splits)
  ultimately show ?thesis
    using s'(1) by blast
qed

end
