(* ===== verification/Pthread_Thread.thy ===== *)
theory Pthread_Thread
  imports Scheduler
begin

text \<open>
  \<^verbatim>\<open>libpthread/thread.c\<close>, \<^verbatim>\<open>libpthread/cancel.c\<close> and the attribute functions, in the configuration with
  \<^verbatim>\<open>CONFIG_PTHREAD_JOIN\<close>, \<^verbatim>\<open>CONFIG_PTHREAD_CANCEL\<close> and \<^verbatim>\<open>CONFIG_PTHREAD_ATTRIBUTES\<close> and without \<^verbatim>\<open>CONFIG_PTHREAD_KEYS\<close>.  A
  thread has the number of its scheduler context; the state of the system is the scheduler, the table of
  the thread structures that are allocated, and the stacks the library has allocated.  A function that
  makes its caller stop is split there: \<^verbatim>\<open>pthread_exit_cleanup\<close> and \<^verbatim>\<open>pthread_join_resume\<close> are what the caller does
  when it runs again.  \<open>None\<close> is a failed assertion, the use of a freed structure, or a call from the idle
  context.  The lemmas show that exit, join and detach keep every context at one place and that
  \<^verbatim>\<open>pthread_join\<close> gets the result of the thread whichever comes first.
\<close>

section \<open>Threads\<close>

record pthread_s =
  th_state :: u32
  th_joined :: "nat option"
  th_retval :: u32
  th_arg :: u32
  th_start_routine :: u32
  th_stack :: nat

definition STATE_DETACHED :: nat where "STATE_DETACHED = 0"
definition STATE_JOINABLE :: nat where "STATE_JOINABLE = 1"
definition STATE_CANCELED :: nat where "STATE_CANCELED = 2"
definition STATE_NOCANCEL :: nat where "STATE_NOCANCEL = 3"
definition STATE_CANCELASYNC :: nat where "STATE_CANCELASYNC = 4"

lemmas state_bits = STATE_DETACHED_def STATE_JOINABLE_def STATE_CANCELED_def STATE_NOCANCEL_def STATE_CANCELASYNC_def

record pthread_sys =
  sched :: sched_state
  threads :: "nat \<Rightarrow> pthread_s option"
  stacks :: "nat set"

definition th_set :: "nat \<Rightarrow> pthread_s \<Rightarrow> pthread_sys \<Rightarrow> pthread_sys" where
  "th_set t th y = y\<lparr>threads := (threads y)(t := Some th)\<rparr>"

text \<open>The thread that processor \<open>c\<close> runs.\<close>

definition pthread_self :: "nat \<Rightarrow> pthread_sys \<Rightarrow> (nat \<times> pthread_s) option" where
  "pthread_self c y = do {
     t \<leftarrow> sched_get_current c (sched y);
     th \<leftarrow> threads y t;
     Some (t, th)
   }"

text \<open>\<^verbatim>\<open>__pthread_cleanup\<close>, which frees the stack wherever it comes from.\<close>

definition pthread_cleanup :: "nat \<Rightarrow> pthread_sys \<Rightarrow> pthread_sys option" where
  "pthread_cleanup c y = do {
     (t, th) \<leftarrow> pthread_self c y;
     let y = y\<lparr>stacks := stacks y - {th_stack th}, threads := (threads y)(t := None)\<rparr>;
     s \<leftarrow> sched_context_exit c (sched y);
     Some (y\<lparr>sched := s\<rparr>)
   }"

definition pthread_exit :: "nat \<Rightarrow> u32 \<Rightarrow> pthread_sys \<Rightarrow> pthread_sys option" where
  "pthread_exit c retval y = do {
     (t, th) \<leftarrow> pthread_self c y;
     let th = th\<lparr>th_state := set_bit STATE_CANCELED (th_state th)\<rparr>;
     let y = th_set t th y;
     if \<not> bit (th_state th) STATE_DETACHED then
       case th_joined th of
         None \<Rightarrow> do {
           let th = th\<lparr>th_state := set_bit STATE_JOINABLE (th_state th), th_retval := retval\<rparr>;
           let y = th_set t th y;
           s \<leftarrow> sched_context_stop_unlock id c (sched y);
           Some (y\<lparr>sched := s\<rparr>)
         }
       | Some j \<Rightarrow> do {
           jth \<leftarrow> threads y j;
           let y = th_set j (jth\<lparr>th_retval := retval\<rparr>) y;
           let y = y\<lparr>sched := sched_context_start j (sched y)\<rparr>;
           pthread_cleanup c y
         }
     else pthread_cleanup c y
   }"

text \<open>The rest of \<^verbatim>\<open>pthread_exit\<close> after the stop.\<close>

definition pthread_exit_cleanup :: "nat \<Rightarrow> pthread_sys \<Rightarrow> pthread_sys option" where
  "pthread_exit_cleanup c y = pthread_cleanup c y"

text \<open>
  The function after the call of \<^verbatim>\<open>pthread_testcancel\<close> that it starts with; a caller that is cancelled there calls \<^verbatim>\<open>pthread_exit\<close>
  instead, which is a step of its own in the system below.  The value is the one stored through \<^verbatim>\<open>value_ptr\<close>, when the call does not stop.
\<close>

definition pthread_join ::
    "bool \<Rightarrow> nat \<Rightarrow> nat \<Rightarrow> pthread_sys \<Rightarrow> (error_t \<times> u32 option \<times> pthread_sys) option" where
  "pthread_join CONFIG_PTHREAD_CHECK c thread y = do {
     th \<leftarrow> threads y thread;
     if CONFIG_PTHREAD_CHECK \<and> bit (th_state th) STATE_DETACHED then Some (EINVAL, None, y)
     else if bit (th_state th) STATE_JOINABLE then
       Some (0, Some (th_retval th), y\<lparr>sched := sched_context_start thread (sched y)\<rparr>)
     else if th_joined th \<noteq> None then Some (EINVAL, None, y)
     else do {
       (t, self) \<leftarrow> pthread_self c y;
       let y = th_set thread (th\<lparr>th_joined := Some t\<rparr>) y;
       s \<leftarrow> sched_context_stop_unlock id c (sched y);
       Some (0, None, y\<lparr>sched := s\<rparr>)
     }
   }"

definition pthread_join_resume :: "nat \<Rightarrow> pthread_sys \<Rightarrow> (error_t \<times> u32) option" where
  "pthread_join_resume c y = do {
     (t, self) \<leftarrow> pthread_self c y;
     Some (0, th_retval self)
   }"

definition pthread_detach :: "nat \<Rightarrow> pthread_sys \<Rightarrow> (error_t \<times> pthread_sys) option" where
  "pthread_detach thread y = do {
     th \<leftarrow> threads y thread;
     let y' = th_set thread (th\<lparr>th_state := set_bit STATE_DETACHED (th_state th)\<rparr>) y;
     if \<not> bit (th_state th) STATE_DETACHED then
       if bit (th_state th) STATE_JOINABLE
       then Some (0, y'\<lparr>sched := sched_context_start thread (sched y')\<rparr>)
       else Some (0, y')
     else Some (EINVAL, y')
   }"

section \<open>Creation\<close>

definition ATTRFLAG_AFFINITY :: u8 where "ATTRFLAG_AFFINITY = 0x01"
definition ATTRFLAG_STACK :: u8 where "ATTRFLAG_STACK = 0x02"
definition ATTRFLAG_DETACHED :: u8 where "ATTRFLAG_DETACHED = 0x04"

lemmas attr_flags = ATTRFLAG_AFFINITY_def ATTRFLAG_STACK_def ATTRFLAG_DETACHED_def

text \<open>The list of processors holds the first \<^verbatim>\<open>cpucount\<close> elements of the array.\<close>

record pthread_attr_s =
  at_flags :: u8
  at_cpulist :: "nat list"
  at_stack_buf :: "nat option"
  at_stack_size :: u32

definition pthread_attr_init :: "pthread_attr_s \<Rightarrow> error_t \<times> pthread_attr_s" where
  "pthread_attr_init attr = (0, attr\<lparr>at_flags := 0\<rparr>)"

definition pthread_attr_affinity :: "nat \<Rightarrow> nat \<Rightarrow> pthread_attr_s \<Rightarrow> error_t \<times> pthread_attr_s" where
  "pthread_attr_affinity CONFIG_CPU_MAXCOUNT cpu attr =
     (let attr = (if at_flags attr AND ATTRFLAG_AFFINITY = 0
                  then attr\<lparr>at_flags := at_flags attr OR ATTRFLAG_AFFINITY, at_cpulist := []\<rparr>
                  else attr)
      in if length (at_cpulist attr) \<ge> CONFIG_CPU_MAXCOUNT then (ENOMEM, attr)
         else (0, attr\<lparr>at_cpulist := at_cpulist attr @ [cpu]\<rparr>))"

definition pthread_attr_setstack :: "nat option \<Rightarrow> u32 \<Rightarrow> pthread_attr_s \<Rightarrow> error_t \<times> pthread_attr_s" where
  "pthread_attr_setstack buf sz attr =
     (0, attr\<lparr>at_flags := at_flags attr OR ATTRFLAG_STACK, at_stack_buf := buf, at_stack_size := sz\<rparr>)"

definition pthread_attr_setstacksize :: "u32 \<Rightarrow> pthread_attr_s \<Rightarrow> error_t \<times> pthread_attr_s" where
  "pthread_attr_setstacksize sz attr =
     (0, attr\<lparr>at_flags := at_flags attr OR ATTRFLAG_STACK, at_stack_buf := None, at_stack_size := sz\<rparr>)"

definition pthread_attr_setdetachstate :: "u8 \<Rightarrow> pthread_attr_s \<Rightarrow> error_t \<times> pthread_attr_s" where
  "pthread_attr_setdetachstate st attr =
     (0, if st = 1 then attr\<lparr>at_flags := at_flags attr OR ATTRFLAG_DETACHED\<rparr>
         else attr\<lparr>at_flags := at_flags attr AND NOT ATTRFLAG_DETACHED\<rparr>)"

text \<open>
  What the allocators, \<^verbatim>\<open>lock_init\<close> and \<^verbatim>\<open>context_init\<close> of the architecture give: the new structure with what its
  memory holds, and the stacks.
\<close>

record create_env =
  ev_thread :: "nat option"
  ev_mem :: pthread_s
  ev_lock_init :: error_t
  ev_stack :: "u32 \<Rightarrow> nat option"
  ev_stack_cpu :: "u32 \<Rightarrow> nat \<Rightarrow> nat option"
  ev_context_init :: error_t

definition at_flag :: "pthread_attr_s option \<Rightarrow> u8 \<Rightarrow> bool" where
  "at_flag attr f = (case attr of None \<Rightarrow> False | Some a \<Rightarrow> at_flags a AND f \<noteq> 0)"

text \<open>The stack and its size; the stack of \<^verbatim>\<open>pthread_attr_setstack\<close> is not one of the library's.\<close>

definition create_stack ::
    "u32 \<Rightarrow> pthread_attr_s option \<Rightarrow> create_env \<Rightarrow> pthread_sys \<Rightarrow> (nat option \<times> u32 \<times> pthread_sys) option" where
  "create_stack CONFIG_PTHREAD_STACK_SIZE attr env y = do {
     (stack, stack_size, y) \<leftarrow>
       (case attr of
          None \<Rightarrow> Some (None, CONFIG_PTHREAD_STACK_SIZE, y)
        | Some a \<Rightarrow>
            if at_flag attr ATTRFLAG_STACK then Some (at_stack_buf a, at_stack_size a, y)
            else if at_flag attr ATTRFLAG_AFFINITY then
              (case at_cpulist a of
                 [] \<Rightarrow> None
               | cpu # cpus \<Rightarrow>
                   let stack = ev_stack_cpu env CONFIG_PTHREAD_STACK_SIZE cpu
                   in Some (stack, CONFIG_PTHREAD_STACK_SIZE, y\<lparr>stacks := stacks y \<union> set_option stack\<rparr>))
            else Some (None, CONFIG_PTHREAD_STACK_SIZE, y));
     if stack = None then
       let stack = ev_stack env stack_size
       in Some (stack, stack_size, y\<lparr>stacks := stacks y \<union> set_option stack\<rparr>)
     else Some (stack, stack_size, y)
   }"

definition pthread_create ::
    "u32 \<Rightarrow> pthread_attr_s option \<Rightarrow> u32 \<Rightarrow> u32 \<Rightarrow> create_env \<Rightarrow> pthread_sys \<Rightarrow>
      (error_t \<times> nat option \<times> pthread_sys) option" where
  "pthread_create CONFIG_PTHREAD_STACK_SIZE attr start_routine arg env y =
     (case ev_thread env of
        None \<Rightarrow> Some (ENOMEM, None, y)
      | Some t \<Rightarrow>
          if ev_lock_init env \<noteq> 0 then Some (ENOMEM, None, y)
          else do {
            (stack, stack_size, y) \<leftarrow> create_stack CONFIG_PTHREAD_STACK_SIZE attr env y;
            case stack of
              None \<Rightarrow> Some (ENOMEM, None, y)
            | Some k \<Rightarrow>
                if stack_size mod 4 \<noteq> 0 then None
                else if ev_context_init env \<noteq> 0
                then Some (ev_context_init env, None, y\<lparr>stacks := stacks y - {k}\<rparr>)
                else do {
                  let th = (ev_mem env)\<lparr>th_start_routine := start_routine, th_arg := arg, th_joined := None,
                    th_state := (if at_flag attr ATTRFLAG_DETACHED then set_bit STATE_DETACHED 0 else 0), th_stack := k\<rparr>;
                  let y = th_set t th y;
                  Some (0, Some t, y\<lparr>sched := sched_context_start t (sched y)\<rparr>)
                }
          })"

section \<open>Cancellation\<close>

definition PTHREAD_CANCELED :: u32 where
  "PTHREAD_CANCELED = - 1"

definition pthread_cancel :: "nat \<Rightarrow> pthread_sys \<Rightarrow> (bool \<times> pthread_sys) option" where
  "pthread_cancel thread y = do {
     th \<leftarrow> threads y thread;
     Some (bit (th_state th) STATE_CANCELED, th_set thread (th\<lparr>th_state := set_bit STATE_CANCELED (th_state th)\<rparr>) y)
   }"

text \<open>Constants of \<^verbatim>\<open>pthread.h\<close>.\<close>

definition PTHREAD_CANCEL_DISABLE :: int where "PTHREAD_CANCEL_DISABLE = 0"
definition PTHREAD_CANCEL_ENABLE :: int where "PTHREAD_CANCEL_ENABLE = 1"
definition PTHREAD_CANCEL_DEFERRED :: int where "PTHREAD_CANCEL_DEFERRED = 0"

text \<open>The second result is what is stored through the pointer.\<close>

definition pthread_setcancelstate :: "nat \<Rightarrow> int \<Rightarrow> pthread_sys \<Rightarrow> (error_t \<times> int \<times> pthread_sys) option" where
  "pthread_setcancelstate c st y = do {
     (t, self) \<leftarrow> pthread_self c y;
     let old = of_bool (bit (th_state self) STATE_NOCANCEL);
     let self = self\<lparr>th_state := (if st = PTHREAD_CANCEL_ENABLE then unset_bit STATE_NOCANCEL (th_state self)
                                  else set_bit STATE_NOCANCEL (th_state self))\<rparr>;
     Some (0, old, th_set t self y)
   }"

definition pthread_setcanceltype :: "nat \<Rightarrow> int \<Rightarrow> pthread_sys \<Rightarrow> (error_t \<times> int \<times> pthread_sys) option" where
  "pthread_setcanceltype c type y = do {
     (t, self) \<leftarrow> pthread_self c y;
     let old = of_bool (bit (th_state self) STATE_CANCELASYNC);
     let self = self\<lparr>th_state := (if type = PTHREAD_CANCEL_DEFERRED then unset_bit STATE_CANCELASYNC (th_state self)
                                  else set_bit STATE_CANCELASYNC (th_state self))\<rparr>;
     Some (0, old, th_set t self y)
   }"

text \<open>The cleanup handlers that the thread has pushed, the last one first, are functions on the state.\<close>

definition pthread_cancel_self :: "(pthread_sys \<Rightarrow> pthread_sys) list \<Rightarrow> nat \<Rightarrow> pthread_sys \<Rightarrow> pthread_sys option" where
  "pthread_cancel_self handlers c y = do {
     (t, self) \<leftarrow> pthread_self c y;
     if bit (th_state self) STATE_NOCANCEL then Some y
     else pthread_exit c PTHREAD_CANCELED (fold (\<lambda>fcn y. fcn y) handlers y)
   }"

definition pthread_testcancel :: "(pthread_sys \<Rightarrow> pthread_sys) list \<Rightarrow> nat \<Rightarrow> pthread_sys \<Rightarrow> pthread_sys option" where
  "pthread_testcancel handlers c y = do {
     (t, self) \<leftarrow> pthread_self c y;
     if bit (th_state self) STATE_CANCELED then pthread_cancel_self handlers c y else Some y
   }"

text \<open>A cancelled thread does not come back from \<^verbatim>\<open>pthread_testcancel\<close>; the switch is for the others.\<close>

definition pthread_switch :: "(pthread_sys \<Rightarrow> pthread_sys) list \<Rightarrow> nat \<Rightarrow> pthread_sys \<Rightarrow> pthread_sys option" where
  "pthread_switch handlers c y = do {
     (t, self) \<leftarrow> pthread_self c y;
     y' \<leftarrow> pthread_testcancel handlers c y;
     if bit (th_state self) STATE_CANCELED \<and> \<not> bit (th_state self) STATE_NOCANCEL then Some y'
     else do {
       s \<leftarrow> sched_context_switch c (sched y');
       Some (y'\<lparr>sched := s\<rparr>)
     }
   }"

section \<open>The system\<close>

text \<open>
  Threads are created, exit, join and detach each other, while contexts wait, wake each other up and are
  scheduled.  The threads keep to three rules of the interface: none joins itself, none joins or
  detaches a thread twice, and none detaches a thread that another one is joining.
\<close>

inductive quiet_step :: "sched_state \<Rightarrow> sched_state \<Rightarrow> bool" where
  switch: "sched_context_switch c s = Some s' \<Longrightarrow> quiet_step s s'"
| wait: "q < length (wait s) \<Longrightarrow> sched_wait_unlock c q s = Some s' \<Longrightarrow> quiet_step s s'"
| wake: "q < length (wait s) \<Longrightarrow> sched_wake q s = (r, s') \<Longrightarrow> quiet_step s s'"
| idle: "c < length (cur s) \<Longrightarrow> cur s ! c = None \<Longrightarrow> quiet_step s (sched_context_idle c s)"

definition exiting :: "pthread_s \<Rightarrow> bool" where
  "exiting th \<longleftrightarrow> bit (th_state th) STATE_JOINABLE"

definition unclaimed :: "nat \<Rightarrow> pthread_s \<Rightarrow> pthread_sys \<Rightarrow> bool" where
  "unclaimed t th y \<longleftrightarrow> (exiting th \<longrightarrow> t \<notin> set (contexts (sched y)))"

inductive pt_step :: "pthread_sys \<Rightarrow> pthread_sys \<Rightarrow> bool" where
  create: "(\<And>t. ev_thread env = Some t \<Longrightarrow> threads y t = None \<and> t \<notin> set (contexts (sched y))) \<Longrightarrow>
    pthread_create n attr f arg env y = Some (e, r, y') \<Longrightarrow> pt_step y y'"
| exit: "pthread_self c y = Some (t, th) \<Longrightarrow> \<not> exiting th \<Longrightarrow> pthread_exit c v y = Some y' \<Longrightarrow> pt_step y y'"
| cleanup: "pthread_self c y = Some (t, th) \<Longrightarrow> exiting th \<Longrightarrow> pthread_exit_cleanup c y = Some y' \<Longrightarrow> pt_step y y'"
| join: "pthread_self c y = Some (t, self) \<Longrightarrow> \<not> exiting self \<Longrightarrow> thread \<noteq> t \<Longrightarrow>
    threads y thread = Some th \<Longrightarrow> unclaimed thread th y \<Longrightarrow>
    pthread_join check c thread y = Some (e, v, y') \<Longrightarrow> pt_step y y'"
| detach: "threads y thread = Some th \<Longrightarrow> th_joined th = None \<Longrightarrow> unclaimed thread th y \<Longrightarrow>
    pthread_detach thread y = Some (e, y') \<Longrightarrow> pt_step y y'"
| other: "quiet_step (sched y) s \<Longrightarrow> pt_step y (y\<lparr>sched := s\<rparr>)"

inductive pt_reach :: "pthread_sys \<Rightarrow> bool" where
  init: "sched_reach s \<Longrightarrow> pt_reach \<lparr>sched = s, threads = Map.empty, stacks = {}\<rparr>"
| step: "pt_reach y \<Longrightarrow> pt_step y y' \<Longrightarrow> pt_reach y'"

section \<open>Lemmas\<close>

text \<open>The invariant for the threads of \<open>U\<close>: who is joined by whom.\<close>

definition pt_inv_on :: "nat set \<Rightarrow> pthread_sys \<Rightarrow> bool" where
  "pt_inv_on U y \<longleftrightarrow> sched_reach (sched y)
     \<and> (\<forall>t th j. t \<in> U \<and> threads y t = Some th \<and> th_joined th = Some j \<longrightarrow>
          \<not> exiting th \<and> j \<notin> set (contexts (sched y))
          \<and> (\<exists>jth. threads y j = Some jth \<and> \<not> exiting jth)
          \<and> (\<forall>t' th'. t' \<in> U \<and> threads y t' = Some th' \<and> th_joined th' = Some j \<longrightarrow> t' = t))"

abbreviation pt_inv :: "pthread_sys \<Rightarrow> bool" where
  "pt_inv \<equiv> pt_inv_on UNIV"

lemma pt_inv_onI:
  assumes "sched_reach (sched y)"
    and "\<And>t th j. t \<in> U \<Longrightarrow> threads y t = Some th \<Longrightarrow> th_joined th = Some j \<Longrightarrow>
      \<not> exiting th \<and> j \<notin> set (contexts (sched y)) \<and> (\<exists>jth. threads y j = Some jth \<and> \<not> exiting jth)"
    and "\<And>t th t' th' j. t \<in> U \<Longrightarrow> t' \<in> U \<Longrightarrow> threads y t = Some th \<Longrightarrow> th_joined th = Some j \<Longrightarrow>
      threads y t' = Some th' \<Longrightarrow> th_joined th' = Some j \<Longrightarrow> t' = t"
  shows "pt_inv_on U y"
  using assms unfolding pt_inv_on_def by blast

lemma pt_inv_onD:
  assumes "pt_inv_on U y"
  shows "sched_reach (sched y)"
    and "t \<in> U \<Longrightarrow> threads y t = Some th \<Longrightarrow> th_joined th = Some j \<Longrightarrow> \<not> exiting th"
    and "t \<in> U \<Longrightarrow> threads y t = Some th \<Longrightarrow> th_joined th = Some j \<Longrightarrow> j \<notin> set (contexts (sched y))"
    and "t \<in> U \<Longrightarrow> threads y t = Some th \<Longrightarrow> th_joined th = Some j \<Longrightarrow> \<exists>jth. threads y j = Some jth \<and> \<not> exiting jth"
    and "t \<in> U \<Longrightarrow> threads y t = Some th \<Longrightarrow> th_joined th = Some j \<Longrightarrow>
      t' \<in> U \<Longrightarrow> threads y t' = Some th' \<Longrightarrow> th_joined th' = Some j \<Longrightarrow> t' = t"
  using assms unfolding pt_inv_on_def by blast+

lemma quiet_step_sched: "quiet_step s s' \<Longrightarrow> sched_step s s'"
  by (induction rule: quiet_step.induct) (blast intro: sched_step.intros)+

lemma quiet_step_contexts: "quiet_step s s' \<Longrightarrow> set (contexts s') = set (contexts s)"
  by (induction rule: quiet_step.induct)
    (metis contexts_switch set_mset_mset, metis contexts_wait set_mset_mset, metis contexts_wake set_mset_mset,
      metis contexts_idle set_mset_mset)

lemma current_in_contexts:
  assumes "sched_get_current c s = Some t"
  shows "t \<in> set (contexts s)"
proof -
  have "Some t \<in> set (cur s)"
    using assms by (metis nth_mem option.distinct(1) sched_get_current_def)
  then show ?thesis
    by (simp add: contexts_def set_running)
qed

lemma contexts_start: "set (contexts (sched_context_start t s)) = insert t (set (contexts s))"
  using contexts_push [of t s] by (metis sched_context_start_def set_mset_add_mset_insert set_mset_mset)

lemma get_current_start [simp]: "sched_get_current c (sched_context_start t s) = sched_get_current c s"
  by (auto simp: sched_get_current_def sched_context_start_def sched_context_push_def Let_def split: list.splits)

lemma start_reach: "sched_reach s \<Longrightarrow> t \<notin> set (contexts s) \<Longrightarrow> sched_reach (sched_context_start t s)"
  by (blast intro: sched_reach.step sched_step.start)

text \<open>A context that leaves its processor is at no place any more.\<close>

lemma leave_contexts:
  assumes "sched_reach s" "sched_get_current c s = Some t"
  shows "set (contexts (sched_candidate_switch c s)) = set (contexts s) - {t}"
proof -
  have m: "add_mset t (mset (contexts (sched_candidate_switch c s))) = mset (contexts s)"
    by (rule contexts_leave [OF assms(2)])
  then have "distinct (t # contexts (sched_candidate_switch c s))"
    using sched_reach_inv [OF assms(1)] mset_eq_imp_distinct_iff [of "t # contexts (sched_candidate_switch c s)" "contexts s"]
    by (simp add: sched_inv_def)
  then show ?thesis
    using m by (metis Diff_insert_absorb distinct.simps(2) set_mset_add_mset_insert set_mset_mset)
qed

lemma exit_step:
  assumes "sched_reach s" "sched_context_exit c s = Some s'"
  obtains t where "sched_get_current c s = Some t" "sched_reach s'" "set (contexts s') = set (contexts s) - {t}"
  using assms leave_contexts [OF assms(1)] sched_reach.step [OF assms(1) sched_step.exit [OF assms(2)]]
  by (auto simp: sched_context_exit_def split: bind_splits)

lemma stop_step:
  assumes "sched_reach s" "sched_context_stop_unlock id c s = Some s'"
  obtains t where "sched_get_current c s = Some t" "sched_reach s'" "set (contexts s') = set (contexts s) - {t}"
proof -
  have "sched_context_stop c s = Some s'"
    using assms(2) by (auto simp: sched_context_stop_unlock_def sched_context_stop_def)
  then show thesis
    using that leave_contexts [OF assms(1)] sched_reach.step [OF assms(1) sched_step.stop]
    by (auto simp: sched_context_stop_def split: bind_splits)
qed

lemma th_set_fields [simp]:
  "sched (th_set t th y) = sched y" "threads (th_set t th y) = (threads y)(t \<mapsto> th)"
  "stacks (th_set t th y) = stacks y"
  by (simp_all add: th_set_def)

lemma self_th_set: "pthread_self c y = Some (t, th) \<Longrightarrow> pthread_self c (th_set t th' y) = Some (t, th')"
  by (auto simp: pthread_self_def split: bind_splits)

lemma self_current: "pthread_self c y = Some (t, th) \<Longrightarrow> sched_get_current c (sched y) = Some t \<and> threads y t = Some th"
  by (auto simp: pthread_self_def split: bind_splits)

text \<open>Changes of one thread that the invariant is not about, and of the scheduler.\<close>

lemma pt_inv_th_set:
  assumes "pt_inv_on U y" "threads y t = Some th" "th_joined th' = th_joined th" "exiting th' = exiting th"
  shows "pt_inv_on U (th_set t th' y)"
proof (rule pt_inv_onI)
  have prev: "\<exists>uh0. threads y u = Some uh0 \<and> th_joined uh0 = th_joined uh \<and> exiting uh0 = exiting uh"
    if "threads (th_set t th' y) u = Some uh" for u uh
    using that assms(2-4) by (auto split: if_splits)
  show "sched_reach (sched (th_set t th' y))"
    using pt_inv_onD(1) [OF assms(1)] by simp
  show "\<not> exiting uh \<and> j \<notin> set (contexts (sched (th_set t th' y)))
      \<and> (\<exists>jth. threads (th_set t th' y) j = Some jth \<and> \<not> exiting jth)"
    if u: "u \<in> U" "threads (th_set t th' y) u = Some uh" "th_joined uh = Some j" for u uh j
  proof -
    obtain uh0 where u0: "threads y u = Some uh0" "th_joined uh0 = Some j" "exiting uh0 = exiting uh"
      using prev [OF u(2)] u(3) by auto
    note D = pt_inv_onD(2-4) [OF assms(1) u(1) u0(1,2)]
    then show ?thesis
      using u0(3) assms(2,4) by auto
  qed
  show "u' = u" if "u \<in> U" "u' \<in> U" "threads (th_set t th' y) u = Some uh" "th_joined uh = Some j"
    "threads (th_set t th' y) u' = Some uh'" "th_joined uh' = Some j" for u uh u' uh' j
    using prev [OF that(3)] prev [OF that(5)] that pt_inv_onD(5) [OF assms(1)] by metis
qed

lemma pt_inv_sched:
  assumes "pt_inv_on U y" "sched_reach s"
    "\<And>j t th. t \<in> U \<Longrightarrow> threads y t = Some th \<Longrightarrow> th_joined th = Some j \<Longrightarrow> j \<notin> set (contexts s)"
  shows "pt_inv_on U (y\<lparr>sched := s\<rparr>)"
proof (rule pt_inv_onI)
  show "\<not> exiting th \<and> j \<notin> set (contexts (sched (y\<lparr>sched := s\<rparr>))) \<and> (\<exists>jth. threads (y\<lparr>sched := s\<rparr>) j = Some jth \<and> \<not> exiting jth)"
    if "t \<in> U" "threads (y\<lparr>sched := s\<rparr>) t = Some th" "th_joined th = Some j" for t th j
    using that assms(3) pt_inv_onD(2,4) [OF assms(1), of t th j] by simp
  show "t' = t" if "t \<in> U" "t' \<in> U" "threads (y\<lparr>sched := s\<rparr>) t = Some th" "th_joined th = Some j"
    "threads (y\<lparr>sched := s\<rparr>) t' = Some th'" "th_joined th' = Some j" for t th t' th' j
    using that pt_inv_onD(5) [OF assms(1), of t th j t' th'] by simp
qed (simp add: assms(2))

text \<open>A running thread that ends, or stops in \<^verbatim>\<open>pthread_exit\<close>: it is nobody's joiner.\<close>

lemma pt_inv_leave:
  assumes inv: "pt_inv_on (- {t}) y" and t: "t \<in> set (contexts (sched y))"
    and s: "sched_reach s" "set (contexts s) = set (contexts (sched y)) - {t}"
    and y': "sched y' = s" "threads y' = (threads y)(t := x)" "\<And>th. x = Some th \<Longrightarrow> th_joined th = None"
  shows "pt_inv y'"
proof (rule pt_inv_onI)
  have prev: "threads y u = Some uh \<and> u \<in> - {t}" if "threads y' u = Some uh" "th_joined uh = Some j" for u uh j
    using that y'(2,3) by (auto split: if_splits)
  show "sched_reach (sched y')"
    using s(1) y'(1) by simp
  show "\<not> exiting uh \<and> j \<notin> set (contexts (sched y')) \<and> (\<exists>jth. threads y' j = Some jth \<and> \<not> exiting jth)"
    if u: "threads y' u = Some uh" "th_joined uh = Some j" for u uh j
  proof -
    have u0: "threads y u = Some uh" "u \<in> - {t}"
      using prev [OF u] by auto
    note D = pt_inv_onD(2-4) [OF inv u0(2,1) u(2)]
    then have "j \<noteq> t"
      using t by blast
    then show ?thesis
      using D s(2) y'(1,2) by auto
  qed
  show "u' = u" if "threads y' u = Some uh" "th_joined uh = Some j" "threads y' u' = Some uh'" "th_joined uh' = Some j" for u uh u' uh' j
    using prev [OF that(1,2)] prev [OF that(3,4)] that pt_inv_onD(5) [OF inv] by blast
qed

lemma pt_inv_sub: "pt_inv y \<Longrightarrow> pt_inv_on U y"
  unfolding pt_inv_on_def by (simp, blast)

lemma pt_inv_cleanup:
  assumes inv: "pt_inv_on (- {t}) y" and self: "pthread_self c y = Some (t, th)" and c: "pthread_cleanup c y = Some y'"
  shows "pt_inv y'"
proof -
  obtain s where y: "sched_context_exit c (sched y) = Some s"
    "y' = y\<lparr>stacks := stacks y - {th_stack th}, threads := (threads y)(t := None), sched := s\<rparr>"
    using c self by (auto simp: pthread_cleanup_def split: bind_splits)
  have "sched_reach s" "set (contexts s) = set (contexts (sched y)) - {t}"
    using exit_step [OF pt_inv_onD(1) [OF inv] y(1)] self_current [OF self] by (metis option.inject)+
  then show ?thesis
    using self_current [OF self] current_in_contexts y(2) by (intro pt_inv_leave [OF inv, where x = None]) auto
qed

lemma exiting_bits [simp]:
  "exiting (th\<lparr>th_state := set_bit STATE_CANCELED (th_state th)\<rparr>) = exiting th"
  "exiting (th\<lparr>th_state := set_bit STATE_DETACHED (th_state th)\<rparr>) = exiting th"
  by (auto simp: exiting_def state_bits bit_set_bit_iff possible_bit_word)

lemma exiting_fields [simp]:
  "exiting (th\<lparr>th_joined := x\<rparr>) = exiting th" "exiting (th\<lparr>th_retval := v\<rparr>) = exiting th"
  by (simp_all add: exiting_def)

lemma pt_inv_stop:
  assumes inv: "pt_inv y" and self: "pthread_self c y = Some (t, th)" and s: "sched_context_stop_unlock id c (sched y) = Some s"
    and th': "th_joined th' = None"
  shows "pt_inv ((th_set t th' y)\<lparr>sched := s\<rparr>)"
proof -
  have "sched_reach s" "set (contexts s) = set (contexts (sched y)) - {t}"
    using stop_step [OF pt_inv_onD(1) [OF inv] s] self_current [OF self] by (metis option.inject)+
  then show ?thesis
    using self_current [OF self] current_in_contexts th'
    by (intro pt_inv_leave [OF pt_inv_sub [OF inv], where x = "Some th'"]) auto
qed

lemma pt_inv_start:
  assumes inv: "pt_inv_on U y" and j: "j \<notin> set (contexts (sched y))"
    and no: "\<And>t th. t \<in> U \<Longrightarrow> threads y t = Some th \<Longrightarrow> th_joined th \<noteq> Some j"
  shows "pt_inv_on U (y\<lparr>sched := sched_context_start j (sched y)\<rparr>)"
proof (rule pt_inv_sched [OF inv start_reach [OF pt_inv_onD(1) [OF inv] j]])
  show "i \<notin> set (contexts (sched_context_start j (sched y)))"
    if "t \<in> U" "threads y t = Some th" "th_joined th = Some i" for i t th
    using no [OF that(1,2)] pt_inv_onD(3) [OF inv that] that(3) by (auto simp: contexts_start)
qed

lemma pthread_exit_cases:
  assumes self: "pthread_self c y = Some (t, th)" and e: "pthread_exit c v y = Some y'"
    and th': "th' = th\<lparr>th_state := set_bit STATE_CANCELED (th_state th)\<rparr>"
  obtains (stop) s where "sched_context_stop_unlock id c (sched y) = Some s" "th_joined th = None"
    "y' = (th_set t (th'\<lparr>th_state := set_bit STATE_JOINABLE (th_state th'), th_retval := v\<rparr>) (th_set t th' y))\<lparr>sched := s\<rparr>"
  | (joined) j jth where "th_joined th = Some j" "threads (th_set t th' y) j = Some jth"
    "pthread_cleanup c ((th_set j (jth\<lparr>th_retval := v\<rparr>) (th_set t th' y))\<lparr>sched := sched_context_start j (sched y)\<rparr>) = Some y'"
  | (detached) "pthread_cleanup c (th_set t th' y) = Some y'"
proof (cases "bit (th_state th') STATE_DETACHED")
  case True
  then show thesis
    using e self th' detached by (simp add: pthread_exit_def Let_def)
next
  case False
  show thesis
  proof (cases "th_joined th")
    case None
    then show thesis
      using e self th' False stop by (auto simp: pthread_exit_def Let_def bind_eq_Some_conv)
  next
    case (Some j)
    then show thesis
      using e self th' False joined [of j] by (auto simp: pthread_exit_def Let_def bind_eq_Some_conv)
  qed
qed

lemma pt_exit_inv:
  assumes inv: "pt_inv y" and self: "pthread_self c y = Some (t, th)" and e: "pthread_exit c v y = Some y'"
  shows "pt_inv y'"
proof -
  define th1 where "th1 = th\<lparr>th_state := set_bit STATE_CANCELED (th_state th)\<rparr>"
  have t: "threads y t = Some th" "t \<in> set (contexts (sched y))"
    using self_current [OF self] current_in_contexts by blast+
  have inv1: "pt_inv (th_set t th1 y)"
    using pt_inv_th_set [OF inv t(1), of th1] by (simp add: th1_def)
  have self1: "pthread_self c (th_set t th1 y) = Some (t, th1)"
    by (rule self_th_set [OF self])
  from self e th1_def show ?thesis
  proof (cases rule: pthread_exit_cases)
    case stop
    then show ?thesis
      using pt_inv_stop [OF inv1 self1, of _ "th1\<lparr>th_state := set_bit STATE_JOINABLE (th_state th1), th_retval := v\<rparr>"]
      by (simp add: th1_def)
  next
    case (joined j jth)
    let ?y1 = "th_set j (jth\<lparr>th_retval := v\<rparr>) (th_set t th1 y)"
    have j: "j \<notin> set (contexts (sched y))" "j \<noteq> t"
      using pt_inv_onD(3) [OF inv UNIV_I t(1) joined(1)] t(2) by auto
    have inv2: "pt_inv_on (- {t}) ?y1"
      by (rule pt_inv_sub [OF pt_inv_th_set [OF inv1 joined(2)]]) (simp_all add: exiting_def)
    have "th_joined uh \<noteq> Some j" if "u \<in> - {t}" "threads ?y1 u = Some uh" for u uh
      using pt_inv_onD(5) [OF inv UNIV_I t(1) joined(1), of u] that joined(2) j(2) by (auto split: if_splits)
    then have "pt_inv_on (- {t}) (?y1\<lparr>sched := sched_context_start j (sched ?y1)\<rparr>)"
      using j(1) by (intro pt_inv_start [OF inv2]) auto
    moreover have "pthread_self c (?y1\<lparr>sched := sched_context_start j (sched ?y1)\<rparr>) = Some (t, th1)"
      using self_current [OF self1] j(2) by (simp add: pthread_self_def)
    ultimately show ?thesis
      using joined(3) by (intro pt_inv_cleanup) simp_all
  next
    case detached
    then show ?thesis
      by (rule pt_inv_cleanup [OF pt_inv_sub [OF inv1] self1])
  qed
qed

text \<open>A thread that starts to wait for another one becomes its joiner, and leaves its processor.\<close>

lemma pt_inv_wait:
  assumes inv: "pt_inv y" and self: "pthread_self c y = Some (t, self)" "\<not> exiting self"
    and th: "threads y thread = Some th" "thread \<noteq> t" "\<not> exiting th" "th_joined th = None"
    and s: "sched_context_stop_unlock id c (sched y) = Some s"
  shows "pt_inv ((th_set thread (th\<lparr>th_joined := Some t\<rparr>) y)\<lparr>sched := s\<rparr>)"
proof (rule pt_inv_onI)
  let ?y = "(th_set thread (th\<lparr>th_joined := Some t\<rparr>) y)\<lparr>sched := s\<rparr>"
  have r: "sched_reach s" "set (contexts s) = set (contexts (sched y)) - {t}"
    using stop_step [OF pt_inv_onD(1) [OF inv] s] self_current [OF self(1)] by (metis option.inject)+
  have t: "t \<in> set (contexts (sched y))" "threads y t = Some self"
    using self_current [OF self(1)] current_in_contexts by blast+
  have prev: "u = thread \<and> j = t \<or> u \<noteq> thread \<and> threads y u = Some uh \<and> j \<noteq> t \<and> j \<notin> set (contexts (sched y))"
    if "threads ?y u = Some uh" "th_joined uh = Some j" for u uh j
    using that t(1) pt_inv_onD(3) [OF inv UNIV_I, of u uh j] by (auto split: if_splits)
  show "sched_reach (sched ?y)"
    using r by simp
  show "\<not> exiting uh \<and> j \<notin> set (contexts (sched ?y)) \<and> (\<exists>jth. threads ?y j = Some jth \<and> \<not> exiting jth)"
    if u: "threads ?y u = Some uh" "th_joined uh = Some j" for u uh j
    using prev [OF u]
  proof
    assume e: "u = thread \<and> j = t"
    then have "uh = th\<lparr>th_joined := Some t\<rparr>"
      using u(1) by simp
    then have "\<not> exiting uh"
      using th(3) by simp
    moreover have "threads ?y j = Some self"
      using e t(2) th(2) by simp
    moreover have "j \<notin> set (contexts (sched ?y))"
      using e r(2) by simp
    ultimately show ?thesis
      using self(2) by blast
  next
    assume u0: "u \<noteq> thread \<and> threads y u = Some uh \<and> j \<noteq> t \<and> j \<notin> set (contexts (sched y))"
    then obtain jth where "\<not> exiting uh" "threads y j = Some jth" "\<not> exiting jth"
      using pt_inv_onD(2,4) [OF inv UNIV_I _ u(2), of u] by blast
    moreover from this have "\<exists>jth. threads ?y j = Some jth \<and> \<not> exiting jth"
      using th(1) by (cases "j = thread") auto
    ultimately show ?thesis
      using u0 r(2) by simp
  qed
  show "u' = u" if "threads ?y u = Some uh" "th_joined uh = Some j" "threads ?y u' = Some uh'" "th_joined uh' = Some j" for u uh u' uh' j
    using prev [OF that(1,2)] prev [OF that(3,4)] that(2,4) pt_inv_onD(5) [OF inv UNIV_I _ _ UNIV_I, of u uh j u' uh'] by auto
qed

lemma no_joiner:
  assumes "pt_inv y" "threads y j = Some jth" "exiting jth" "threads y t = Some th"
  shows "th_joined th \<noteq> Some j"
proof
  assume "th_joined th = Some j"
  then obtain jth' where "threads y j = Some jth'" "\<not> exiting jth'"
    using pt_inv_onD(4) [OF assms(1) UNIV_I assms(4)] by blast
  then show False
    using assms(2,3) by simp
qed

lemma pthread_join_cases:
  assumes self: "pthread_self c y = Some (t, self)" and th: "threads y thread = Some th"
    and j: "pthread_join check c thread y = Some (e, v, y')"
  obtains (refuse) "e = EINVAL" "y' = y"
  | (start) "exiting th" "e = 0" "v = Some (th_retval th)" "y' = y\<lparr>sched := sched_context_start thread (sched y)\<rparr>"
  | (wait) s where "\<not> exiting th" "th_joined th = None" "e = 0" "v = None"
    "sched_context_stop_unlock id c (sched y) = Some s" "y' = (th_set thread (th\<lparr>th_joined := Some t\<rparr>) y)\<lparr>sched := s\<rparr>"
proof (cases "check \<and> bit (th_state th) STATE_DETACHED")
  case True
  then show thesis
    using j th refuse by (simp add: pthread_join_def)
next
  case False
  consider "exiting th" | "\<not> exiting th" "th_joined th \<noteq> None" | "\<not> exiting th" "th_joined th = None"
    by blast
  then show thesis
  proof cases
    case 1
    then show thesis
      using j th False start by (simp add: pthread_join_def exiting_def)
  next
    case 2
    then show thesis
      using j th False refuse by (simp add: pthread_join_def exiting_def)
  next
    case 3
    then have "do { s \<leftarrow> sched_context_stop_unlock id c (sched y);
        Some (0, None, (th_set thread (th\<lparr>th_joined := Some t\<rparr>) y)\<lparr>sched := s\<rparr>) } = Some (e, v, y')"
      using j th False self by (simp add: pthread_join_def exiting_def)
    then show thesis
      using 3 wait by (auto simp: bind_eq_Some_conv)
  qed
qed

lemma pt_join_inv:
  assumes inv: "pt_inv y" and self: "pthread_self c y = Some (t, self)" "\<not> exiting self"
    and th: "threads y thread = Some th" "thread \<noteq> t" "unclaimed thread th y"
    and j: "pthread_join check c thread y = Some (e, v, y')"
  shows "pt_inv y'"
  using self(1) th(1) j
proof (cases rule: pthread_join_cases)
  case start
  then show ?thesis
    using pt_inv_start [OF inv, of thread] th no_joiner [OF inv th(1) start(1)] by (simp add: unclaimed_def)
next
  case wait
  then show ?thesis
    using pt_inv_wait [OF inv self th(1,2)] by blast
qed (use inv in simp)

lemma pt_detach_inv:
  assumes inv: "pt_inv y" and th: "threads y thread = Some th" "unclaimed thread th y"
    and d: "pthread_detach thread y = Some (e, y')"
  shows "pt_inv y'"
proof -
  let ?y = "th_set thread (th\<lparr>th_state := set_bit STATE_DETACHED (th_state th)\<rparr>) y"
  have inv1: "pt_inv ?y"
    by (rule pt_inv_th_set [OF inv th(1)]) simp_all
  consider "y' = ?y" | (start) "exiting th" "y' = ?y\<lparr>sched := sched_context_start thread (sched ?y)\<rparr>"
    using d th(1) by (auto simp: pthread_detach_def exiting_def Let_def split: if_splits)
  then show ?thesis
  proof cases
    case start
    have "threads ?y thread = Some (th\<lparr>th_state := set_bit STATE_DETACHED (th_state th)\<rparr>)"
      by simp
    from no_joiner [OF inv1 this] start show ?thesis
      using pt_inv_start [OF inv1, of thread] th(2) by (simp add: unclaimed_def)
  qed (use inv1 in simp)
qed

lemma pt_inv_cong:
  assumes "sched y' = sched y" "threads y' = threads y"
  shows "pt_inv_on U y' = pt_inv_on U y"
  using assms unfolding pt_inv_on_def by simp

lemma create_stack_frame:
  "create_stack n attr env y = Some (stack, sz, y') \<Longrightarrow> sched y' = sched y \<and> threads y' = threads y"
  by (auto simp: create_stack_def Let_def bind_eq_Some_conv split: option.splits if_splits list.splits)

lemma pthread_create_cases:
  assumes "pthread_create n attr f arg env y = Some (e, r, y')"
  obtains (fail) "sched y' = sched y" "threads y' = threads y" "e \<noteq> 0" "r = None"
  | (ok) t th where "ev_thread env = Some t" "th_joined th = None" "\<not> exiting th" "e = 0" "r = Some t"
    "sched y' = sched_context_start t (sched y)" "threads y' = (threads y)(t \<mapsto> th)"
proof (cases "ev_thread env")
  case None
  then show thesis
    using assms fail by (simp add: pthread_create_def errno_defs)
next
  case (Some t)
  show thesis
  proof (cases "ev_lock_init env = 0")
    case False
    then show thesis
      using assms Some fail by (simp add: pthread_create_def errno_defs)
  next
    case True
    then obtain stack sz y1 where y1: "create_stack n attr env y = Some (stack, sz, y1)"
      using assms Some by (auto simp: pthread_create_def bind_eq_Some_conv)
    note frame = create_stack_frame [OF y1]
    consider (nomem) "stack = None" | (ctx) k where "stack = Some k" "ev_context_init env \<noteq> 0"
      | (good) k where "stack = Some k" "ev_context_init env = 0"
      by (cases stack) auto
    then show thesis
    proof cases
      case nomem
      then show thesis
        using assms Some True y1 frame fail by (simp add: pthread_create_def errno_defs)
    next
      case ctx
      then show thesis
        using assms Some True y1 frame fail by (auto simp: pthread_create_def split: if_splits)
    next
      case (good k)
      let ?th = "(ev_mem env)\<lparr>th_start_routine := f, th_arg := arg, th_joined := None,
        th_state := (if at_flag attr ATTRFLAG_DETACHED then set_bit STATE_DETACHED 0 else 0), th_stack := k\<rparr>"
      have "e = 0 \<and> r = Some t \<and> y' = (th_set t ?th y1)\<lparr>sched := sched_context_start t (sched y1)\<rparr>"
        using assms Some True y1 good by (simp add: pthread_create_def Let_def split: if_splits)
      moreover have "\<not> exiting ?th"
        by (simp add: exiting_def state_bits bit_set_bit_iff)
      ultimately show thesis
        using Some frame by (intro ok [of t ?th]) simp_all
    qed
  qed
qed

lemma pt_create_inv:
  assumes inv: "pt_inv y" and fresh: "\<And>t. ev_thread env = Some t \<Longrightarrow> threads y t = None \<and> t \<notin> set (contexts (sched y))"
    and c: "pthread_create n attr f arg env y = Some (e, r, y')"
  shows "pt_inv y'"
  using c
proof (cases rule: pthread_create_cases)
  case fail
  then show ?thesis
    using pt_inv_cong [of y' y UNIV] inv by simp
next
  case (ok t th)
  have f: "threads y t = None" "t \<notin> set (contexts (sched y))"
    using fresh [OF ok(1)] by auto
  have "th_joined uh \<noteq> Some t" if "threads y u = Some uh" for u uh
    using pt_inv_onD(4) [OF inv UNIV_I that, of t] f(1) by auto
  then have inv1: "pt_inv (y\<lparr>sched := sched_context_start t (sched y)\<rparr>)" (is "pt_inv ?y")
    using f(2) by (intro pt_inv_start [OF inv]) auto
  have prev: "threads ?y u = Some uh" if "threads y' u = Some uh" "th_joined uh = Some j" for u uh j
    using that ok(2,7) by (auto split: if_splits)
  show ?thesis
  proof (rule pt_inv_onI)
    show "\<not> exiting uh \<and> j \<notin> set (contexts (sched y')) \<and> (\<exists>jth. threads y' j = Some jth \<and> \<not> exiting jth)"
      if u: "threads y' u = Some uh" "th_joined uh = Some j" for u uh j
      using pt_inv_onD(2-4) [OF inv1 UNIV_I prev [OF u] u(2)] ok(3,6,7) by simp
    show "u' = u" if "threads y' u = Some uh" "th_joined uh = Some j" "threads y' u' = Some uh'" "th_joined uh' = Some j" for u uh u' uh' j
      using pt_inv_onD(5) [OF inv1 UNIV_I prev [OF that(1,2)] that(2) UNIV_I prev [OF that(3,4)] that(4)] .
  qed (use pt_inv_onD(1) [OF inv1] ok(6) in simp)
qed

lemma pt_step_inv: "pt_step y y' \<Longrightarrow> pt_inv y \<Longrightarrow> pt_inv y'"
proof (induction rule: pt_step.induct)
  case (create env y n attr f arg e r y')
  then show ?case by (blast intro: pt_create_inv)
next
  case (exit c y t th v y')
  then show ?case by (blast intro: pt_exit_inv)
next
  case (cleanup c y t th y')
  then show ?case
    unfolding pthread_exit_cleanup_def by (blast intro: pt_inv_cleanup pt_inv_sub)
next
  case (join c y t self thread th check e v y')
  then show ?case by (blast intro: pt_join_inv)
next
  case (detach y thread th e y')
  then show ?case by (blast intro: pt_detach_inv)
next
  case (other y s)
  have "sched_reach s"
    using quiet_step_sched [OF other(1)] pt_inv_onD(1) [OF other(2)] by (blast intro: sched_reach.step)
  then show ?case
    using pt_inv_onD(3) [OF other(2)] quiet_step_contexts [OF other(1)] by (intro pt_inv_sched [OF other(2)]) auto
qed

lemma pt_reach_inv: "pt_reach y \<Longrightarrow> pt_inv y"
proof (induction rule: pt_reach.induct)
  case (init s)
  then show ?case
    by (intro pt_inv_onI) simp_all
qed (rule pt_step_inv)

lemma current_candidate_switch: "d \<noteq> c \<Longrightarrow> sched_get_current d (sched_candidate_switch c s) = sched_get_current d s"
  by (auto simp: sched_get_current_def sched_defs split: list.splits)

lemma cleanup_frees:
  assumes "pthread_self c y = Some (t, th)"
  shows "\<exists>y'. pthread_cleanup c y = Some y' \<and> threads y' = (threads y)(t := None)
    \<and> sched y' = sched_candidate_switch c (sched y)"
  using assms self_current [OF assms] by (simp add: pthread_cleanup_def sched_context_exit_def)

lemma running_distinct:
  assumes "pthread_self c y = Some (t, th)" "pthread_self d y = Some (j, jth)" "t \<noteq> j"
  shows "c \<noteq> d"
  using assms by auto

text \<open>The two orders of a join and an exit.\<close>

lemma join_before_exit:
  assumes "pthread_self c y = Some (t, th)" "pthread_self d y = Some (j, jth)" "t \<noteq> j"
    and th: "\<not> exiting th" "\<not> bit (th_state th) STATE_DETACHED" "th_joined th = None"
  shows "\<exists>y1 y2. pthread_join check d t y = Some (0, None, y1) \<and> pthread_exit c v y1 = Some y2
    \<and> threads y2 = (threads y)(j \<mapsto> jth\<lparr>th_retval := v\<rparr>, t := None) \<and> j \<in> set (contexts (sched y2))"
proof -
  note cur = self_current [OF assms(1)] self_current [OF assms(2)]
  have cd: "c \<noteq> d"
    by (rule running_distinct [OF assms(1-3)])
  let ?y1 = "(th_set t (th\<lparr>th_joined := Some j\<rparr>) y)\<lparr>sched := sched_candidate_switch d (sched y)\<rparr>"
  have j: "pthread_join check d t y = Some (0, None, ?y1)"
    using cur th assms(2) by (simp add: pthread_join_def exiting_def sched_context_stop_unlock_def)
  let ?th = "th\<lparr>th_joined := Some j, th_state := set_bit STATE_CANCELED (th_state th)\<rparr>"
  let ?y2 = "(th_set j (jth\<lparr>th_retval := v\<rparr>) (th_set t ?th ?y1))\<lparr>sched := sched_context_start j (sched ?y1)\<rparr>"
  have self1: "pthread_self c ?y1 = Some (t, th\<lparr>th_joined := Some j\<rparr>)"
    using cur cd by (simp add: pthread_self_def current_candidate_switch)
  have "pthread_self c ?y2 = Some (t, ?th)"
    using cur cd assms(3) by (simp add: pthread_self_def current_candidate_switch)
  from cleanup_frees [OF this] obtain y2 where y2: "pthread_cleanup c ?y2 = Some y2" "threads y2 = (threads ?y2)(t := None)"
    "sched y2 = sched_candidate_switch c (sched ?y2)"
    by blast
  have "\<not> bit (set_bit STATE_CANCELED (th_state th)) STATE_DETACHED"
    using th(2) by (simp add: bit_set_bit_iff state_bits)
  then have e: "pthread_exit c v ?y1 = Some y2"
    using self1 y2(1) assms(3) cur by (simp add: pthread_exit_def Let_def)
  have "j \<in># mset (contexts (sched ?y2))"
    by (simp add: contexts_start)
  moreover have "sched_get_current c (sched ?y2) = Some t"
    using cur cd by (simp add: current_candidate_switch)
  then have "mset (contexts (sched ?y2)) = add_mset t (mset (contexts (sched y2)))"
    using contexts_leave y2(3) by simp
  ultimately have "j \<in># add_mset t (mset (contexts (sched y2)))"
    by (simp only:)
  then have "j \<in> set (contexts (sched y2))"
    using assms(3) by auto
  then show ?thesis
    using j e y2(2) by (intro exI [of _ ?y1] exI [of _ y2]) (simp add: fun_upd_twist [OF assms(3)])
qed

lemma exit_before_join:
  assumes r: "sched_reach (sched y)" and "pthread_self c y = Some (t, th)" "pthread_self d y = Some (j, jth)" "t \<noteq> j"
    and th: "\<not> bit (th_state th) STATE_DETACHED" "th_joined th = None"
  shows "\<exists>y1 y2 th'. pthread_exit c v y = Some y1 \<and> t \<notin> set (contexts (sched y1))
    \<and> pthread_join check d t y1 = Some (0, Some v, y2) \<and> t \<in> set (contexts (sched y2))
    \<and> threads y2 t = Some th' \<and> exiting th'"
proof -
  note cur = self_current [OF assms(2)] self_current [OF assms(3)]
  let ?st = "set_bit STATE_JOINABLE (set_bit STATE_CANCELED (th_state th))"
  let ?th = "th\<lparr>th_state := ?st, th_retval := v\<rparr>"
  have st: "\<not> bit (set_bit STATE_CANCELED (th_state th)) STATE_DETACHED" "\<not> bit ?st STATE_DETACHED" "bit ?st STATE_JOINABLE"
    using th(1) by (simp_all add: bit_set_bit_iff state_bits possible_bit_word)
  let ?y1 = "(th_set t ?th y)\<lparr>sched := sched_candidate_switch c (sched y)\<rparr>"
  have e: "pthread_exit c v y = Some ?y1"
    using assms(2) th st(1) cur by (simp add: pthread_exit_def Let_def sched_context_stop_unlock_def th_set_def)
  have "t \<notin> set (contexts (sched ?y1))"
    using leave_contexts [OF r] cur by simp
  moreover have "pthread_join check d t ?y1 = Some (0, Some v, ?y1\<lparr>sched := sched_context_start t (sched ?y1)\<rparr>)"
    using st(2,3) by (simp add: pthread_join_def)
  moreover have "t \<in> set (contexts (sched_context_start t (sched ?y1)))"
    by (simp add: contexts_start)
  ultimately show ?thesis
    using e st(3) by (intro exI [of _ ?y1] exI [of _ "?y1\<lparr>sched := sched_context_start t (sched ?y1)\<rparr>"] exI [of _ ?th])
      (simp add: exiting_def)
qed

section \<open>Properties\<close>

text \<open>
  C6: However threads are created, exit, join, detach and are scheduled, the scheduler stays in a reachable state
  (no context is ever put in a queue twice), and a thread that another one is joining is alive and has
  not exited, its joiner is a live thread that is stopped at no place of the scheduler, is not exiting, and
  joins no other thread.
\<close>

theorem pthread_join_invariant:
  assumes "pt_reach y"
  shows "sched_reach (sched y)
    \<and> (\<forall>t th j. threads y t = Some th \<and> th_joined th = Some j \<longrightarrow>
         \<not> bit (th_state th) STATE_JOINABLE \<and> j \<notin> set (contexts (sched y))
         \<and> (\<exists>jth. threads y j = Some jth \<and> \<not> bit (th_state jth) STATE_JOINABLE)
         \<and> (\<forall>t' th'. threads y t' = Some th' \<and> th_joined th' = Some j \<longrightarrow> t' = t))"
  using pt_reach_inv [OF assms] unfolding pt_inv_on_def exiting_def by (simp, blast)

text \<open>
  C7: A thread \<open>t\<close> that is not detached and a thread \<open>j\<close> that joins it meet whichever comes first.  When \<open>j\<close> calls
  \<^verbatim>\<open>pthread_join\<close> first, the exit of \<open>t\<close> stores the result for \<open>j\<close>, frees \<open>t\<close> and makes \<open>j\<close> runnable, and \<open>j\<close> gets
  that result when it runs.  When \<open>t\<close> exits first, it stops, the join returns the result at once and
  makes \<open>t\<close> runnable, and \<open>t\<close> is freed when it runs.
\<close>

theorem pthread_join_rendezvous:
  assumes "pt_reach y" "pthread_self c y = Some (t, th)" "pthread_self d y = Some (j, jth)" "t \<noteq> j"
    and "\<not> bit (th_state th) STATE_JOINABLE" "\<not> bit (th_state th) STATE_DETACHED" "th_joined th = None"
  shows "(\<exists>y1 y2. pthread_join check d t y = Some (0, None, y1) \<and> pthread_exit c v y1 = Some y2
      \<and> threads y2 t = None \<and> j \<in> set (contexts (sched y2))
      \<and> (\<forall>e y3. threads y3 j = threads y2 j \<and> sched_get_current e (sched y3) = Some j
           \<longrightarrow> pthread_join_resume e y3 = Some (0, v)))
    \<and> (\<exists>y1 y2. pthread_exit c v y = Some y1 \<and> t \<notin> set (contexts (sched y1))
      \<and> pthread_join check d t y1 = Some (0, Some v, y2) \<and> t \<in> set (contexts (sched y2))
      \<and> (\<forall>e y3. threads y3 t = threads y2 t \<and> sched_get_current e (sched y3) = Some t
           \<longrightarrow> (\<exists>y4. pthread_exit_cleanup e y3 = Some y4 \<and> threads y4 t = None)))"
    (is "?first \<and> ?second")
proof
  obtain y1 y2 where y: "pthread_join check d t y = Some (0, None, y1)" "pthread_exit c v y1 = Some y2"
    "threads y2 = (threads y)(j \<mapsto> jth\<lparr>th_retval := v\<rparr>, t := None)" "j \<in> set (contexts (sched y2))"
    using join_before_exit [OF assms(2-4) _ assms(6,7)] assms(5) unfolding exiting_def by blast
  moreover have "pthread_join_resume e y3 = Some (0, v)"
    if "threads y3 j = threads y2 j" "sched_get_current e (sched y3) = Some j" for e y3
    using that y(3) assms(4) by (simp add: pthread_join_resume_def pthread_self_def)
  ultimately show ?first
    by (intro exI [of _ y1] exI [of _ y2]) simp
next
  have "sched_reach (sched y)"
    using pt_inv_onD(1) [OF pt_reach_inv [OF assms(1)]] .
  then obtain y1 y2 th' where y: "pthread_exit c v y = Some y1" "t \<notin> set (contexts (sched y1))"
    "pthread_join check d t y1 = Some (0, Some v, y2)" "t \<in> set (contexts (sched y2))" "threads y2 t = Some th'"
    using exit_before_join [OF _ assms(2-4,6,7)] by blast
  moreover have "\<exists>y4. pthread_exit_cleanup e y3 = Some y4 \<and> threads y4 t = None"
    if "threads y3 t = threads y2 t" "sched_get_current e (sched y3) = Some t" for e y3
    using cleanup_frees [of e y3 t th'] that y(5) by (auto simp: pthread_exit_cleanup_def pthread_self_def)
  ultimately show ?second
    by (intro exI [of _ y1] exI [of _ y2]) simp
qed

text \<open>
  \<^verbatim>\<open>pthread_setcancelstate\<close> gives the old state back the wrong way round: a thread that disables cancellation
  and then sets the state it got as the old one ends with cancellation enabled if it was disabled before,
  and disabled if it was enabled, whereas \<^verbatim>\<open>pthread_setcanceltype\<close> with the old type restores it.
\<close>

theorem pthread_setcancelstate_inverts:
  assumes "pthread_self c y = Some (t, self)"
  shows "(\<exists>old y1 old' y2 self'. pthread_setcancelstate c PTHREAD_CANCEL_DISABLE y = Some (0, old, y1)
      \<and> pthread_setcancelstate c old y1 = Some (0, old', y2) \<and> threads y2 t = Some self'
      \<and> bit (th_state self') STATE_NOCANCEL = (\<not> bit (th_state self) STATE_NOCANCEL))
    \<and> (\<exists>old y1 old' y2 self'. pthread_setcanceltype c type y = Some (0, old, y1)
      \<and> pthread_setcanceltype c old y1 = Some (0, old', y2) \<and> threads y2 t = Some self'
      \<and> bit (th_state self') STATE_CANCELASYNC = bit (th_state self) STATE_CANCELASYNC)"
  using assms self_th_set [OF assms]
  by (simp add: pthread_setcancelstate_def pthread_setcanceltype_def PTHREAD_CANCEL_DISABLE_def PTHREAD_CANCEL_ENABLE_def
      PTHREAD_CANCEL_DEFERRED_def bit_set_bit_iff bit_unset_bit_iff possible_bit_word state_bits)

section \<open>Witnesses\<close>

definition example_thread :: "nat \<Rightarrow> pthread_s" where
  "example_thread k = \<lparr>th_state = 0, th_joined = None, th_retval = 0, th_arg = 7, th_start_routine = 9, th_stack = k\<rparr>"

definition example_env :: "nat \<Rightarrow> create_env" where
  "example_env t = \<lparr>ev_thread = Some t, ev_mem = example_thread t, ev_lock_init = 0, ev_stack = (\<lambda>_. Some t),
     ev_stack_cpu = (\<lambda>_ _. None), ev_context_init = 0\<rparr>"

text \<open>Two processors, on which the threads 2 and 3 run that their boot contexts created before they ended.\<close>

definition example_threads :: pthread_sys where
  "example_threads = \<lparr>sched = \<lparr>root = [0, 1], idle_cpu = [], cur = [Some 2, Some 3], wait = [], ipi = []\<rparr>,
     threads = (\<lambda>_. None)(2 := Some (example_thread 2), 3 := Some (example_thread 3)), stacks = {2, 3}\<rparr>"

lemma example_threads_reach: "pt_reach example_threads"
proof -
  let ?s = "\<lambda>r c. \<lparr>root = r, idle_cpu = [], cur = c, wait = [], ipi = []\<rparr>"
  let ?T = "(\<lambda>_. None)(2 := Some (example_thread 2), 3 := Some (example_thread 3))"
  let ?y0 = "\<lparr>sched = ?s [] [Some 0, Some 1], threads = Map.empty, stacks = {}\<rparr>"
  let ?y1 = "\<lparr>sched = ?s [2] [Some 0, Some 1], threads = (\<lambda>_. None)(2 := Some (example_thread 2)), stacks = {2}\<rparr>"
  let ?y2 = "\<lparr>sched = ?s [2, 3] [Some 0, Some 1], threads = ?T, stacks = {2, 3}\<rparr>"
  let ?y3 = "\<lparr>sched = ?s [3, 0] [Some 2, Some 1], threads = ?T, stacks = {2, 3}\<rparr>"
  have "sched_global_init 2 0 = ?s [] [Some 0, Some 1]"
    by (simp add: sched_global_init_def numeral_2_eq_2)
  then have "pt_reach ?y0"
    using pt_reach.init [OF sched_reach.init [of 2 0]] by simp
  moreover have "pt_step ?y0 ?y1"
    by (rule pt_step.create [of "example_env 2" _ 4096 None 9 7 0 "Some 2"])
      (auto simp: pthread_create_def create_stack_def example_env_def example_thread_def at_flag_def th_set_def
        sched_context_start_def sched_context_push_def contexts_def)
  moreover have "pt_step ?y1 ?y2"
    by (rule pt_step.create [of "example_env 3" _ 4096 None 9 7 0 "Some 3"])
      (auto simp: pthread_create_def create_stack_def example_env_def example_thread_def at_flag_def th_set_def
        sched_context_start_def sched_context_push_def contexts_def)
  moreover have "pt_step ?y2 ?y3"
    using pt_step.other [OF quiet_step.switch, of 0 ?y2 "?s [3, 0] [Some 2, Some 1]"]
    by (simp add: sched_context_switch_def sched_defs)
  moreover have "pt_step ?y3 example_threads"
    using pt_step.other [OF quiet_step.switch, of 1 ?y3 "sched example_threads"]
    by (simp add: sched_context_switch_def sched_defs example_threads_def)
  ultimately show ?thesis
    by (meson pt_reach.step)
qed

lemma example_threads_self:
  "pthread_self 0 example_threads = Some (2, example_thread 2)" "pthread_self 1 example_threads = Some (3, example_thread 3)"
  by (simp_all add: pthread_self_def sched_get_current_def example_threads_def)

text \<open>The thread 3 joins the thread 2.\<close>

theorem pthread_join_invariant_witness:
  "\<exists>y. pthread_join True 1 2 example_threads = Some (0, None, y) \<and> pt_reach y
    \<and> threads y 2 = Some (example_thread 2\<lparr>th_joined := Some 3\<rparr>) \<and> sched_reach (sched y) \<and> 3 \<notin> set (contexts (sched y))"
proof -
  obtain y where j: "pthread_join True 1 2 example_threads = Some (0, None, y)"
    and t: "threads y 2 = Some (example_thread 2\<lparr>th_joined := Some 3\<rparr>)"
    by (simp add: pthread_join_def pthread_self_def sched_get_current_def example_threads_def example_thread_def th_set_def
        sched_context_stop_unlock_def sched_defs)
  have "pt_step example_threads y"
    using example_threads_self(2) j
    by (intro pt_step.join [of 1 example_threads 3 "example_thread 3" 2 "example_thread 2" True 0 None])
      (auto simp: exiting_def unclaimed_def example_thread_def example_threads_def)
  then have y: "pt_reach y"
    by (rule pt_reach.step [OF example_threads_reach])
  have "3 \<notin> set (contexts (sched y))" "sched_reach (sched y)"
    using pthread_join_invariant [OF y] t by fastforce+
  then show ?thesis
    using y j t by blast
qed

theorem pthread_join_rendezvous_witness:
  "\<exists>y1 y2. pthread_join True 1 2 example_threads = Some (0, None, y1) \<and> pthread_exit 0 42 y1 = Some y2 \<and> threads y2 2 = None"
  using pthread_join_rendezvous [OF example_threads_reach example_threads_self, of True 42]
  by (auto simp: example_thread_def)

theorem pthread_setcancelstate_inverts_witness:
  "\<exists>old y1 old' y2 self'. pthread_setcancelstate 0 PTHREAD_CANCEL_DISABLE example_threads = Some (0, old, y1)
    \<and> pthread_setcancelstate 0 old y1 = Some (0, old', y2) \<and> threads y2 2 = Some self' \<and> bit (th_state self') STATE_NOCANCEL"
  using pthread_setcancelstate_inverts [OF example_threads_self(1)] by (auto simp: example_thread_def)

end
