(* ===== verification/Pthread_Keys.thy ===== *)
theory Pthread_Keys
  imports Mutek_Prelude "HOL-Library.Monad_Syntax"
begin

text \<open>
  \<^verbatim>\<open>libpthread/keys.c\<close> and the inline functions of \<^verbatim>\<open>pthread.h\<close> on thread specific data.  The table of keys has
  \<^verbatim>\<open>CONFIG_PTHREAD_KEYS_MAX\<close> entries; every context has its own values for them.  The functions hold the mutex of
  the table all the time, so that each is one step.  A destructor is a function on the values of the
  thread that exits, which it may set again; it does not create or delete keys, since the mutex of the table is held.  The lemmas show which destructors the exit of a
  thread calls, and what the result of \<^verbatim>\<open>pthread_key_create\<close> is.
\<close>

section \<open>Operations\<close>

type_synonym key_values = "u32 list"
type_synonym destructor = "u32 \<Rightarrow> key_values \<Rightarrow> key_values"

record pthread_key_s =
  ky_allocated :: bool
  ky_destructor :: "destructor option"

fun key_create_loop :: "nat \<Rightarrow> destructor option \<Rightarrow> pthread_key_s list \<Rightarrow> (nat \<times> pthread_key_s list) option" where
  "key_create_loop i d [] = None"
| "key_create_loop i d (k # ks) =
     (if ky_allocated k then map_option (\<lambda>(j, ks). (j, k # ks)) (key_create_loop (Suc i) d ks)
      else Some (i, k\<lparr>ky_allocated := True, ky_destructor := d\<rparr> # ks))"

text \<open>The loop variable is the result of the function as well.\<close>

definition pthread_key_create ::
    "destructor option \<Rightarrow> pthread_key_s list \<Rightarrow> error_t \<times> nat option \<times> pthread_key_s list" where
  "pthread_key_create d keys =
     (case key_create_loop 0 d keys of
        Some (i, keys) \<Rightarrow> (int i, Some i, keys)
      | None \<Rightarrow> (- EAGAIN, None, keys))"

text \<open>There is no check of the index.\<close>

definition pthread_key_delete :: "nat \<Rightarrow> pthread_key_s list \<Rightarrow> (error_t \<times> pthread_key_s list) option" where
  "pthread_key_delete key keys =
     (if key < length keys then
        if ky_allocated (keys ! key)
        then Some (0, keys[key := (keys ! key)\<lparr>ky_allocated := False, ky_destructor := None\<rparr>])
        else Some (- EINVAL, keys)
      else None)"

definition pthread_getspecific :: "u32 \<Rightarrow> key_values \<Rightarrow> u32" where
  "pthread_getspecific key vals = (if unat key \<ge> length vals then 0 else vals ! unat key)"

definition pthread_setspecific :: "u32 \<Rightarrow> u32 \<Rightarrow> key_values \<Rightarrow> error_t \<times> key_values" where
  "pthread_setspecific key v vals =
     (if unat key \<ge> length vals then (- EINVAL, vals) else (0, vals[unat key := v]))"

text \<open>
  The values of all contexts; \<open>current\<close> is the one that runs.  The thread that is passed is the new one, but
  the values that are cleared are those of the caller.
\<close>

definition pthread_keys_init :: "nat \<Rightarrow> nat \<Rightarrow> nat \<Rightarrow> (nat \<Rightarrow> key_values) \<Rightarrow> nat \<Rightarrow> key_values" where
  "pthread_keys_init CONFIG_PTHREAD_KEYS_MAX current thread values =
     values(current := replicate CONFIG_PTHREAD_KEYS_MAX 0)"

text \<open>The destructor calls made so far, each with its key and data, and the flag \<^verbatim>\<open>done\<close> of one iteration.\<close>

type_synonym key_calls = "(nat \<times> u32) list"

definition keys_cleanup_step ::
    "pthread_key_s list \<Rightarrow> nat \<Rightarrow> key_values \<times> key_calls \<times> bool \<Rightarrow> key_values \<times> key_calls \<times> bool" where
  "keys_cleanup_step keys i = (\<lambda>(vals, calls, called).
     let data = vals ! i
     in if \<not> ky_allocated (keys ! i) \<or> ky_destructor (keys ! i) = None \<or> data = 0 then (vals, calls, called)
        else (the (ky_destructor (keys ! i)) data (vals[i := 0]), calls @ [(i, data)], True))"

primrec keys_cleanup_loop :: "nat \<Rightarrow> pthread_key_s list \<Rightarrow> key_values \<times> key_calls \<Rightarrow> key_values \<times> key_calls" where
  "keys_cleanup_loop 0 keys x = x"
| "keys_cleanup_loop (Suc n) keys x =
     (case x of (vals, calls) \<Rightarrow>
        case fold (keys_cleanup_step keys) [0..<length keys] (vals, calls, False) of
          (vals, calls, called) \<Rightarrow>
            if \<not> called then (vals, calls) else keys_cleanup_loop n keys (vals, calls))"

definition pthread_keys_cleanup ::
    "nat \<Rightarrow> pthread_key_s list \<Rightarrow> key_values \<Rightarrow> key_values \<times> key_calls" where
  "pthread_keys_cleanup CONFIG_PTHREAD_KEYS_DESTRUCTOR_ITERATIONS keys vals =
     keys_cleanup_loop CONFIG_PTHREAD_KEYS_DESTRUCTOR_ITERATIONS keys (vals, [])"

section \<open>Lemmas\<close>

text \<open>Destructors that do not set any value, and destructors that may set the value of their own key again: \<open>g i x\<close> is what the
  destructor of key \<open>i\<close> called with \<open>x\<close> sets.\<close>

definition inert_keys :: "pthread_key_s list \<Rightarrow> bool" where
  "inert_keys keys \<longleftrightarrow> (\<forall>k \<in> set keys. \<forall>d. ky_destructor k = Some d \<longrightarrow> d = (\<lambda>x v. v))"

definition own_keys :: "(nat \<Rightarrow> u32 \<Rightarrow> u32 option) \<Rightarrow> pthread_key_s list \<Rightarrow> bool" where
  "own_keys g keys \<longleftrightarrow> (\<forall>i < length keys. \<forall>d. ky_destructor (keys ! i) = Some d \<longrightarrow>
     d = (\<lambda>x v. case g i x of None \<Rightarrow> v | Some y \<Rightarrow> v[i := y]))"

lemma inert_own: "inert_keys keys \<Longrightarrow> own_keys (\<lambda>_ _. None) keys"
  by (auto simp: inert_keys_def own_keys_def)

definition key_live :: "pthread_key_s \<Rightarrow> bool" where
  "key_live k \<longleftrightarrow> ky_allocated k \<and> ky_destructor k \<noteq> None"

text \<open>The value that a call with \<open>x\<close> leaves, and the values and the calls of one iteration up to key \<open>n\<close>.\<close>

definition set_again :: "(u32 \<Rightarrow> u32 option) \<Rightarrow> u32 \<Rightarrow> u32" where
  "set_again g x = (case g x of None \<Rightarrow> 0 | Some y \<Rightarrow> y)"

definition due :: "pthread_key_s list \<Rightarrow> key_values \<Rightarrow> nat \<Rightarrow> bool" where
  "due keys vals i \<longleftrightarrow> key_live (keys ! i) \<and> vals ! i \<noteq> 0"

definition due_calls :: "pthread_key_s list \<Rightarrow> key_values \<Rightarrow> nat \<Rightarrow> key_calls" where
  "due_calls keys vals n = map (\<lambda>i. (i, vals ! i)) (filter (due keys vals) [0..<n])"

definition pass_values :: "(nat \<Rightarrow> u32 \<Rightarrow> u32 option) \<Rightarrow> pthread_key_s list \<Rightarrow> key_values \<Rightarrow> nat \<Rightarrow> key_values" where
  "pass_values g keys vals n = map (\<lambda>i. if i < n \<and> due keys vals i then set_again (g i) (vals ! i) else vals ! i) [0..<length vals]"

lemma pass_values_0 [simp]: "pass_values g keys vals 0 = vals"
  by (simp add: pass_values_def map_nth)

lemma pass_values_nth:
  "i < length vals \<Longrightarrow> pass_values g keys vals n ! i = (if i < n \<and> due keys vals i then set_again (g i) (vals ! i) else vals ! i)"
  by (simp add: pass_values_def)

lemma pass_values_Suc:
  "n < length vals \<Longrightarrow> pass_values g keys vals (Suc n)
    = (if due keys vals n then (pass_values g keys vals n)[n := set_again (g n) (vals ! n)] else pass_values g keys vals n)"
  by (rule nth_equalityI) (auto simp: pass_values_def nth_list_update less_Suc_eq)

lemma cleanup_pass:
  assumes own: "own_keys g keys" and "n \<le> length keys" "length vals = length keys"
  shows "fold (keys_cleanup_step keys) [0..<n] (vals, calls, called)
    = (pass_values g keys vals n, calls @ due_calls keys vals n, called \<or> due_calls keys vals n \<noteq> [])"
  using assms(2)
proof (induction n)
  case 0
  then show ?case by (simp add: due_calls_def)
next
  case (Suc n)
  have v: "pass_values g keys vals n ! n = vals ! n"
    using Suc(2) assms(3) by (simp add: pass_values_nth)
  show ?case
  proof (cases "due keys vals n")
    case True
    then obtain d where d: "ky_destructor (keys ! n) = Some d"
      by (auto simp: due_def key_live_def)
    then have "d = (\<lambda>x v. case g n x of None \<Rightarrow> v | Some y \<Rightarrow> v[n := y])"
      using own Suc(2) unfolding own_keys_def by (meson Suc_le_lessD)
    then show ?thesis
      using Suc True v d assms(3)
      by (simp add: keys_cleanup_step_def due_def key_live_def pass_values_Suc due_calls_def set_again_def Let_def split: option.split)
  next
    case False
    then show ?thesis
      using Suc v assms(3) by (auto simp: keys_cleanup_step_def due_def key_live_def pass_values_Suc due_calls_def Let_def)
  qed
qed

lemma due_calls_Nil: "due_calls keys vals n = [] \<longleftrightarrow> (\<forall>i < n. \<not> due keys vals i)"
  by (auto simp: due_calls_def filter_empty_conv)

text \<open>One turn of the loop.\<close>

lemma cleanup_loop_Suc:
  assumes "own_keys g keys" "length vals = length keys"
  shows "keys_cleanup_loop (Suc n) keys (vals, calls)
    = (if \<forall>i < length keys. \<not> due keys vals i then (vals, calls)
       else keys_cleanup_loop n keys (pass_values g keys vals (length keys), calls @ due_calls keys vals (length keys)))"
proof -
  have "pass_values g keys vals (length keys) = vals" if "\<forall>i < length keys. \<not> due keys vals i"
    using that assms(2) by (intro nth_equalityI) (auto simp: pass_values_def)
  then show ?thesis
    using cleanup_pass [OF assms(1) order_refl assms(2), of calls False] by (auto simp: due_calls_Nil)
qed

text \<open>The data of the calls for one key, and the value in the end: \<open>x\<close>, what the call with \<open>x\<close> sets, and so on, for at most \<open>n\<close> calls.\<close>

fun call_chain :: "(u32 \<Rightarrow> u32 option) \<Rightarrow> nat \<Rightarrow> u32 \<Rightarrow> u32 list" where
  "call_chain g 0 x = []"
| "call_chain g (Suc n) x = (if x = 0 then [] else x # call_chain g n (set_again g x))"

fun chain_rest :: "(u32 \<Rightarrow> u32 option) \<Rightarrow> nat \<Rightarrow> u32 \<Rightarrow> u32" where
  "chain_rest g 0 x = x"
| "chain_rest g (Suc n) x = (if x = 0 then 0 else chain_rest g n (set_again g x))"

lemma call_chain_0 [simp]: "call_chain g n 0 = []" "chain_rest g n 0 = 0"
  by (cases n; simp)+

lemma length_call_chain: "length (call_chain g n x) \<le> n"
  by (induction n arbitrary: x) auto

definition calls_of :: "nat \<Rightarrow> key_calls \<Rightarrow> u32 list" where
  "calls_of i calls = map snd (filter (\<lambda>c. fst c = i) calls)"

lemma calls_of_append [simp]: "calls_of i (xs @ ys) = calls_of i xs @ calls_of i ys"
  by (simp add: calls_of_def)

lemma calls_of_due: "calls_of i (due_calls keys vals n) = (if i < n \<and> due keys vals i then [vals ! i] else [])"
proof -
  have "filter (\<lambda>j. due keys vals j \<and> j = i) [0..<n] = (if i < n \<and> due keys vals i then [i] else [])"
    by (induction n) (auto simp: less_Suc_eq)
  then show ?thesis
    by (simp add: calls_of_def due_calls_def filter_map comp_def conj_commute)
qed

lemma cleanup_loop_chain:
  assumes own: "own_keys g keys" and i: "i < length keys" and "length vals = length keys"
    and "keys_cleanup_loop n keys (vals, calls) = (vals', calls')"
  shows "calls_of i calls' = calls_of i calls @ (if key_live (keys ! i) then call_chain (g i) n (vals ! i) else [])
    \<and> vals' ! i = (if key_live (keys ! i) then chain_rest (g i) n (vals ! i) else vals ! i)"
  using assms(3,4)
proof (induction n arbitrary: vals calls)
  case (Suc n)
  note step = cleanup_loop_Suc [OF own Suc(2), of n calls]
  show ?case
  proof (cases "\<forall>i < length keys. \<not> due keys vals i")
    case True
    then have "vals' = vals" "calls' = calls" "key_live (keys ! i) \<longrightarrow> vals ! i = 0"
      using Suc(3) step i by (auto simp: due_def)
    then show ?thesis
      by simp
  next
    case False
    let ?vals = "pass_values g keys vals (length keys)"
    have "keys_cleanup_loop n keys (?vals, calls @ due_calls keys vals (length keys)) = (vals', calls')"
      using Suc(3) step False by simp
    moreover have "length ?vals = length keys"
      using Suc(2) by (simp add: pass_values_def)
    ultimately have "calls_of i calls' = calls_of i (calls @ due_calls keys vals (length keys))
        @ (if key_live (keys ! i) then call_chain (g i) n (?vals ! i) else [])
      \<and> vals' ! i = (if key_live (keys ! i) then chain_rest (g i) n (?vals ! i) else ?vals ! i)"
      using Suc.IH by blast
    then show ?thesis
      using i Suc(2) by (auto simp: calls_of_due pass_values_nth due_def)
  qed
qed simp

lemma key_create_loop_first:
  "n = length (takeWhile ky_allocated keys) \<Longrightarrow>
    key_create_loop i d keys =
      (if n < length keys then Some (i + n, keys[n := (keys ! n)\<lparr>ky_allocated := True, ky_destructor := d\<rparr>]) else None)"
  by (induction keys arbitrary: i n) auto

section \<open>Properties\<close>

text \<open>
  C34: At the exit of a thread, with destructors that leave the values alone: every key that is allocated with a
  destructor and has a value that is not \<^verbatim>\<open>NULL\<close> has its destructor called exactly once, with that
  value, in the order of the keys; no other destructor is called; the values of the keys with destructors
  are \<^verbatim>\<open>NULL\<close> afterwards and the others as before.
\<close>

theorem pthread_keys_cleanup_correct:
  assumes "inert_keys keys"
    and "length vals = length keys" "0 < iterations"
  shows "pthread_keys_cleanup iterations keys vals
    = (map (\<lambda>i. if key_live (keys ! i) then 0 else vals ! i) [0..<length keys],
       map (\<lambda>i. (i, vals ! i)) (filter (\<lambda>i. key_live (keys ! i) \<and> vals ! i \<noteq> 0) [0..<length keys]))"
proof -
  let ?n = "length keys" and ?vals = "pass_values (\<lambda>_ _. None) keys vals (length keys)"
  note own = inert_own [OF assms(1)]
  obtain m where m: "iterations = Suc m"
    using assms(3) gr0_conv_Suc by blast
  have vals: "?vals = map (\<lambda>i. if key_live (keys ! i) then 0 else vals ! i) [0..<?n]"
    using assms(2) by (auto simp: pass_values_def due_def set_again_def)
  have idle: "keys_cleanup_loop k keys (?vals, calls) = (?vals, calls)" for k calls
  proof (cases k)
    case (Suc l)
    have len: "length ?vals = ?n" and none: "\<forall>i < ?n. \<not> due keys ?vals i"
      by (simp_all add: vals due_def)
    show ?thesis
      unfolding Suc cleanup_loop_Suc [OF own len] by (rule if_P) (rule none)
  qed simp
  have "pthread_keys_cleanup iterations keys vals = (?vals, due_calls keys vals ?n)"
  proof (cases "\<forall>i < ?n. \<not> due keys vals i")
    case True
    then have "?vals = vals" "due_calls keys vals ?n = []"
      using assms(2) by (auto simp: due_calls_Nil pass_values_def intro!: nth_equalityI)
    then show ?thesis
      using True cleanup_loop_Suc [OF own assms(2)] m by (simp add: pthread_keys_cleanup_def)
  next
    case False
    then show ?thesis
      unfolding pthread_keys_cleanup_def m cleanup_loop_Suc [OF own assms(2)] idle by (simp only: if_False append_Nil)
  qed
  then show ?thesis
    by (simp add: vals due_calls_def due_def [abs_def])
qed

text \<open>
  C37: At the exit of a thread, with destructors that may set the value of their own key again: the destructor of an
  allocated key is called with the value of the key, then with the value that this call has set, and so on, until a call
  sets none or \<^verbatim>\<open>NULL\<close>, but at most \<^verbatim>\<open>CONFIG_PTHREAD_KEYS_DESTRUCTOR_ITERATIONS\<close> times; a value that is still set then is left.  A key
  without destructor, or not allocated, has no call and keeps its value.
\<close>

theorem pthread_keys_cleanup_chains:
  assumes "own_keys g keys" "length vals = length keys" "i < length keys"
    and "pthread_keys_cleanup iterations keys vals = (vals', calls)"
  shows "map snd (filter (\<lambda>c. fst c = i) calls) = (if key_live (keys ! i) then call_chain (g i) iterations (vals ! i) else [])
    \<and> vals' ! i = (if key_live (keys ! i) then chain_rest (g i) iterations (vals ! i) else vals ! i)
    \<and> length (filter (\<lambda>c. fst c = i) calls) \<le> iterations"
proof -
  have "calls_of i calls = (if key_live (keys ! i) then call_chain (g i) iterations (vals ! i) else [])"
    "vals' ! i = (if key_live (keys ! i) then chain_rest (g i) iterations (vals ! i) else vals ! i)"
    using cleanup_loop_chain [OF assms(1,3,2), of iterations "[]"] assms(4) by (auto simp: pthread_keys_cleanup_def calls_of_def)
  moreover from this(1) have "length (calls_of i calls) \<le> iterations"
    using length_call_chain [of "g i" iterations] by simp
  then have "length (filter (\<lambda>c. fst c = i) calls) \<le> iterations"
    by (simp only: calls_of_def length_map)
  ultimately show ?thesis
    by (simp only: calls_of_def)
qed

text \<open>
  \<^verbatim>\<open>pthread_key_create\<close> takes the first key that is not allocated and leaves the other keys alone, and
  \<^verbatim>\<open>pthread_key_delete\<close> gives it back; but its result is the number of the key, which is not 0 for any key but
  the first, and only without a free key it is \<^verbatim>\<open>-EAGAIN\<close>.
\<close>

theorem pthread_key_create_result:
  assumes "n = length (takeWhile ky_allocated keys)"
  shows "if n < length keys
    then \<exists>keys'. pthread_key_create d keys = (int n, Some n, keys')
      \<and> keys' = keys[n := (keys ! n)\<lparr>ky_allocated := True, ky_destructor := d\<rparr>]
      \<and> pthread_key_delete n keys' = Some (0, keys[n := (keys ! n)\<lparr>ky_allocated := False, ky_destructor := None\<rparr>])
    else pthread_key_create d keys = (- EAGAIN, None, keys)"
  using key_create_loop_first [OF assms, of 0 d] by (simp add: pthread_key_create_def pthread_key_delete_def)

section \<open>Witnesses\<close>

definition example_keys :: "pthread_key_s list" where
  "example_keys = [\<lparr>ky_allocated = True, ky_destructor = None\<rparr>, \<lparr>ky_allocated = True, ky_destructor = Some (\<lambda>x v. v)\<rparr>,
     \<lparr>ky_allocated = False, ky_destructor = None\<rparr>]"

theorem pthread_keys_cleanup_correct_witness:
  "pthread_keys_cleanup 4 example_keys [5, 6, 7] = ([5, 0, 7], [(1, 6)])"
proof -
  have "inert_keys example_keys"
    by (simp add: inert_keys_def example_keys_def)
  from pthread_keys_cleanup_correct [OF this, of "[5, 6, 7]" 4] show ?thesis
    by (simp add: example_keys_def key_live_def upt_rec)
qed

text \<open>A destructor that counts its value down by setting it again.\<close>

definition down :: "nat \<Rightarrow> u32 \<Rightarrow> u32 option" where
  "down i x = (if x = 1 then None else Some (x - 1))"

definition example_down :: "pthread_key_s list" where
  "example_down = [\<lparr>ky_allocated = True, ky_destructor = Some (\<lambda>x v. case down 0 x of None \<Rightarrow> v | Some y \<Rightarrow> v[0 := y])\<rparr>]"

theorem pthread_keys_cleanup_chains_witness:
  "(\<exists>calls. pthread_keys_cleanup 4 example_down [3] = ([0], calls) \<and> map snd (filter (\<lambda>c. fst c = 0) calls) = [3, 2, 1])
    \<and> (\<exists>calls. pthread_keys_cleanup 4 example_down [6] = ([2], calls) \<and> map snd (filter (\<lambda>c. fst c = 0) calls) = [6, 5, 4, 3])"
proof -
  have own: "own_keys down example_down"
    by (simp add: own_keys_def example_down_def)
  have 4: "(4 :: nat) = Suc (Suc (Suc (Suc 0)))"
    by simp
  have e: "pthread_keys_cleanup 4 example_down [3] = ([0], [(0, 3), (0, 2), (0, 1)])"
    "pthread_keys_cleanup 4 example_down [6] = ([2], [(0, 6), (0, 5), (0, 4), (0, 3)])"
    unfolding 4 by (simp_all add: pthread_keys_cleanup_def example_down_def keys_cleanup_step_def down_def Let_def)
  show ?thesis
    using pthread_keys_cleanup_chains [OF own _ _ e(1), of 0] pthread_keys_cleanup_chains [OF own _ _ e(2), of 0] e
    by (simp add: example_down_def key_live_def 4 set_again_def down_def)
qed

theorem pthread_key_create_result_witness:
  "\<exists>keys'. pthread_key_create None example_keys = (2, Some 2, keys')"
  using pthread_key_create_result [of 2 example_keys None] by (simp add: example_keys_def)

end
