(* ===== verification/Spec2Isabelle.thy ===== *)
theory Spec2Isabelle
  imports Endian Gpct_Dlist Page_Alloc Crc32 Arc4 Md5 Libc_Mem Libc_String Libc_Conv Libc_Qsort Semaphore Rwlock Timer Memalloc_Check Pthread_Sync Pthread_Thread Pthread_Keys
begin

text \<open>
  A verification library for the MutekH operating system: its kernel services (\<^verbatim>\<open>src/mutek\<close>), the container
  templates they are built on (\<^verbatim>\<open>src/gpct\<close>), parts of the hardware abstraction (\<^verbatim>\<open>src/hexo\<close>), and the libraries
  \<^verbatim>\<open>src/libc\<close>, \<^verbatim>\<open>src/libcrypto\<close>, \<^verbatim>\<open>src/libpthread\<close>.

  \<^bold>\<open>The program and its parts.\<close>  The scheduler keeps the runnable contexts of all processors in one queue and
  the waiting ones in wait queues; semaphores, read/write locks and the POSIX mutexes, conditions,
  barriers and threads are built on its wait queues.  The queues are instances of the container
  templates, as are the block and free lists of the memory allocator and the event list of the timer.
  The allocator takes its alignment from \<^verbatim>\<open>endian.h\<close> and its header checksum from the CRC-32 of libcrypto, and
  fills memory with the functions of the C library.  The page allocator is independent of them.

  \<^bold>\<open>Conventions.\<close>  The configuration is a 32 bit little endian processor (\<^verbatim>\<open>types_cpu32.h\<close>), so that \<^verbatim>\<open>size_t\<close>,
  pointers and the fast types are the type \<open>u32\<close> and wrap around; signed counters are integers whose
  overflow is \<open>None\<close> (\<open>c_int\<close>).  A function that can fail an assertion, dereference a null pointer, use freed
  memory or run for ever has an \<open>option\<close> result, \<open>None\<close> in these cases; C results such as \<^verbatim>\<open>NULL\<close> or \<^verbatim>\<open>-ENOMEM\<close>
  are ordinary values inside it.  Memory is a function from addresses to bytes, or a store of the fields
  of the structures concerned.  Loops are structural recursion or \<open>function\<close> with a termination proof; those
  that end only on good input are \<open>partial_function (option)\<close>, and the properties state that they return.
  The \<^verbatim>\<open>int_fast8_t\<close> counters have 32 bits, as without \<^verbatim>\<open>CONFIG_HEXO_INTTYPES_SMALL\<close>.  There is no fuel anywhere in the development.  Configuration options are fixed in the text of each theory or
  are arguments with the name of the option.

  \<^bold>\<open>The theories.\<close>
  \<^item> \<^verbatim>\<open>Mutek_Prelude\<close>: machine types, \<^verbatim>\<open>hexo/error.h\<close>, collections and generic facts.
  \<^item> \<^verbatim>\<open>Endian\<close> (\<^verbatim>\<open>hexo/endian.h\<close>): swaps, unaligned accesses and alignment; they are inverse to each other, and
    the alignment macros give the next multiple where it does not wrap.
  \<^item> \<^verbatim>\<open>Gpct_Clist\<close>, \<^verbatim>\<open>Gpct_Dlist\<close> (\<^verbatim>\<open>gpct/cont_clist.t\<close>, \<^verbatim>\<open>cont_dlist.t\<close>): the two doubly linked lists with their pointers.
    Representation predicates relate the pointers to the list of items, and each operation is shown to
    have its effect on that list.  The locale \<open>item_queue\<close> is the contract the users of a queue rely on;
    both lists are interpretations.
  \<^item> \<^verbatim>\<open>Page_Alloc\<close> (\<^verbatim>\<open>mutek/page_alloc.c\<close>): the free chain through the page table, contiguous allocation, reservation
    and reference counts; each operation refines the set of the free pages, and \<open>page_reach\<close> runs them in any
    sequence beside the references that the callers have.
  \<^item> \<^verbatim>\<open>Memory_Allocator\<close>, \<^verbatim>\<open>Memalloc_Check\<close> (\<^verbatim>\<open>mutek/memory_allocator_smart.c\<close>): the region allocator with its two
    pointer lists and its debugging aids.  \<open>mem_inv\<close> is the invariant, \<open>alloc_map\<close> the abstraction to the blocks
    in use; allocation, release, resizing and extension refine operations on that map, and \<open>alloc_reach\<close> runs them
    in any sequence beside the memory that the clients have.  The locale
    \<open>fit_policy\<close> is the contract of the search; first fit and best fit are interpretations.
  \<^item> \<^verbatim>\<open>Timer\<close> (\<^verbatim>\<open>mutek/timer.c\<close>): the sorted event list on the pointers of \<^verbatim>\<open>Gpct_Clist\<close>, with callbacks that may re-arm.
  \<^item> \<^verbatim>\<open>Scheduler\<close> (\<^verbatim>\<open>mutek/scheduler.c\<close>): run queue, idle processors, interrupts on their way and wait queues.  The state
    is \<open>sched_state\<close>; \<open>sched_step\<close> are the atomic steps of all processors, \<open>other_step\<close> those on other queues.
    The invariant says that every context is at one place and that no wakeup is lost.
  \<^item> \<^verbatim>\<open>Semaphore\<close>, \<^verbatim>\<open>Rwlock\<close> (\<^verbatim>\<open>mutek/semaphore.c\<close>, \<^verbatim>\<open>rwlock.c\<close>): each with a step relation that interleaves its operations
    with the rest of the system; the ledger of the units, and mutual exclusion.
  \<^item> \<^verbatim>\<open>Pthread_Mutex\<close>, \<^verbatim>\<open>Pthread_Sync\<close>, \<^verbatim>\<open>Pthread_Thread\<close>, \<^verbatim>\<open>Pthread_Keys\<close> (\<^verbatim>\<open>libpthread\<close>): the three kinds of mutexes; conditions
    and barriers; creation, exit, join, detach and cancellation of threads; thread specific data.  Mutual
    exclusion, signals and barrier rounds hold for every interleaving; join and exit meet in either order.
  \<^item> \<^verbatim>\<open>Crc32\<close>, \<^verbatim>\<open>Arc4\<close>, \<^verbatim>\<open>Md5\<close> (\<^verbatim>\<open>libcrypto\<close>): the table driven CRC equals the bitwise one, ARC4 computes RC4, and
    MD5 with its buffer computes the hash of RFC 1321 for every way to cut the message.
  \<^item> \<^verbatim>\<open>Libc_Mem\<close>, \<^verbatim>\<open>Libc_String\<close> (\<^verbatim>\<open>libc/string.c\<close>): the word-wise memory functions and the string functions on the
    flat memory, against lists of bytes.
  \<^item> \<^verbatim>\<open>Libc_Conv\<close> (\<^verbatim>\<open>libc/include/ctype.h\<close>, \<^verbatim>\<open>libc/intconv.c\<close>): the character classes agree with ASCII; numbers printed in any base
    from 2 to 36 are read back, at every width.
  \<^item> \<^verbatim>\<open>Libc_Sort\<close>, \<^verbatim>\<open>Libc_Qsort\<close> (\<^verbatim>\<open>libc/qsort.c\<close>, \<^verbatim>\<open>bsearch\<close> of \<^verbatim>\<open>libc/stdlib.c\<close>): the quicksort on the flat memory, with a locale for the
    comparison functions that \<^verbatim>\<open>memcmp\<close> interprets.  Sorting returns, permutes the elements into order and
    changes nothing else, and a binary search then finds an element exactly when there is one.

  \<^bold>\<open>Atomicity.\<close>  An operation on a queue runs with interrupts disabled and the lock of the queue held, so that it is
  one step of the models.  Where a function makes its caller wait, what it does after the wait is a step of
  its own.  The spin locks themselves are assembly of the processors and are not modelled; neither are
  memory ordering effects.

  \<^bold>\<open>Not modelled.\<close>  Code of the architectures, processors and drivers works on registers and assembly; the
  network stack, the file systems, the terminal library, Lua, the mathematical library, the GNU
  OpenMP runtime and the ELF loader are libraries on top of the parts modelled here, and large; the
  examples are applications.  The initialisation of contexts and stacks, the console and \<^verbatim>\<open>printk\<close> are
  input and output.  The formatted output of the C library, the device tree library and the channels of
  \<^verbatim>\<open>src/libmwmr\<close> are separate parts of some size.  In the modelled parts, what is left out is said in the text of their theories:
  the affinity functions of the scheduler, which are empty in the modelled build, and the extension
  of the allocator by pages of the MMU build.  
\<close>

end
